(* ===== verification/Prelude.thy ===== *)
theory Prelude
  imports Main "HOL-Library.Word" "HOL-Library.Signed_Division" "HOL-Library.Multiset"
begin

text \<open>
  Shared vocabulary of the development: what the Go language and its standard library give to
  every component (fixed-width integers, truncating division, errors of \<^verbatim>\<open>context.Context\<close>),
  the interfaces that several components share (a reachable set with an invariant, an implementation
  that refines a specification operation by operation) and generic lemmas on integers, lists and multisets.

  Conventions used in all theories.
  \<^item> A Go \<^verbatim>\<open>error\<close> result is an \<open>option\<close>: \<open>None\<close> is \<^verbatim>\<open>nil\<close>. A pair \<^verbatim>\<open>(T, error)\<close> is a sum,
    \<open>Inl\<close> carrying the error.
  \<^item> Time instants and durations are \<open>int\<close> nanoseconds unless a component says otherwise. The
    clock value a call reads with \<^verbatim>\<open>time.Now()\<close> is an argument of the model of that call.
  \<^item> Go's \<^verbatim>\<open>int\<close> and \<^verbatim>\<open>int64\<close> are \<open>int\<close>; where an operation can leave the 64-bit range and a
    property depends on it, the wrap-around is written with \<open>int64\<close> or \<open>int32\<close> below.
\<close>

named_theorems op_defs \<open>definitions of the operations of a component, unfolded in one-step proofs\<close>

subsection \<open>Fixed-width integers of Go\<close>

definition int64 :: "int \<Rightarrow> int" where
  "int64 x = signed_take_bit 63 x"

definition int32 :: "int \<Rightarrow> int" where
  "int32 x = signed_take_bit 31 x"

definition in_int64 :: "int \<Rightarrow> bool" where
  "in_int64 x \<longleftrightarrow> - (2 ^ 63) \<le> x \<and> x < 2 ^ 63"

definition in_int32 :: "int \<Rightarrow> bool" where
  "in_int32 x \<longleftrightarrow> - (2 ^ 31) \<le> x \<and> x < 2 ^ 31"

text \<open>Go's \<^verbatim>\<open>/\<close> on signed integers truncates towards zero.\<close>

definition go_div :: "int \<Rightarrow> int \<Rightarrow> int" where
  "go_div a b = a sdiv b"

subsection \<open>Errors of the standard context package\<close>

datatype ctx_err = Canceled | DeadlineExceeded

fun ctx_err_String :: "ctx_err \<Rightarrow> string" where
  "ctx_err_String Canceled = ''context canceled''"
| "ctx_err_String DeadlineExceeded = ''context deadline exceeded''"

subsection \<open>Bounded histories\<close>

text \<open>Appending to a slice and keeping its last \<open>n\<close> elements, as the histories of several components do.\<close>

definition append_bounded :: "nat \<Rightarrow> 'a list \<Rightarrow> 'a \<Rightarrow> 'a list" where
  "append_bounded n xs x =
     (let ys = xs @ [x] in if length ys > n then drop (length ys - n) ys else ys)"

subsection \<open>Lemmas on integers\<close>

lemma int64_id [simp]: "in_int64 x \<Longrightarrow> int64 x = x"
  by (simp add: int64_def in_int64_def signed_take_bit_int_eq_self)

lemma int32_id [simp]: "in_int32 x \<Longrightarrow> int32 x = x"
  by (simp add: int32_def in_int32_def signed_take_bit_int_eq_self)

lemma in_int64_int64 [simp]: "in_int64 (int64 x)"
  unfolding in_int64_def int64_def
  using signed_take_bit_int_greater_eq_minus_exp [of 63 x] signed_take_bit_int_less_exp [of 63 x]
  by simp

lemma in_int32_int32 [simp]: "in_int32 (int32 x)"
  unfolding in_int32_def int32_def
  using signed_take_bit_int_greater_eq_minus_exp [of 31 x] signed_take_bit_int_less_exp [of 31 x]
  by simp

lemma int64_add [simp]: "int64 (int64 a + b) = int64 (a + b)"
  using signed_take_bit_add [of 63 "signed_take_bit 63 a" b] signed_take_bit_add [of 63 a b] by (simp add: int64_def)

lemma int32_add [simp]: "int32 (int32 a + b) = int32 (a + b)"
  using signed_take_bit_add [of 31 "signed_take_bit 31 a" b] signed_take_bit_add [of 31 a b] by (simp add: int32_def)

lemma int64_wrap: "int64 (a + 2 ^ 64) = int64 a"
  by (simp add: int64_def signed_take_bit_eq_iff_take_bit_eq take_bit_eq_mod)

lemma int32_diff [simp]: "int32 (int32 a - b) = int32 (a - b)"
  using int32_add [of a "- b"] by simp

lemma go_div_nonneg: "0 \<le> a \<Longrightarrow> 0 < b \<Longrightarrow> go_div a b = a div b"
  by (cases "a = 0") (simp_all add: go_div_def signed_divide_int_def)

lemma go_div_le: "0 \<le> a \<Longrightarrow> 0 < b \<Longrightarrow> go_div a b * b \<le> a"
  using minus_mod_eq_div_mult [of a b] Euclidean_Rings.pos_mod_sign [of b a]
  by (simp add: go_div_nonneg del: Euclidean_Rings.pos_mod_sign)

lemma div_le_dividend_int:
  fixes a b :: int
  assumes "0 \<le> a" "0 < b"
  shows "a div b \<le> a"
  using zdiv_mono2 [of a 1 b] assms by simp

lemma floor_div_superadditive:
  fixes a b d :: int
  assumes "0 < d"
  shows "a div d + b div d \<le> (a + b) div d"
proof -
  have "0 \<le> (a mod d + b mod d) div d"
    using assms by (simp add: pos_imp_zdiv_nonneg_iff)
  then show ?thesis
    using div_add1_eq [of a b d] by simp
qed

subsection \<open>Lemmas on lists\<close>

lemma append_bounded_length: "length (append_bounded n xs x) = min n (Suc (length xs))"
  by (auto simp: append_bounded_def Let_def)

lemma append_bounded_last: "0 < n \<Longrightarrow> append_bounded n xs x \<noteq> [] \<and> last (append_bounded n xs x) = x"
  by (auto simp: append_bounded_def Let_def)

lemma nth_snoc_cases: "i < Suc (length xs) \<Longrightarrow> (xs @ [x]) ! i = (if i < length xs then xs ! i else x)"
  by (auto simp: nth_append less_Suc_eq)

subsection \<open>Counting the elements of a multiset with a property\<close>

definition count_if :: "('a \<Rightarrow> bool) \<Rightarrow> 'a multiset \<Rightarrow> nat" where
  "count_if P M = size (filter_mset P M)"

lemma count_if_simps [simp]:
  "count_if P {#} = 0" "count_if P (add_mset a M) = of_bool (P a) + count_if P M"
  by (auto simp: count_if_def)

lemma count_if_zero_iff: "count_if P M = 0 \<longleftrightarrow> (\<forall>x \<in># M. \<not> P x)"
  by (auto simp: count_if_def)

lemma count_if_replicate: "\<not> P a \<Longrightarrow> count_if P (replicate_mset n a) = 0"
  by (auto simp: count_if_zero_iff)

lemma count_if_le: "count_if P M \<le> size M"
  by (simp add: count_if_def size_filter_mset_lesseq)

subsection \<open>Interface: reachable states of a step relation\<close>

text \<open>
  A component with a nondeterministic scheduler is a set of initial states and a step relation. An
  invariant that holds initially and that every step keeps holds in every reachable state.
\<close>

inductive reach :: "('s \<Rightarrow> bool) \<Rightarrow> ('s \<Rightarrow> 's \<Rightarrow> bool) \<Rightarrow> 's \<Rightarrow> bool" for init step where
  reach_init: "init s \<Longrightarrow> reach init step s"
| reach_step: "reach init step s \<Longrightarrow> step s t \<Longrightarrow> reach init step t"

locale inductive_invariant =
  fixes init :: "'s \<Rightarrow> bool"
    and step :: "'s \<Rightarrow> 's \<Rightarrow> bool"
    and inv :: "'s \<Rightarrow> bool"
  assumes inv_init: "init s \<Longrightarrow> inv s"
    and inv_step: "inv s \<Longrightarrow> step s t \<Longrightarrow> inv t"
begin

lemma reach_inv: "reach init step s \<Longrightarrow> inv s"
  by (induction rule: reach.induct) (auto intro: inv_init inv_step)

lemma reach_stable:
  assumes "reach init step s" and "\<And>s. inv s \<Longrightarrow> P s"
  shows "P s"
  using assms reach_inv by blast

end

subsection \<open>Interface: operation-wise refinement\<close>

text \<open>
  A component whose operations are functions of its state implements a specification when one abstraction function
  commutes with every operation and the results agree; then it does so for every sequence of operations.
\<close>

fun op_run :: "('o \<Rightarrow> 's \<Rightarrow> 's \<times> 'r) \<Rightarrow> 's \<Rightarrow> 'o list \<Rightarrow> 's \<times> 'r list" where
  "op_run f s [] = (s, [])"
| "op_run f s (op # ops) = (case f op s of (s1, r) \<Rightarrow> case op_run f s1 ops of (s2, rs) \<Rightarrow> (s2, r # rs))"

locale op_refinement =
  fixes conc :: "'o \<Rightarrow> 's \<Rightarrow> 's \<times> 'r"
    and spec :: "'o \<Rightarrow> 'a \<Rightarrow> 'a \<times> 'r"
    and abs :: "'s \<Rightarrow> 'a"
    and wf :: "'s \<Rightarrow> bool"
  assumes conc_wf: "wf s \<Longrightarrow> wf (fst (conc op s))"
    and conc_spec: "wf s \<Longrightarrow> spec op (abs s) = (abs (fst (conc op s)), snd (conc op s))"
begin

lemma run_refines:
  assumes "wf s" "op_run conc s ops = (s', rs)"
  shows "wf s' \<and> op_run spec (abs s) ops = (abs s', rs)"
  using assms
proof (induction ops arbitrary: s rs)
  case (Cons op ops)
  obtain s1 r where c: "conc op s = (s1, r)" by fastforce
  obtain s2 rs2 where run: "op_run conc s1 ops = (s2, rs2)" by fastforce
  have "s' = s2" "rs = r # rs2"
    using Cons.prems(2) c run by simp_all
  moreover have "wf s1" "spec op (abs s) = (abs s1, r)"
    using conc_wf [OF Cons.prems(1), of op] conc_spec [OF Cons.prems(1), of op] c by simp_all
  ultimately show ?case
    using Cons.IH [of s1 rs2] run by simp
qed simp

lemma run_wf: "wf s \<Longrightarrow> wf (fst (op_run conc s ops))"
  using run_refines [of s ops "fst (op_run conc s ops)" "snd (op_run conc s ops)"] by simp

end

end
