(* ===== verification/Chan.thy ===== *)
theory Chan
  imports Prelude
begin

text \<open>
  Go's buffered channels, as far as the runtime uses them, and the interface of a bounded first-in
  first-out queue that its mailboxes, task queues and ring buffers provide.

  A channel is its buffer, its capacity and whether it is closed. Sending on a closed channel panics;
  receiving from a closed channel drains the buffer and then yields \<^verbatim>\<open>ok == false\<close>. A \<^verbatim>\<open>select\<close> chooses any
  ready case, and its \<^verbatim>\<open>default\<close> when no case is ready: the models return the list of possible outcomes.
\<close>

subsection \<open>Channels\<close>

record 'a chan =
  chan_buf :: "'a list"
  chan_cap :: nat
  chan_closed :: bool

definition make_chan :: "nat \<Rightarrow> 'a chan" where
  "make_chan n = \<lparr>chan_buf = [], chan_cap = n, chan_closed = False\<rparr>"

definition send_ready :: "'a chan \<Rightarrow> bool" where
  "send_ready ch \<longleftrightarrow> chan_closed ch \<or> length (chan_buf ch) < chan_cap ch"

definition recv_ready :: "'a chan \<Rightarrow> bool" where
  "recv_ready ch \<longleftrightarrow> chan_buf ch \<noteq> [] \<or> chan_closed ch"

text \<open>A send that is ready; \<open>None\<close> is the panic.\<close>

definition chan_send :: "'a chan \<Rightarrow> 'a \<Rightarrow> 'a chan option" where
  "chan_send ch x = (if chan_closed ch then None else Some (ch\<lparr>chan_buf := chan_buf ch @ [x]\<rparr>))"

text \<open>A receive that is ready; \<open>None\<close> is the zero value with \<^verbatim>\<open>ok == false\<close>.\<close>

definition chan_recv :: "'a chan \<Rightarrow> 'a option \<times> 'a chan" where
  "chan_recv ch =
     (case chan_buf ch of [] \<Rightarrow> (None, ch) | x # xs \<Rightarrow> (Some x, ch\<lparr>chan_buf := xs\<rparr>))"

definition chan_close :: "'a chan \<Rightarrow> 'a chan option" where
  "chan_close ch = (if chan_closed ch then None else Some (ch\<lparr>chan_closed := True\<rparr>))"

subsection \<open>Select\<close>

datatype 'a sent = Sent "'a chan" | SentPanic | SentDone | SentDefault

text \<open>
  \<^verbatim>\<open>select\<close> over a send, the cancellation of a context (\<open>done\<close>) and possibly a \<^verbatim>\<open>default\<close> case. The empty
  list of outcomes means that the goroutine stays blocked.
\<close>

definition select_send :: "bool \<Rightarrow> bool \<Rightarrow> 'a chan \<Rightarrow> 'a \<Rightarrow> 'a sent list" where
  "select_send dflt done ch x =
     (let ready = (if send_ready ch then [case chan_send ch x of None \<Rightarrow> SentPanic | Some ch' \<Rightarrow> Sent ch'] else [])
                  @ (if done then [SentDone] else [])
      in if ready = [] \<and> dflt then [SentDefault] else ready)"

datatype 'a received = Received "'a option" "'a chan" | ReceivedDone | ReceivedDefault

definition select_recv :: "bool \<Rightarrow> bool \<Rightarrow> 'a chan \<Rightarrow> 'a received list" where
  "select_recv dflt done ch =
     (let ready = (if recv_ready ch then [case chan_recv ch of (x, ch') \<Rightarrow> Received x ch'] else [])
                  @ (if done then [ReceivedDone] else [])
      in if ready = [] \<and> dflt then [ReceivedDefault] else ready)"

subsection \<open>Outcomes of select\<close>

lemma Sent_select_send:
  "Sent ch' \<in> set (select_send dflt done ch x) \<longleftrightarrow>
   \<not> chan_closed ch \<and> length (chan_buf ch) < chan_cap ch \<and> ch' = ch\<lparr>chan_buf := chan_buf ch @ [x]\<rparr>"
  by (auto simp: select_send_def Let_def send_ready_def chan_send_def)

lemma SentPanic_select_send: "SentPanic \<in> set (select_send dflt done ch x) \<longleftrightarrow> chan_closed ch"
  by (auto simp: select_send_def Let_def send_ready_def chan_send_def)

lemma SentDone_select_send: "SentDone \<in> set (select_send dflt done ch x) \<longleftrightarrow> done"
  by (auto simp: select_send_def Let_def send_ready_def chan_send_def)

lemma SentDefault_select_send:
  "SentDefault \<in> set (select_send dflt done ch x) \<longleftrightarrow>
   dflt \<and> \<not> done \<and> \<not> chan_closed ch \<and> chan_cap ch \<le> length (chan_buf ch)"
  by (auto simp: select_send_def Let_def send_ready_def chan_send_def)

lemma Received_select_recv:
  "Received y ch' \<in> set (select_recv dflt done ch) \<longleftrightarrow>
   (case chan_buf ch of [] \<Rightarrow> chan_closed ch \<and> y = None \<and> ch' = ch
                      | x # xs \<Rightarrow> y = Some x \<and> ch' = ch\<lparr>chan_buf := xs\<rparr>)"
  by (cases "chan_buf ch") (auto simp: select_recv_def Let_def recv_ready_def chan_recv_def)

lemma ReceivedDone_select_recv: "ReceivedDone \<in> set (select_recv dflt done ch) \<longleftrightarrow> done"
  by (auto simp: select_recv_def Let_def recv_ready_def split: prod.splits)

lemma set_select_send:
  "set (select_send dflt done ch x) =
     (if chan_closed ch then {SentPanic}
      else if length (chan_buf ch) < chan_cap ch then {Sent (ch\<lparr>chan_buf := chan_buf ch @ [x]\<rparr>)} else {}) \<union>
     (if done then {SentDone} else {}) \<union>
     (if dflt \<and> \<not> done \<and> \<not> chan_closed ch \<and> chan_cap ch \<le> length (chan_buf ch) then {SentDefault} else {})"
  by (cases "chan_closed ch"; cases "length (chan_buf ch) < chan_cap ch"; cases "done"; cases dflt)
    (simp_all add: select_send_def send_ready_def chan_send_def insert_commute)

lemma set_select_recv:
  "set (select_recv dflt done ch) =
     (case chan_buf ch of [] \<Rightarrow> if chan_closed ch then {Received None ch} else {}
                        | x # xs \<Rightarrow> {Received (Some x) (ch\<lparr>chan_buf := xs\<rparr>)}) \<union>
     (if done then {ReceivedDone} else {}) \<union>
     (if dflt \<and> \<not> done \<and> \<not> chan_closed ch \<and> chan_buf ch = [] then {ReceivedDefault} else {})"
  by (cases "chan_buf ch"; cases "chan_closed ch"; cases "done"; cases dflt)
    (simp_all add: select_recv_def recv_ready_def chan_recv_def insert_commute)

lemmas select_outcomes = Sent_select_send SentPanic_select_send SentDone_select_send SentDefault_select_send
  Received_select_recv ReceivedDone_select_recv

subsection \<open>Interface: a bounded first-in first-out queue\<close>

text \<open>
  The contract between a queue and its clients: an enqueue is refused exactly by a full queue, a dequeue exactly by an empty one, and
  elements leave in the order in which they entered. \<open>queue_run\<close> performs a list of operations (\<open>Some x\<close> enqueues \<open>x\<close>, \<open>None\<close>
  dequeues) and returns the result of each of them. The reference is a list of at most \<open>n\<close> elements.
\<close>

datatype 'a queue_result = Accepted | WasFull | Delivered 'a | WasEmpty

fun queue_run :: "('q \<Rightarrow> 'a \<Rightarrow> 'q option) \<Rightarrow> ('q \<Rightarrow> ('a \<times> 'q) option) \<Rightarrow> 'q \<Rightarrow> 'a option list \<Rightarrow> 'a queue_result list \<times> 'q" where
  "queue_run enq deq q [] = ([], q)"
| "queue_run enq deq q (Some x # ops) =
     (case enq q x of
        None \<Rightarrow> apfst ((#) WasFull) (queue_run enq deq q ops)
      | Some q' \<Rightarrow> apfst ((#) Accepted) (queue_run enq deq q' ops))"
| "queue_run enq deq q (None # ops) =
     (case deq q of
        None \<Rightarrow> apfst ((#) WasEmpty) (queue_run enq deq q ops)
      | Some (y, q') \<Rightarrow> apfst ((#) (Delivered y)) (queue_run enq deq q' ops))"

definition list_enq :: "nat \<Rightarrow> 'a list \<Rightarrow> 'a \<Rightarrow> 'a list option" where
  "list_enq n xs x = (if length xs < n then Some (xs @ [x]) else None)"

definition list_deq :: "'a list \<Rightarrow> ('a \<times> 'a list) option" where
  "list_deq xs = (case xs of [] \<Rightarrow> None | y # ys \<Rightarrow> Some (y, ys))"

locale fifo_queue =
  fixes enq :: "'q \<Rightarrow> 'a \<Rightarrow> 'q option"
    and deq :: "'q \<Rightarrow> ('a \<times> 'q) option"
    and contents :: "'q \<Rightarrow> 'a list"
    and capacity :: "'q \<Rightarrow> nat"
    and qinv :: "'q \<Rightarrow> bool"
  assumes enq_Some: "qinv q \<Longrightarrow> enq q x = Some q' \<Longrightarrow>
      qinv q' \<and> contents q' = contents q @ [x] \<and> capacity q' = capacity q \<and> length (contents q) < capacity q"
    and enq_None: "qinv q \<Longrightarrow> enq q x = None \<Longrightarrow> length (contents q) = capacity q"
    and deq_Some: "qinv q \<Longrightarrow> deq q = Some (y, q') \<Longrightarrow>
      qinv q' \<and> contents q = y # contents q' \<and> capacity q' = capacity q"
    and deq_None: "qinv q \<Longrightarrow> deq q = None \<Longrightarrow> contents q = []"
begin

lemma enq_accepts: "qinv q \<Longrightarrow> length (contents q) < capacity q \<Longrightarrow> \<exists>q'. enq q x = Some q'"
  using enq_None by (cases "enq q x") auto

lemma list_enq_contents: "qinv q \<Longrightarrow> list_enq (capacity q) (contents q) x = map_option contents (enq q x)"
  using enq_None enq_Some by (cases "enq q x") (auto simp: list_enq_def)

lemma list_deq_contents: "qinv q \<Longrightarrow> list_deq (contents q) = map_option (apsnd contents) (deq q)"
  using deq_None deq_Some by (cases "deq q") (auto simp: list_deq_def)

lemma run_list:
  "qinv q \<Longrightarrow> queue_run (list_enq (capacity q)) list_deq (contents q) ops = apsnd contents (queue_run enq deq q ops)"
proof (induction ops arbitrary: q)
  case (Cons p ops)
  show ?case
  proof (cases p)
    case None
    show ?thesis
    proof (cases "deq q")
      case (Some yq)
      then obtain y q1 where "deq q = Some (y, q1)" by (cases yq) simp
      then show ?thesis
        using deq_Some [OF Cons.prems, of y q1] Cons.IH [of q1] \<open>p = None\<close> by (simp add: list_deq_def apfst_apsnd)
    qed (use None Cons in \<open>simp add: list_deq_contents apfst_apsnd\<close>)
  next
    case (Some x)
    show ?thesis
    proof (cases "enq q x")
      case (Some q1)
      then show ?thesis
        using enq_Some [OF Cons.prems Some] Cons.IH [of q1] \<open>p = Some x\<close> by (simp add: list_enq_contents Cons.prems apfst_apsnd)
    qed (use Some Cons in \<open>simp add: list_enq_contents apfst_apsnd\<close>)
  qed
qed simp

lemma roundtrip:
  assumes "qinv q" "contents q = []" "0 < capacity q"
  shows "\<exists>q1 q2. enq q x = Some q1 \<and> deq q1 = Some (x, q2) \<and> contents q2 = []"
proof -
  obtain q1 where e: "enq q x = Some q1" using enq_accepts [OF assms(1)] assms by auto
  note q1 = enq_Some [OF assms(1) e]
  obtain y q2 where d: "deq q1 = Some (y, q2)"
    using deq_None q1 by (cases "deq q1") auto
  show ?thesis
    using e d deq_Some [OF _ d] q1 assms(2) by auto
qed

end

end
