(* ===== verification/RingBuffer.thy ===== *)
theory RingBuffer
  imports Complex_Main Chan
begin

text \<open>
  The Disruptor ring buffer of \<^verbatim>\<open>pkg/core/eventloop/ringbuffer.go\<close>, and the rounding of queue sizes
  of \<^verbatim>\<open>loop.go\<close>. Every method is split into the atomic actions it performs on shared memory
  (\<^verbatim>\<open>atomic.Load\<close>, \<^verbatim>\<open>atomic.Store\<close>, \<^verbatim>\<open>atomic.CompareAndSwap\<close>); theory EventLoop interleaves them.
  A \<^verbatim>\<open>nil\<close> pointer is \<open>None\<close>. Sequence numbers are unbounded: they would wrap only after \<open>2\<^sup>6\<^sup>3\<close>
  publications. Slot numbers are computed with the bit mask, as in the source.
\<close>

unbundle bit_operations_syntax

subsection \<open>Data\<close>

datatype WaitStrategy = BusySpinWait | YieldWait | BlockWait

record 'e RingBuffer =
  buffer :: "'e option list"
  available :: "int list"
  bufferSize :: int
  indexMask :: int
  cursor :: int
  gating :: int
  waitStrategy :: WaitStrategy

record RingBufferMetrics =
  m_Cursor :: int
  m_Gating :: int
  m_Utilization :: rat
  m_Capacity :: int

subsection \<open>Operations\<close>

text \<open>The constructor panics unless the size is a positive power of two; the panic is \<open>Inl\<close>.\<close>

definition NewRingBuffer :: "int \<Rightarrow> WaitStrategy \<Rightarrow> string + 'e RingBuffer" where
  "NewRingBuffer size' wait =
     (if size' \<le> 0 \<or> size' AND (size' - 1) \<noteq> 0
      then Inl ''ring buffer size must be a positive power of 2''
      else Inr \<lparr>buffer = replicate (nat size') None,
                available = replicate (nat size') (-1),
                bufferSize = size',
                indexMask = size' - 1,
                cursor = -1,
                gating = -1,
                waitStrategy = wait\<rparr>)"

definition slot :: "'e RingBuffer \<Rightarrow> int \<Rightarrow> nat" where
  "slot rb sequence = nat (sequence AND indexMask rb)"

text \<open>
  \<^verbatim>\<open>Next\<close> is a compare-and-swap loop. Its three atomic actions: load the cursor; compare the next
  sequence with the gating sequence (the buffer is full when the wrap point is past it); swap.
\<close>

definition Next_load :: "'e RingBuffer \<Rightarrow> int" where
  "Next_load rb = cursor rb"

definition Next_full :: "'e RingBuffer \<Rightarrow> int \<Rightarrow> bool" where
  "Next_full rb current \<longleftrightarrow> (let next = current + 1 in next - bufferSize rb > gating rb)"

definition Next_cas :: "'e RingBuffer \<Rightarrow> int \<Rightarrow> 'e RingBuffer option" where
  "Next_cas rb current =
     (let next = current + 1 in
      if cursor rb = current then Some (rb\<lparr>cursor := next\<rparr>) else None)"

text \<open>\<^verbatim>\<open>Publish\<close> stores the pointer, then marks the slot with the sequence.\<close>

definition Publish_store :: "'e RingBuffer \<Rightarrow> int \<Rightarrow> 'e option \<Rightarrow> 'e RingBuffer" where
  "Publish_store rb sequence event = rb\<lparr>buffer := (buffer rb)[slot rb sequence := event]\<rparr>"

definition Publish_mark :: "'e RingBuffer \<Rightarrow> int \<Rightarrow> 'e RingBuffer" where
  "Publish_mark rb sequence = rb\<lparr>available := (available rb)[slot rb sequence := sequence]\<rparr>"

definition Get :: "'e RingBuffer \<Rightarrow> int \<Rightarrow> 'e option" where
  "Get rb sequence = buffer rb ! slot rb sequence"

text \<open>
  The three wait strategies poll the same two conditions and differ only in how they idle between
  polls (spin, \<^verbatim>\<open>runtime.Gosched\<close>, sleep). One poll: the context error wins over a ready slot;
  \<open>None\<close> means that the poll found neither.
\<close>

definition waitFor_ready :: "'e RingBuffer \<Rightarrow> int \<Rightarrow> bool" where
  "waitFor_ready rb sequence \<longleftrightarrow> available rb ! slot rb sequence = sequence"

definition WaitFor_poll :: "'e RingBuffer \<Rightarrow> int \<Rightarrow> ctx_err option \<Rightarrow> (ctx_err + int) option" where
  "WaitFor_poll rb sequence ctxErr =
     (case ctxErr of
        Some err \<Rightarrow> Some (Inl err)
      | None \<Rightarrow> if waitFor_ready rb sequence then Some (Inr sequence) else None)"

definition Consume :: "'e RingBuffer \<Rightarrow> int \<Rightarrow> 'e RingBuffer" where
  "Consume rb sequence = rb\<lparr>gating := sequence\<rparr>"

text \<open>\<^verbatim>\<open>cursor\<close> and \<^verbatim>\<open>gating\<close> are two separate loads: \<open>rb\<close> is the ring at the first and \<open>rb2\<close> the ring at the second.\<close>

definition AvailableCapacity :: "'e RingBuffer \<Rightarrow> 'e RingBuffer \<Rightarrow> int" where
  "AvailableCapacity rb rb2 =
     (let used = cursor rb - gating rb2; used' = (if used < 0 then 0 else used) in bufferSize rb2 - used')"

definition Size :: "'e RingBuffer \<Rightarrow> int" where
  "Size rb = bufferSize rb"

text \<open>The metrics, of the same two loads; the floating-point percentage is computed exactly, as a rational.\<close>

definition Metrics :: "'e RingBuffer \<Rightarrow> 'e RingBuffer \<Rightarrow> RingBufferMetrics" where
  "Metrics rb rb2 =
     (let used = cursor rb - gating rb2; used' = (if used < 0 then 0 else used) in
      \<lparr>m_Cursor = cursor rb, m_Gating = gating rb2,
       m_Utilization = of_int used' / of_int (bufferSize rb2) * 100, m_Capacity = bufferSize rb2\<rparr>)"

text \<open>
  \<^verbatim>\<open>nextPow2\<close> on Go's 64-bit \<^verbatim>\<open>int\<close>: the comparison is signed, and after it the value is positive,
  so the arithmetic shifts are logical ones.
\<close>

definition nextPow2 :: "64 word \<Rightarrow> 64 word" where
  "nextPow2 n =
     (if n <s 2 then 2
      else let n1 = n - 1;
               n2 = n1 OR drop_bit 1 n1;
               n3 = n2 OR drop_bit 2 n2;
               n4 = n3 OR drop_bit 4 n3;
               n5 = n4 OR drop_bit 8 n4;
               n6 = n5 OR drop_bit 16 n5
           in n6 + 1)"

subsection \<open>Powers of two\<close>

lemma and_pred_zero_imp_pow2_nat:
  fixes n :: nat
  assumes "0 < n" and "n AND (n - 1) = 0"
  shows "\<exists>k. n = 2 ^ k"
  using assms
proof (induction n rule: less_induct)
  case (less n)
  show ?case
  proof (cases "even n")
    case True
    then obtain m where n: "n = 2 * m" and m: "0 < m"
      using less.prems(1) by (auto elim!: evenE)
    have "n - 1 = 2 * (m - 1) + 1"
      using n m by simp
    then have "(n AND (n - 1)) div 2 = m AND (m - 1)"
      using n by (simp add: and_nat_rec [of "2 * m"])
    then have "m AND (m - 1) = 0"
      using less.prems(2) by simp
    with less.IH [of m] n m obtain k where "m = 2 ^ k"
      by auto
    then have "n = 2 ^ Suc k"
      using n by simp
    then show ?thesis by blast
  next
    case False
    then obtain m where n: "n = 2 * m + 1"
      by (auto elim!: oddE)
    have "(n AND (n - 1)) div 2 = m AND m"
      using n by (simp add: and_nat_rec [of "Suc (2 * m)"])
    then have "m = 0"
      using less.prems(2) by simp
    then have "n = 2 ^ 0"
      using n by simp
    then show ?thesis by blast
  qed
qed

lemma pow2_and_pred: "(2 ^ k :: int) AND (2 ^ k - 1) = 0"
  by (simp flip: mask_eq_exp_minus_1 take_bit_eq_mask)

lemma and_pred_zero_iff:
  fixes n :: int
  assumes "0 < n"
  shows "n AND (n - 1) = 0 \<longleftrightarrow> (\<exists>k. n = 2 ^ k)"
proof
  assume z: "n AND (n - 1) = 0"
  define m where "m = nat n"
  have n: "n = int m" and m: "0 < m"
    using assms by (simp_all add: m_def)
  have "int (m AND (m - 1)) = n AND (n - 1)"
    using n m by (simp add: of_nat_and_eq)
  then have "m AND (m - 1) = 0"
    using z by simp
  then obtain k where "m = 2 ^ k"
    using and_pred_zero_imp_pow2_nat m by blast
  then show "\<exists>k. n = 2 ^ k"
    using n by auto
next
  assume "\<exists>k. n = 2 ^ k"
  then show "n AND (n - 1) = 0"
    by (auto simp: pow2_and_pred)
qed

subsection \<open>Well-formed buffers and slot arithmetic\<close>

definition wf_ring :: "'e RingBuffer \<Rightarrow> bool" where
  "wf_ring rb \<longleftrightarrow> (\<exists>k. bufferSize rb = 2 ^ k) \<and> indexMask rb = bufferSize rb - 1 \<and>
     length (buffer rb) = nat (bufferSize rb) \<and> length (available rb) = nat (bufferSize rb)"

lemma wf_ring_pos: "wf_ring rb \<Longrightarrow> 0 < bufferSize rb"
  by (auto simp: wf_ring_def)

lemma slot_mod: "wf_ring rb \<Longrightarrow> slot rb s = nat (s mod bufferSize rb)"
  by (auto simp: wf_ring_def slot_def simp flip: mask_eq_exp_minus_1 take_bit_eq_mask take_bit_eq_mod)

lemma slot_less: "wf_ring rb \<Longrightarrow> slot rb s < nat (bufferSize rb)"
  using wf_ring_pos [of rb] by (simp add: slot_mod)

lemma slot_less_lengths:
  "wf_ring rb \<Longrightarrow> slot rb s < length (buffer rb) \<and> slot rb s < length (available rb)"
  using slot_less [of rb s] by (simp add: wf_ring_def)

lemma slot_eq_iff:
  assumes wf: "wf_ring rb" and d: "\<bar>s - t\<bar> < bufferSize rb"
  shows "slot rb s = slot rb t \<longleftrightarrow> s = t"
proof
  assume "slot rb s = slot rb t"
  then have "s mod bufferSize rb = t mod bufferSize rb"
    using wf_ring_pos [OF wf] by (simp add: slot_mod [OF wf] nat_eq_iff)
  then have "bufferSize rb dvd s - t"
    by (simp add: mod_eq_dvd_iff)
  with d show "s = t"
    by (metis abs_dvd_iff dvd_abs_iff eq_iff_diff_eq_0 linorder_not_less zdvd_imp_le zero_less_abs_iff)
qed simp

lemma wf_NewRingBuffer:
  assumes "NewRingBuffer n w = Inr rb"
  shows "wf_ring rb \<and> bufferSize rb = n \<and> cursor rb = -1 \<and> gating rb = -1 \<and>
         (\<forall>a \<in> set (available rb). a = -1)"
  using assms and_pred_zero_iff [of n]
  by (auto simp: NewRingBuffer_def wf_ring_def split: if_splits)

subsection \<open>Rounding to the next power of two\<close>

lemma bit_smear_step:
  fixes m n :: "'a::len word"
  assumes "\<And>i. bit m i \<longleftrightarrow> (\<exists>j<k. bit n (i + j))"
  shows "bit (m OR drop_bit k m) i \<longleftrightarrow> (\<exists>j<2 * k. bit n (i + j))"
proof
  assume "bit (m OR drop_bit k m) i"
  then consider "bit m i" | "bit m (k + i)"
    by (auto simp: bit_or_iff bit_drop_bit_eq)
  then show "\<exists>j<2 * k. bit n (i + j)"
  proof cases
    case 1
    then show ?thesis using assms by (metis less_le_trans mult_2 le_add1)
  next
    case 2
    then obtain j where "j < k" "bit n (k + i + j)" using assms by auto
    then have "k + j < 2 * k" "bit n (i + (k + j))" by (simp_all add: ac_simps)
    then show ?thesis by blast
  qed
next
  assume "\<exists>j<2 * k. bit n (i + j)"
  then obtain j where j: "j < 2 * k" "bit n (i + j)" by auto
  show "bit (m OR drop_bit k m) i"
  proof (cases "j < k")
    case True
    then show ?thesis using j assms by (auto simp: bit_or_iff)
  next
    case False
    then have "j - k < k" "bit n (k + i + (j - k))"
      using j by (simp_all add: ac_simps)
    then have "bit m (k + i)" using assms by blast
    then show ?thesis by (simp add: bit_or_iff bit_drop_bit_eq)
  qed
qed

text \<open>The chain of shifts that spreads the top bit of a value downwards over 32 positions.\<close>

definition smear32 :: "64 word \<Rightarrow> 64 word" where
  "smear32 n1 =
     (let n2 = n1 OR drop_bit 1 n1;
          n3 = n2 OR drop_bit 2 n2;
          n4 = n3 OR drop_bit 4 n3;
          n5 = n4 OR drop_bit 8 n4
      in n5 OR drop_bit 16 n5)"

lemma bit_smear32: "bit (smear32 n) i \<longleftrightarrow> (\<exists>j<32. bit n (i + j))"
proof -
  define n2 where "n2 = n OR drop_bit 1 n"
  define n3 where "n3 = n2 OR drop_bit 2 n2"
  define n4 where "n4 = n3 OR drop_bit 4 n3"
  define n5 where "n5 = n4 OR drop_bit 8 n4"
  have 2: "bit n2 i \<longleftrightarrow> (\<exists>j<2. bit n (i + j))" for i
    using bit_smear_step [of n 1 n i] by (simp add: n2_def)
  have 3: "bit n3 i \<longleftrightarrow> (\<exists>j<4. bit n (i + j))" for i
    using bit_smear_step [OF 2, of i] by (simp add: n3_def)
  have 4: "bit n4 i \<longleftrightarrow> (\<exists>j<8. bit n (i + j))" for i
    using bit_smear_step [OF 3, of i] by (simp add: n4_def)
  have 5: "bit n5 i \<longleftrightarrow> (\<exists>j<16. bit n (i + j))" for i
    using bit_smear_step [OF 4, of i] by (simp add: n5_def)
  show ?thesis
    using bit_smear_step [OF 5, of i] by (simp add: smear32_def Let_def n2_def n3_def n4_def n5_def)
qed

lemma bit_unat_odd: "bit (w :: 'a::len word) i \<longleftrightarrow> odd (unat w div 2 ^ i)"
proof -
  have "bit w i \<longleftrightarrow> bit (unat w) i"
    by (simp add: bit_unsigned_iff)
  then show ?thesis
    by (simp add: bit_iff_odd)
qed

lemma smear32_pow2:
  assumes h: "2 ^ h \<le> unat n" "unat n < 2 ^ Suc h" "h < 32"
  shows "smear32 n = mask (Suc h)"
proof (rule bit_word_eqI)
  fix i assume "i < LENGTH(64)"
  have "unat n div 2 ^ h = 1"
    using h by (simp add: div_nat_eqI)
  then have top: "bit n h"
    by (simp add: bit_unat_odd)
  have above: "\<not> bit n j" if "h < j" for j
  proof -
    have "unat n < 2 ^ j"
      using h(2) that by (meson Suc_leI less_le_trans one_le_numeral power_increasing)
    then show ?thesis
      by (simp add: bit_unat_odd)
  qed
  have "(\<exists>j<32. bit n (i + j)) \<longleftrightarrow> i \<le> h"
  proof
    assume "i \<le> h"
    then have "h - i < 32" "bit n (i + (h - i))" using h top by simp_all
    then show "\<exists>j<32. bit n (i + j)" by blast
  next
    show "\<exists>j<32. bit n (i + j) \<Longrightarrow> i \<le> h" using above by (meson le_add1 linorder_not_less order_less_le_trans)
  qed
  then show "bit (smear32 n) i \<longleftrightarrow> bit (mask (Suc h) :: 64 word) i"
    using \<open>i < LENGTH(64)\<close> by (auto simp: bit_smear32 bit_mask_iff)
qed

lemma nextPow2_smear: "\<not> n <s 2 \<Longrightarrow> nextPow2 n = smear32 (n - 1) + 1"
  by (simp add: nextPow2_def smear32_def Let_def)

lemma exp_bounds: "0 < (m :: nat) \<Longrightarrow> \<exists>h. 2 ^ h \<le> m \<and> m < 2 ^ Suc h"
  using ex_power_ivl1 [of 2 m] by auto

lemma nextPow2_spec:
  fixes n :: int
  assumes "2 \<le> n" "n \<le> 2 ^ 32"
  shows "\<exists>k. sint (nextPow2 (word_of_int n)) = 2 ^ k \<and> n \<le> 2 ^ k \<and> 2 ^ k < 2 * n"
proof -
  define w :: "64 word" where "w = word_of_int n - 1"
  have "w = word_of_int (n - 1)"
    by (simp add: w_def)
  then have "uint w = take_bit 64 (n - 1)"
    by (simp only: unsigned_of_int) simp
  moreover have "take_bit 64 (n - 1) = n - 1"
    by (rule take_bit_int_eq_self) (use assms in simp_all)
  ultimately have un: "uint w = n - 1"
    by simp
  then have w: "unat w = nat (n - 1)"
    by (simp add: unat_eq_nat_uint)
  obtain h where h: "2 ^ h \<le> nat (n - 1)" "nat (n - 1) < 2 ^ Suc h"
    using exp_bounds [of "nat (n - 1)"] assms by auto
  have "nat (n - 1) < 2 ^ 32"
    using assms by (simp add: nat_less_iff)
  with h(1) have "(2::nat) ^ h < 2 ^ 32"
    by (rule le_less_trans)
  then have h32: "h < 32"
    using power_less_imp_less_exp [of "2::nat" h 32] by simp
  have sl: "\<not> (word_of_int n :: 64 word) <s 2"
  proof -
    have "sint (word_of_int n :: 64 word) = signed_take_bit 63 n"
      by (simp add: signed_of_int)
    moreover have "signed_take_bit 63 n = n"
      by (rule signed_take_bit_int_eq_self) (use assms in simp_all)
    ultimately show ?thesis
      using assms(1) by (simp add: word_sless_alt)
  qed
  have "nextPow2 (word_of_int n) = smear32 w + 1"
    using nextPow2_smear [OF sl] by (simp add: w_def)
  also have "\<dots> = mask (Suc h) + 1"
    using smear32_pow2 [of h w] h w h32 by simp
  also have "\<dots> = 2 ^ Suc h"
    by (simp add: mask_eq_decr_exp)
  finally have e: "nextPow2 (word_of_int n) = (2 ^ Suc h :: 64 word)" .
  have "sint (2 ^ Suc h :: 64 word) = 2 ^ Suc h"
  proof -
    have "(2::int) ^ Suc h < 2 ^ 63"
      using h32 by (intro power_strict_increasing) auto
    moreover have "- (2 ^ 63) \<le> (2 ^ Suc h :: int)"
      by (rule order_trans [of _ 0]) simp_all
    ultimately have "signed_take_bit 63 (2 ^ Suc h) = (2 ^ Suc h :: int)"
      by (rule signed_take_bit_int_eq_self [rotated])
    moreover have "sint (word_of_int (2 ^ Suc h) :: 64 word) = signed_take_bit 63 (2 ^ Suc h)"
      by (simp only: signed_of_int) simp
    ultimately show ?thesis
      by simp
  qed
  moreover have "n \<le> 2 ^ Suc h" "2 ^ Suc h < 2 * n"
  proof -
    from h(2) have "int (nat (n - 1)) < int (2 ^ Suc h)" by (simp only: of_nat_less_iff)
    then show "n \<le> 2 ^ Suc h" using assms by simp
    from h(1) have "int (2 ^ h) \<le> int (nat (n - 1))" by (simp only: of_nat_le_iff)
    then show "2 ^ Suc h < 2 * n" using assms by simp
  qed
  ultimately show ?thesis
    using e by metis
qed


text \<open>
  C13. For every queue size from 1 to \<open>2\<^sup>3\<^sup>2\<close> the rounded size is a power of two that is at least the
  requested size and less than twice it (for size 1: less than four), so that the ring buffer
  constructor does not panic on it and the buffer has that many slots.
\<close>

theorem nextPow2_ring:
  fixes n :: int
  assumes "1 \<le> n" and "n \<le> 2 ^ 32"
  shows "\<exists>rb k. NewRingBuffer (sint (nextPow2 (word_of_int n))) w = Inr (rb :: 'e RingBuffer) \<and>
           bufferSize rb = 2 ^ k \<and> n \<le> bufferSize rb \<and> bufferSize rb < 2 * max 2 n"
proof -
  obtain k where k: "sint (nextPow2 (word_of_int n)) = 2 ^ k" "n \<le> 2 ^ k" "2 ^ k < 2 * max 2 n"
  proof (cases "n = 1")
    case True
    then have "sint (nextPow2 (word_of_int n)) = 2 ^ 1"
      by (simp add: nextPow2_def word_sless_alt)
    with True that [of 1] show ?thesis by simp
  next
    case False
    then show ?thesis
      using nextPow2_spec [of n] assms that by fastforce
  qed
  have "\<not> (2 ^ k :: int) \<le> 0"
    by (simp add: not_le)
  then show ?thesis
    using k by (auto simp: NewRingBuffer_def pow2_and_pred)
qed

theorem nextPow2_ring_witness:
  "(1::int) \<le> 1000 \<and> (1000::int) \<le> 2 ^ 32 \<and>
   (\<exists>rb k. NewRingBuffer (sint (nextPow2 (word_of_int 1000))) YieldWait = Inr (rb :: nat RingBuffer) \<and>
      bufferSize rb = 2 ^ k \<and> 1000 \<le> bufferSize rb \<and> bufferSize rb < 2 * max 2 1000)"
  using nextPow2_ring [of 1000 YieldWait, where ?'e = nat] by simp

text \<open>
  Above \<open>2\<^sup>3\<^sup>2\<close> the rounding is wrong, because the shift by 32 is missing: a queue size of
  \<open>2\<^sup>4\<^sup>0 + 1\<close>, which the configuration check accepts, is rounded to \<open>2\<^sup>4\<^sup>1 - 511\<close>, and the ring buffer
  constructor panics.
\<close>

lemma nextPow2_large_panics:
  "sint (nextPow2 (word_of_int (2 ^ 40 + 1))) = 2 ^ 41 - 511 \<and>
   NewRingBuffer (sint (nextPow2 (word_of_int (2 ^ 40 + 1)))) w =
     (Inl ''ring buffer size must be a positive power of 2'' :: string + 'e RingBuffer)"
proof -
  have "sint (nextPow2 (word_of_int (2 ^ 40 + 1))) = 2 ^ 41 - 511"
    by (simp add: nextPow2_def Let_def word_sless_alt)
  then show ?thesis
    by (simp add: NewRingBuffer_def)
qed

subsection \<open>A ring used by one goroutine is a bounded queue\<close>

text \<open>The calls \<^verbatim>\<open>Next\<close> and \<^verbatim>\<open>Publish\<close>, and one successful poll with \<^verbatim>\<open>Get\<close> and \<^verbatim>\<open>Consume\<close>, run without interleaving.\<close>

definition ring_enq :: "'e RingBuffer \<Rightarrow> 'e \<Rightarrow> 'e RingBuffer option" where
  "ring_enq rb e =
     (let current = Next_load rb in
      if Next_full rb current then None
      else case Next_cas rb current of
             None \<Rightarrow> None
           | Some rb1 \<Rightarrow> Some (Publish_mark (Publish_store rb1 (current + 1) (Some e)) (current + 1)))"

definition ring_deq :: "'e RingBuffer \<Rightarrow> ('e \<times> 'e RingBuffer) option" where
  "ring_deq rb =
     (let next = gating rb + 1 in
      if waitFor_ready rb next
      then case Get rb next of Some e \<Rightarrow> Some (e, Consume rb next) | None \<Rightarrow> None
      else None)"

definition ring_contents :: "'e RingBuffer \<Rightarrow> 'e list" where
  "ring_contents rb = map (\<lambda>s. the (Get rb s)) [gating rb + 1..cursor rb]"

definition ring_inv :: "'e RingBuffer \<Rightarrow> bool" where
  "ring_inv rb \<longleftrightarrow> wf_ring rb \<and> gating rb \<le> cursor rb \<and> cursor rb - gating rb \<le> bufferSize rb \<and>
     (\<forall>s. gating rb < s \<and> s \<le> cursor rb \<longrightarrow> waitFor_ready rb s \<and> Get rb s \<noteq> None) \<and>
     (\<forall>a \<in> set (available rb). a \<le> cursor rb)"

lemma ring_enq_eval:
  "ring_enq rb e =
     (if cursor rb + 1 - bufferSize rb > gating rb then None
      else Some (rb\<lparr>cursor := cursor rb + 1,
                    buffer := (buffer rb)[slot rb (cursor rb + 1) := Some e],
                    available := (available rb)[slot rb (cursor rb + 1) := cursor rb + 1]\<rparr>))"
  by (simp add: ring_enq_def Next_load_def Next_full_def Next_cas_def Publish_store_def Publish_mark_def slot_def Let_def)

lemma ring_enq_Some:
  assumes inv: "ring_inv rb" and e: "ring_enq rb e = Some rb'"
  shows "ring_inv rb' \<and> ring_contents rb' = ring_contents rb @ [e] \<and> bufferSize rb' = bufferSize rb \<and>
         int (length (ring_contents rb)) < bufferSize rb"
proof -
  let ?n = "cursor rb + 1"
  have room: "?n - gating rb \<le> bufferSize rb"
    and rb': "rb' = rb\<lparr>cursor := ?n, buffer := (buffer rb)[slot rb ?n := Some e],
                        available := (available rb)[slot rb ?n := ?n]\<rparr>"
    using e by (auto simp: ring_enq_eval split: if_splits)
  have wf: "wf_ring rb" and c: "gating rb \<le> cursor rb" using inv by (auto simp: ring_inv_def)
  have len: "slot rb s < length (buffer rb)" "slot rb s < length (available rb)" for s
    using slot_less_lengths [OF wf] by auto
  have slot': "slot rb' s = slot rb s" for s by (simp add: slot_def rb')
  have diff: "slot rb s \<noteq> slot rb ?n" if "gating rb < s" "s \<le> cursor rb" for s
    using slot_eq_iff [OF wf, of s ?n] that room by auto
  have old: "Get rb' s = Get rb s" "waitFor_ready rb' s = waitFor_ready rb s" if "gating rb < s" "s \<le> cursor rb" for s
    using diff [OF that] len unfolding Get_def waitFor_ready_def slot' by (simp_all add: rb' nth_list_update)
  have new: "Get rb' ?n = Some e" "waitFor_ready rb' ?n"
    using len unfolding Get_def waitFor_ready_def slot' by (simp_all add: rb')
  have "ring_contents rb' = map (\<lambda>s. the (Get rb' s)) ([gating rb + 1..cursor rb] @ [?n])"
    using c upto_rec2 [of "gating rb + 1" ?n] by (simp add: ring_contents_def rb')
  also have "\<dots> = ring_contents rb @ [e]"
    using new old by (auto simp: ring_contents_def)
  finally have cont: "ring_contents rb' = ring_contents rb @ [e]" .
  have range: "s \<le> cursor rb \<or> s = ?n" if "s \<le> cursor rb'" for s using that by (auto simp: rb')
  have "ring_inv rb'"
    unfolding ring_inv_def
  proof (intro conjI allI impI ballI)
    show "wf_ring rb'" using wf by (simp add: wf_ring_def rb')
    show "gating rb' \<le> cursor rb'" "cursor rb' - gating rb' \<le> bufferSize rb'" using c room by (simp_all add: rb')
    fix s assume s: "gating rb' < s \<and> s \<le> cursor rb'"
    then show "waitFor_ready rb' s" "Get rb' s \<noteq> None"
      using range [of s] old [of s] new inv by (auto simp: ring_inv_def rb')
  next
    fix a assume "a \<in> set (available rb')"
    then have "a = ?n \<or> a \<in> set (available rb)"
      using set_update_subset_insert [of "available rb"] by (auto simp: rb')
    then show "a \<le> cursor rb'" using inv by (auto simp: ring_inv_def rb')
  qed
  then show ?thesis
    using cont room c by (simp add: rb' ring_contents_def)
qed

lemma ring_deq_Some:
  assumes inv: "ring_inv rb" and d: "ring_deq rb = Some (e, rb')"
  shows "ring_inv rb' \<and> ring_contents rb = e # ring_contents rb' \<and> bufferSize rb' = bufferSize rb"
proof -
  let ?n = "gating rb + 1"
  have r: "waitFor_ready rb ?n" "Get rb ?n = Some e" and rb': "rb' = rb\<lparr>gating := ?n\<rparr>"
    using d by (auto simp: ring_deq_def Let_def Consume_def split: if_splits option.splits)
  have "?n \<le> cursor rb"
    using r(1) inv slot_less_lengths [of rb ?n] by (auto simp: ring_inv_def waitFor_ready_def in_set_conv_nth)
  then show ?thesis
    using inv r upto_rec1 [of ?n "cursor rb"]
    by (auto simp: rb' ring_inv_def ring_contents_def wf_ring_def Get_def waitFor_ready_def slot_def)
qed

interpretation ringq: fifo_queue ring_enq ring_deq ring_contents "\<lambda>rb. nat (bufferSize rb)" ring_inv
proof unfold_locales
  fix q q' :: "'e RingBuffer" and x y
  assume q: "ring_inv q"
  show "ring_enq q x = Some q' \<Longrightarrow> ring_inv q' \<and> ring_contents q' = ring_contents q @ [x] \<and>
      nat (bufferSize q') = nat (bufferSize q) \<and> length (ring_contents q) < nat (bufferSize q)"
    using ring_enq_Some [OF q, of x q'] by (simp add: zless_nat_eq_int_zless)
  show "ring_enq q x = None \<Longrightarrow> length (ring_contents q) = nat (bufferSize q)"
    using q by (auto simp: ring_enq_eval ring_contents_def ring_inv_def split: if_splits)
  show "ring_deq q = Some (y, q') \<Longrightarrow> ring_inv q' \<and> ring_contents q = y # ring_contents q' \<and>
      nat (bufferSize q') = nat (bufferSize q)"
    using ring_deq_Some [OF q] by auto
  have "cursor q \<le> gating q \<or> waitFor_ready q (gating q + 1) \<and> Get q (gating q + 1) \<noteq> None"
    using q unfolding ring_inv_def by (cases "gating q < cursor q") auto
  then show "ring_deq q = None \<Longrightarrow> ring_contents q = []"
    by (auto simp: ring_deq_def ring_contents_def Let_def split: if_splits option.splits)
qed

text \<open>
  C24. A new ring of \<open>n\<close> slots used by one goroutine is a bounded queue: for every sequence of publications and polls, each operation
  has the result it has on a list of at most \<open>n\<close> elements, and the ring holds the elements of that list. So a publication is refused
  exactly when \<open>n\<close> elements are in the ring, a poll finds nothing exactly when there is none, and otherwise delivers the oldest; the
  slots are reused without mixing elements up.
\<close>

theorem ring_queue_run:
  assumes "NewRingBuffer n w = Inr rb" and "queue_run ring_enq ring_deq rb ops = (results, rb')"
  shows "queue_run (list_enq (nat n)) list_deq [] ops = (results, ring_contents rb')"
proof -
  have rb: "ring_inv rb" "ring_contents rb = []" "bufferSize rb = n"
    using wf_NewRingBuffer [OF assms(1)] wf_ring_pos [of rb] by (auto simp: ring_inv_def ring_contents_def)
  show ?thesis
    using ringq.run_list [OF rb(1), of ops] assms(2) rb(2,3) by simp
qed

theorem ring_queue_run_witness:
  "\<exists>rb rb'. NewRingBuffer 2 YieldWait = Inr rb \<and>
     queue_run ring_enq ring_deq rb [None, Some (5::nat), Some 6, Some 7, None, Some 8] =
       ([WasEmpty, Accepted, Accepted, WasFull, Delivered 5, Accepted], rb') \<and>
     queue_run (list_enq 2) list_deq [] [None, Some (5::nat), Some 6, Some 7, None, Some 8] =
       ([WasEmpty, Accepted, Accepted, WasFull, Delivered 5, Accepted], ring_contents rb')"
proof -
  define rb :: "nat RingBuffer" where "rb = \<lparr>buffer = [None, None], available = [-1, -1], bufferSize = 2, indexMask = 1,
     cursor = -1, gating = -1, waitStrategy = YieldWait\<rparr>"
  define rb' :: "nat RingBuffer" where "rb' = \<lparr>buffer = [Some 8, Some 6], available = [2, 1], bufferSize = 2, indexMask = 1,
     cursor = 2, gating = 0, waitStrategy = YieldWait\<rparr>"
  have new: "NewRingBuffer 2 YieldWait = Inr rb"
    by (simp add: NewRingBuffer_def rb_def numeral_2_eq_2)
  have run: "queue_run ring_enq ring_deq rb [None, Some 5, Some 6, Some 7, None, Some 8] =
      ([WasEmpty, Accepted, Accepted, WasFull, Delivered 5, Accepted], rb')"
    by (simp add: rb_def rb'_def ring_enq_eval ring_deq_def slot_def waitFor_ready_def Get_def Consume_def Let_def)
  show ?thesis
    using new run ring_queue_run [OF new run] by (intro exI [of _ rb] exI [of _ rb']) simp
qed

end
