(* ===== verification/EventLoop.thy ===== *)
theory EventLoop
  imports RingBuffer
begin

text \<open>
  One event loop of \<^verbatim>\<open>pkg/core/eventloop\<close>: its configuration (\<^verbatim>\<open>config.go\<close>), its producers
  (\<^verbatim>\<open>EventLoop.Dispatch\<close>), its consumer goroutine (\<^verbatim>\<open>EventLoop.run\<close>) and \<^verbatim>\<open>EventLoop.Close\<close>
  (\<^verbatim>\<open>loop.go\<close>). Any number of goroutines may be inside \<^verbatim>\<open>Dispatch\<close> and \<^verbatim>\<open>Close\<close> at once: each has a
  program counter, and one step of the system is one atomic action of one goroutine. Go's
  \<^verbatim>\<open>sync/atomic\<close> operations are sequentially consistent, so the interleavings of atomic actions are
  the executions of the program. Events are not \<^verbatim>\<open>nil\<close>: the dispatcher refuses a \<^verbatim>\<open>nil\<close> event, and a direct \<^verbatim>\<open>EventLoop.Dispatch\<close> of
  one, which would be stored and skipped by the consumer, is not modelled.

  The main results: the loop handles exactly the events that were claimed, each once and in claim
  order (no event is lost, duplicated or read before it is written); the buffer never holds more
  events than it has slots; an accepted event of a dropping loop is in the buffer; every published
  event is eventually handled; and one interleaving in which a blocking \<^verbatim>\<open>Dispatch\<close> reports success
  for an event it never stored.
\<close>

subsection \<open>Configuration\<close>

datatype BackpressurePolicy = BackpressureBlock | BackpressureDrop | BackpressureDropByTopic

record EventLoopConfig =
  NumLoops :: int
  QueueSize :: int
  CPUAffinity :: bool
  Backpressure :: BackpressurePolicy
  MetricsOn :: bool

definition DefaultEventLoopConfig :: EventLoopConfig where
  "DefaultEventLoopConfig =
     \<lparr>NumLoops = 0, QueueSize = 4096, CPUAffinity = False, Backpressure = BackpressureBlock, MetricsOn = True\<rparr>"

datatype loop_error = EventLoopError string string | CtxError ctx_err

fun loop_error_Error :: "loop_error \<Rightarrow> string" where
  "loop_error_Error (EventLoopError code message) = code @ '': '' @ message"
| "loop_error_Error (CtxError Canceled) = ''context canceled''"
| "loop_error_Error (CtxError DeadlineExceeded) = ''context deadline exceeded''"

definition Validate :: "EventLoopConfig \<Rightarrow> loop_error option" where
  "Validate c =
     (if NumLoops c < 0 then Some (EventLoopError ''INVALID_CONFIG'' ''NumLoops cannot be negative'')
      else if QueueSize c < 1 then Some (EventLoopError ''INVALID_CONFIG'' ''QueueSize must be at least 1'')
      else None)"

record LoopMetrics =
  LoopID :: int
  QueueLength :: int
  DroppedMessages :: int
  ProcessedMessages :: int
  AvgLatency :: int
  P50Latency :: int
  P95Latency :: int
  P99Latency :: int
  Throughput :: rat

definition zero_metrics :: "int \<Rightarrow> LoopMetrics" where
  "zero_metrics i = \<lparr>LoopID = i, QueueLength = 0, DroppedMessages = 0, ProcessedMessages = 0,
     AvgLatency = 0, P50Latency = 0, P95Latency = 0, P99Latency = 0, Throughput = 0\<rparr>"

subsection \<open>Events and the shared state of a loop\<close>

text \<open>
  Bodies and handlers are opaque: a handler is user code, represented by a name (type \<open>'h\<close>), and what
  the loop does with it is recorded in the log of handler invocations. \<open>None\<close> is the \<^verbatim>\<open>nil\<close> handler.
\<close>

record ('b, 'h) Event =
  ev_Key :: string
  ev_Address :: string
  ev_Body :: 'b
  ev_Headers :: "(string \<rightharpoonup> string) option"
  ev_Handler :: "'h option"

record ('b, 'h) EventLoop =
  el_id :: int
  ringBuffer :: "('b, 'h) Event RingBuffer"
  ctxErr :: "ctx_err option"
  el_config :: EventLoopConfig
  el_metrics :: LoopMetrics
  el_closed :: bool

text \<open>\<^verbatim>\<open>ctxErr\<close> is what \<^verbatim>\<open>l.ctx.Err()\<close> returns; the parent context may already be cancelled.\<close>

definition NewEventLoop ::
  "int \<Rightarrow> ctx_err option \<Rightarrow> EventLoopConfig \<Rightarrow> string + ('b, 'h) EventLoop" where
  "NewEventLoop i parentErr config =
     (let size' = sint (nextPow2 (word_of_int (QueueSize config))) in
      case NewRingBuffer size' YieldWait of
        Inl p \<Rightarrow> Inl p
      | Inr rb \<Rightarrow> Inr \<lparr>el_id = i, ringBuffer = rb, ctxErr = parentErr, el_config = config,
                       el_metrics = zero_metrics i, el_closed = False\<rparr>)"

subsection \<open>Producers: the atomic actions of Dispatch\<close>

text \<open>
  The program counter of a goroutine inside \<^verbatim>\<open>Dispatch\<close>, with its local variables. \<open>DRet e r g\<close> is the
  return of \<open>r\<close> for event \<open>e\<close>; \<open>g\<close> is a ghost: the sequence at which the event was published, if any.
\<close>

datatype 'e Dispatch_pc =
    DIdle
  | DStart 'e            \<comment> \<open>load \<^verbatim>\<open>closed\<close>\<close>
  | DLoop 'e             \<comment> \<open>blocking branch, loop head: load \<^verbatim>\<open>closed\<close>\<close>
  | DLoopCtx 'e          \<comment> \<open>blocking branch: \<^verbatim>\<open>l.ctx.Err() != nil\<close>\<close>
  | DCtx 'e              \<comment> \<open>\<^verbatim>\<open>return l.ctx.Err()\<close>\<close>
  | DNext 'e             \<comment> \<open>\<^verbatim>\<open>Next\<close>: load the cursor\<close>
  | DGate 'e int         \<comment> \<open>\<^verbatim>\<open>Next\<close>: compare with the gating sequence\<close>
  | DCas 'e int          \<comment> \<open>\<^verbatim>\<open>Next\<close>: compare-and-swap the cursor\<close>
  | DFull 'e             \<comment> \<open>\<^verbatim>\<open>Next\<close> returned a negative sequence\<close>
  | DStore 'e int        \<comment> \<open>\<^verbatim>\<open>Publish\<close>: store the pointer\<close>
  | DMark 'e int         \<comment> \<open>\<^verbatim>\<open>Publish\<close>: mark the slot\<close>
  | DRet 'e "loop_error option" "int option"

definition count_dropped :: "('b, 'h) EventLoop \<Rightarrow> ('b, 'h) EventLoop" where
  "count_dropped l =
     (if MetricsOn (el_config l)
      then l\<lparr>el_metrics := (el_metrics l)\<lparr>DroppedMessages := DroppedMessages (el_metrics l) + 1\<rparr>\<rparr>
      else l)"

fun Dispatch_step ::
  "('b, 'h) EventLoop \<Rightarrow> ('b, 'h) Event Dispatch_pc \<Rightarrow> ('b, 'h) EventLoop \<times> ('b, 'h) Event Dispatch_pc" where
  "Dispatch_step l DIdle = (l, DIdle)"
| "Dispatch_step l (DStart e) =
     (if el_closed l then (l, DRet e (Some (EventLoopError ''CLOSED'' ''event loop is closed'')) None)
      else case Backpressure (el_config l) of
             BackpressureDrop \<Rightarrow> (l, DNext e)
           | _ \<Rightarrow> (l, DLoop e))"
| "Dispatch_step l (DLoop e) = (if el_closed l then (l, DCtx e) else (l, DLoopCtx e))"
| "Dispatch_step l (DLoopCtx e) = (if ctxErr l \<noteq> None then (l, DCtx e) else (l, DNext e))"
| "Dispatch_step l (DCtx e) = (l, DRet e (map_option CtxError (ctxErr l)) None)"
| "Dispatch_step l (DNext e) = (l, DGate e (Next_load (ringBuffer l)))"
| "Dispatch_step l (DGate e current) =
     (if Next_full (ringBuffer l) current then (l, DFull e) else (l, DCas e current))"
| "Dispatch_step l (DCas e current) =
     (case Next_cas (ringBuffer l) current of
        None \<Rightarrow> (l, DNext e)
      | Some rb \<Rightarrow> (l\<lparr>ringBuffer := rb\<rparr>, if current + 1 < 0 then DFull e else DStore e (current + 1)))"
| "Dispatch_step l (DFull e) =
     (case Backpressure (el_config l) of
        BackpressureDrop \<Rightarrow>
          (count_dropped l, DRet e (Some (EventLoopError ''QUEUE_FULL'' ''queue is full, message dropped'')) None)
      | _ \<Rightarrow> (l, DLoop e))"
| "Dispatch_step l (DStore e s) = (l\<lparr>ringBuffer := Publish_store (ringBuffer l) s (Some e)\<rparr>, DMark e s)"
| "Dispatch_step l (DMark e s) = (l\<lparr>ringBuffer := Publish_mark (ringBuffer l) s\<rparr>, DRet e None (Some s))"
| "Dispatch_step l (DRet e r g) = (l, DRet e r g)"

subsection \<open>The consumer: the atomic actions of run\<close>

datatype 'e run_pc =
    RCtx int                   \<comment> \<open>\<^verbatim>\<open>WaitFor\<close>: \<^verbatim>\<open>ctx.Err() != nil\<close>\<close>
  | RAvail int                 \<comment> \<open>\<^verbatim>\<open>WaitFor\<close>: load the slot's mark\<close>
  | RGet int int               \<comment> \<open>\<^verbatim>\<open>Get\<close>, for \<^verbatim>\<open>seq\<close> and \<^verbatim>\<open>avail\<close>\<close>
  | RHandle int int "'e option"
  | RMetrics int int
  | RConsume int int
  | RStopped

text \<open>The exponentially weighted average of the handler latency, with Go's truncating division.\<close>

definition ewma :: "int \<Rightarrow> int \<Rightarrow> int" where
  "ewma old latency = (if old = 0 then latency else go_div (old * 7 + latency) 8)"

definition count_processed :: "int \<Rightarrow> ('b, 'h) EventLoop \<Rightarrow> ('b, 'h) EventLoop" where
  "count_processed latency l =
     (if MetricsOn (el_config l)
      then l\<lparr>el_metrics := (el_metrics l)\<lparr>ProcessedMessages := ProcessedMessages (el_metrics l) + 1,
                AvgLatency := ewma (AvgLatency (el_metrics l)) latency\<rparr>\<rparr>
      else l)"

fun run_step ::
  "int \<Rightarrow> ('b, 'h) EventLoop \<Rightarrow> ('b, 'h) Event run_pc \<Rightarrow> ('b, 'h) EventLoop \<times> ('b, 'h) Event run_pc" where
  "run_step latency l (RCtx next) = (l, if ctxErr l \<noteq> None then RStopped else RAvail next)"
| "run_step latency l (RAvail next) =
     (l, if waitFor_ready (ringBuffer l) next then RGet next next else RCtx next)"
| "run_step latency l (RGet s avail) = (l, RHandle s avail (Get (ringBuffer l) s))"
| "run_step latency l (RHandle s avail ev) = (l, RMetrics s avail)"
| "run_step latency l (RMetrics s avail) = (count_processed latency l, RConsume s avail)"
| "run_step latency l (RConsume s avail) =
     (l\<lparr>ringBuffer := Consume (ringBuffer l) s\<rparr>,
      if s + 1 \<le> avail then RGet (s + 1) avail else RCtx (avail + 1))"
| "run_step latency l RStopped = (l, RStopped)"

subsection \<open>Close and Stats\<close>

datatype Close_pc = CIdle | CSwap | CCancel | CRet

fun Close_step :: "('b, 'h) EventLoop \<Rightarrow> Close_pc \<Rightarrow> ('b, 'h) EventLoop \<times> Close_pc" where
  "Close_step l CIdle = (l, CIdle)"
| "Close_step l CSwap = (if el_closed l then (l, CRet) else (l\<lparr>el_closed := True\<rparr>, CCancel))"
| "Close_step l CCancel =
     (l\<lparr>ctxErr := (case ctxErr l of None \<Rightarrow> Some Canceled | Some x \<Rightarrow> Some x)\<rparr>, CRet)"
| "Close_step l CRet = (l, CRet)"

text \<open>\<^verbatim>\<open>Stats\<close> is a sequence of separate loads while the loop goes on running: \<open>obs k\<close> is the loop at the \<open>k\<close>-th of them (\<^verbatim>\<open>cursor\<close>,
  \<^verbatim>\<open>gating\<close>, the three atomic counters, the other fields).\<close>

definition Stats :: "(nat \<Rightarrow> ('b, 'h) EventLoop) \<Rightarrow> LoopMetrics" where
  "Stats obs =
     (if \<not> MetricsOn (el_config (obs 0)) then zero_metrics (el_id (obs 0))
      else let queueLen = Size (ringBuffer (obs 0)) - AvailableCapacity (ringBuffer (obs 0)) (ringBuffer (obs 1)) in
        \<lparr>LoopID = el_id (obs 0), QueueLength = queueLen, DroppedMessages = DroppedMessages (el_metrics (obs 2)),
         ProcessedMessages = ProcessedMessages (el_metrics (obs 3)), AvgLatency = AvgLatency (el_metrics (obs 4)),
         P50Latency = P50Latency (el_metrics (obs 5)), P95Latency = P95Latency (el_metrics (obs 6)),
         P99Latency = P99Latency (el_metrics (obs 7)), Throughput = Throughput (el_metrics (obs 8))\<rparr>)"

subsection \<open>The system: one loop and the goroutines that use it\<close>

text \<open>
  \<open>claimed\<close>, \<open>fetched\<close> and \<open>returned\<close> are ghost histories: the events in the order in which \<^verbatim>\<open>Next\<close>
  assigned their sequences, the sequences and pointers the consumer handled, and the results that
  calls of \<^verbatim>\<open>Dispatch\<close> returned.
\<close>

record ('b, 'h) LoopSys =
  sys_loop :: "('b, 'h) EventLoop"
  producers :: "nat \<Rightarrow> ('b, 'h) Event Dispatch_pc"
  runner :: "('b, 'h) Event run_pc"
  closers :: "nat \<Rightarrow> Close_pc"
  claimed :: "('b, 'h) Event list"
  fetched :: "(int \<times> ('b, 'h) Event option) list"
  returned :: "(('b, 'h) Event \<times> loop_error option \<times> int option) list"

definition start_sys :: "('b, 'h) EventLoop \<Rightarrow> ('b, 'h) LoopSys" where
  "start_sys l = \<lparr>sys_loop = l, producers = (\<lambda>_. DIdle), runner = RCtx 0, closers = (\<lambda>_. CIdle),
     claimed = [], fetched = [], returned = []\<rparr>"

definition loop_init :: "EventLoopConfig \<Rightarrow> ('b, 'h) LoopSys \<Rightarrow> bool" where
  "loop_init config s \<longleftrightarrow>
     (\<exists>i parentErr l. NewEventLoop i parentErr config = Inr l \<and> s = start_sys l)"

text \<open>What a producer's action adds to the history of claims.\<close>

definition claim_of :: "('b, 'h) EventLoop \<Rightarrow> ('b, 'h) Event Dispatch_pc \<Rightarrow> ('b, 'h) Event list" where
  "claim_of l pc =
     (case pc of DCas e current \<Rightarrow> if Next_cas (ringBuffer l) current = None then [] else [e] | _ \<Rightarrow> [])"

definition fetch_of :: "('b, 'h) Event run_pc \<Rightarrow> (int \<times> ('b, 'h) Event option) list" where
  "fetch_of pc = (case pc of RHandle s avail ev \<Rightarrow> [(s, ev)] | _ \<Rightarrow> [])"

definition producer_sys :: "nat \<Rightarrow> ('b, 'h) LoopSys \<Rightarrow> ('b, 'h) LoopSys" where
  "producer_sys t s =
     (let (l, pc) = Dispatch_step (sys_loop s) (producers s t) in
      s\<lparr>sys_loop := l, producers := (producers s)(t := pc),
        claimed := claimed s @ claim_of (sys_loop s) (producers s t)\<rparr>)"

definition runner_sys :: "int \<Rightarrow> ('b, 'h) LoopSys \<Rightarrow> ('b, 'h) LoopSys" where
  "runner_sys latency s =
     (let (l, pc) = run_step latency (sys_loop s) (runner s) in
      s\<lparr>sys_loop := l, runner := pc, fetched := fetched s @ fetch_of (runner s)\<rparr>)"

definition closer_sys :: "nat \<Rightarrow> ('b, 'h) LoopSys \<Rightarrow> ('b, 'h) LoopSys" where
  "closer_sys t s =
     (let (l, pc) = Close_step (sys_loop s) (closers s t) in
      s\<lparr>sys_loop := l, closers := (closers s)(t := pc)\<rparr>)"

inductive loop_step :: "('b, 'h) LoopSys \<Rightarrow> ('b, 'h) LoopSys \<Rightarrow> bool" where
  call_dispatch: "producers s t = DIdle \<Longrightarrow>
     loop_step s (s\<lparr>producers := (producers s)(t := DStart e)\<rparr>)"
| dispatch: "loop_step s (producer_sys t s)"
| return_dispatch: "producers s t = DRet e r g \<Longrightarrow>
     loop_step s (s\<lparr>producers := (producers s)(t := DIdle), returned := returned s @ [(e, r, g)]\<rparr>)"
| run: "loop_step s (runner_sys latency s)"
| call_close: "closers s t = CIdle \<Longrightarrow> loop_step s (s\<lparr>closers := (closers s)(t := CSwap)\<rparr>)"
| close: "loop_step s (closer_sys t s)"
| return_close: "closers s t = CRet \<Longrightarrow> loop_step s (s\<lparr>closers := (closers s)(t := CIdle)\<rparr>)"
| parent_cancel: "ctxErr (sys_loop s) = None \<Longrightarrow>
     loop_step s (s\<lparr>sys_loop := (sys_loop s)\<lparr>ctxErr := Some err\<rparr>\<rparr>)"

text \<open>The handlers invoked: \<^verbatim>\<open>run\<close> calls the handler of a non-nil event with a non-nil handler.\<close>

fun invocations :: "(int \<times> ('b, 'h) Event option) list \<Rightarrow> ('b, 'h) Event list" where
  "invocations [] = []"
| "invocations ((s, ev) # fs) =
     (case ev of
        Some e \<Rightarrow> if ev_Handler e \<noteq> None then e # invocations fs else invocations fs
      | None \<Rightarrow> invocations fs)"

subsection \<open>The invariant\<close>

text \<open>The sequence a producer owns between its claim and the mark that publishes it.\<close>

fun holds :: "'e Dispatch_pc \<Rightarrow> int option" where
  "holds (DStore e s) = Some s"
| "holds (DMark e s) = Some s"
| "holds _ = None"

definition marked :: "'e RingBuffer \<Rightarrow> int \<Rightarrow> bool" where
  "marked rb s \<longleftrightarrow> available rb ! slot rb s = s"

definition owned_ok :: "'e RingBuffer \<Rightarrow> 'e list \<Rightarrow> 'e \<Rightarrow> int \<Rightarrow> bool" where
  "owned_ok rb cl e s \<longleftrightarrow> gating rb < s \<and> s \<le> cursor rb \<and> cl ! nat s = e \<and> \<not> marked rb s"

definition ret_ok :: "'e RingBuffer \<Rightarrow> 'e list \<Rightarrow> bool \<Rightarrow> 'e \<Rightarrow> loop_error option \<Rightarrow> int option \<Rightarrow> bool" where
  "ret_ok rb cl dropping e r g \<longleftrightarrow>
     (case g of Some s \<Rightarrow> 0 \<le> s \<and> s \<le> cursor rb \<and> cl ! nat s = e \<and> r = None | None \<Rightarrow> True) \<and>
     (dropping \<and> r = None \<longrightarrow> g \<noteq> None)"

fun pc_ok :: "'e RingBuffer \<Rightarrow> 'e list \<Rightarrow> bool \<Rightarrow> 'e Dispatch_pc \<Rightarrow> bool" where
  "pc_ok rb cl dropping (DLoop e) \<longleftrightarrow> \<not> dropping"
| "pc_ok rb cl dropping (DLoopCtx e) \<longleftrightarrow> \<not> dropping"
| "pc_ok rb cl dropping (DCtx e) \<longleftrightarrow> \<not> dropping"
| "pc_ok rb cl dropping (DGate e c) \<longleftrightarrow> -1 \<le> c"
| "pc_ok rb cl dropping (DCas e c) \<longleftrightarrow> -1 \<le> c \<and> c + 1 - bufferSize rb \<le> gating rb"
| "pc_ok rb cl dropping (DStore e s) \<longleftrightarrow> owned_ok rb cl e s"
| "pc_ok rb cl dropping (DMark e s) \<longleftrightarrow> owned_ok rb cl e s \<and> Get rb s = Some e"
| "pc_ok rb cl dropping (DRet e r g) \<longleftrightarrow> ret_ok rb cl dropping e r g"
| "pc_ok rb cl dropping _ \<longleftrightarrow> True"

fun run_ok :: "'e RingBuffer \<Rightarrow> 'e list \<Rightarrow> int \<Rightarrow> 'e run_pc \<Rightarrow> bool" where
  "run_ok rb cl n (RCtx next) \<longleftrightarrow> next = gating rb + 1 \<and> n = gating rb + 1"
| "run_ok rb cl n (RAvail next) \<longleftrightarrow> next = gating rb + 1 \<and> n = gating rb + 1"
| "run_ok rb cl n (RGet s a) \<longleftrightarrow> a = s \<and> s = gating rb + 1 \<and> n = s \<and> marked rb s"
| "run_ok rb cl n (RHandle s a ev) \<longleftrightarrow>
     a = s \<and> s = gating rb + 1 \<and> n = s \<and> marked rb s \<and> s \<le> cursor rb \<and> ev = Some (cl ! nat s)"
| "run_ok rb cl n (RMetrics s a) \<longleftrightarrow> a = s \<and> s = gating rb + 1 \<and> n = s + 1 \<and> marked rb s"
| "run_ok rb cl n (RConsume s a) \<longleftrightarrow> a = s \<and> s = gating rb + 1 \<and> n = s + 1 \<and> marked rb s"
| "run_ok rb cl n RStopped \<longleftrightarrow> n = gating rb + 1"

definition buf_inv :: "'e RingBuffer \<Rightarrow> 'e list \<Rightarrow> bool" where
  "buf_inv rb cl \<longleftrightarrow> wf_ring rb \<and> cursor rb = int (length cl) - 1 \<and>
     -1 \<le> gating rb \<and> gating rb \<le> cursor rb \<and> cursor rb - gating rb \<le> bufferSize rb \<and>
     (\<forall>s. gating rb < s \<and> marked rb s \<longrightarrow> s \<le> cursor rb \<and> Get rb s = Some (cl ! nat s))"

definition prod_inv :: "'e RingBuffer \<Rightarrow> 'e list \<Rightarrow> bool \<Rightarrow> (nat \<Rightarrow> 'e Dispatch_pc) \<Rightarrow> bool" where
  "prod_inv rb cl dropping ps \<longleftrightarrow> (\<forall>t. pc_ok rb cl dropping (ps t)) \<and>
     (\<forall>t u s. holds (ps t) = Some s \<and> holds (ps u) = Some s \<longrightarrow> t = u) \<and>
     (\<forall>s. gating rb < s \<and> s \<le> cursor rb \<longrightarrow> marked rb s \<or> (\<exists>t. holds (ps t) = Some s))"

definition fetch_inv :: "'e list \<Rightarrow> (int \<times> 'e option) list \<Rightarrow> bool" where
  "fetch_inv cl fs \<longleftrightarrow> length fs \<le> length cl \<and>
     fs = map (\<lambda>i. (int i, Some (cl ! i))) [0..<length fs]"

definition dropping :: "('b, 'h) LoopSys \<Rightarrow> bool" where
  "dropping s \<longleftrightarrow> Backpressure (el_config (sys_loop s)) = BackpressureDrop"

abbreviation sys_ring :: "('b, 'h) LoopSys \<Rightarrow> ('b, 'h) Event RingBuffer" where
  "sys_ring s \<equiv> ringBuffer (sys_loop s)"

definition loop_inv :: "('b, 'h) LoopSys \<Rightarrow> bool" where
  "loop_inv s \<longleftrightarrow> buf_inv (sys_ring s) (claimed s) \<and>
     prod_inv (sys_ring s) (claimed s) (dropping s) (producers s) \<and>
     fetch_inv (claimed s) (fetched s) \<and>
     run_ok (sys_ring s) (claimed s) (int (length (fetched s))) (runner s) \<and>
     (\<forall>(e, r, g) \<in> set (returned s). ret_ok (sys_ring s) (claimed s) (dropping s) e r g)"

subsection \<open>How the atomic actions act on marks and slots\<close>

lemma marked_upd [simp]:
  "marked (rb\<lparr>cursor := c\<rparr>) s = marked rb s" "marked (rb\<lparr>gating := c\<rparr>) s = marked rb s"
  "marked (rb\<lparr>buffer := b\<rparr>) s = marked rb s"
  by (simp_all add: marked_def slot_def)

lemma Get_upd [simp]:
  "Get (rb\<lparr>cursor := c\<rparr>) s = Get rb s" "Get (rb\<lparr>gating := c\<rparr>) s = Get rb s"
  "Get (rb\<lparr>available := a\<rparr>) s = Get rb s"
  by (simp_all add: Get_def slot_def)

lemma slot_upd [simp]:
  "slot (rb\<lparr>cursor := c\<rparr>) s = slot rb s" "slot (rb\<lparr>gating := c\<rparr>) s = slot rb s"
  "slot (rb\<lparr>available := a\<rparr>) s = slot rb s" "slot (rb\<lparr>buffer := b\<rparr>) s = slot rb s"
  by (simp_all add: slot_def)

lemma wf_ring_upd [simp]:
  "wf_ring (rb\<lparr>cursor := c\<rparr>) = wf_ring rb" "wf_ring (rb\<lparr>gating := c\<rparr>) = wf_ring rb"
  "wf_ring (Publish_store rb s ev) = wf_ring rb" "wf_ring (Publish_mark rb s) = wf_ring rb"
  by (simp_all add: wf_ring_def Publish_store_def Publish_mark_def)

lemma Publish_sels [simp]:
  "cursor (Publish_store rb s ev) = cursor rb" "gating (Publish_store rb s ev) = gating rb"
  "bufferSize (Publish_store rb s ev) = bufferSize rb" "marked (Publish_store rb s ev) x = marked rb x"
  "cursor (Publish_mark rb s) = cursor rb" "gating (Publish_mark rb s) = gating rb"
  "bufferSize (Publish_mark rb s) = bufferSize rb" "Get (Publish_mark rb s) x = Get rb x"
  by (simp_all add: Publish_store_def Publish_mark_def)

lemma Get_Publish_store:
  "wf_ring rb \<Longrightarrow> Get (Publish_store rb s ev) x = (if slot rb x = slot rb s then ev else Get rb x)"
  using slot_less_lengths [of rb s] by (auto simp: Get_def Publish_store_def nth_list_update)

lemma marked_Publish_mark:
  "wf_ring rb \<Longrightarrow> marked (Publish_mark rb s) x = (if slot rb x = slot rb s then x = s else marked rb x)"
  using slot_less_lengths [of rb s] by (auto simp: marked_def Publish_mark_def nth_list_update)

lemma slot_window:
  "wf_ring rb \<Longrightarrow> cursor rb - gating rb \<le> bufferSize rb \<Longrightarrow> gating rb < s \<Longrightarrow> s \<le> cursor rb \<Longrightarrow>
   gating rb < x \<Longrightarrow> x \<le> cursor rb \<Longrightarrow> slot rb x = slot rb s \<longleftrightarrow> x = s"
  by (rule slot_eq_iff) auto

subsection \<open>Preservation by the producers\<close>

lemma prod_invI:
  assumes "\<And>u. pc_ok rb cl d (ps u)"
    and "\<And>u v x. holds (ps u) = Some x \<Longrightarrow> holds (ps v) = Some x \<Longrightarrow> u = v"
    and "\<And>x. gating rb < x \<Longrightarrow> x \<le> cursor rb \<Longrightarrow> \<not> marked rb x \<Longrightarrow> \<exists>u. holds (ps u) = Some x"
  shows "prod_inv rb cl d ps"
  using assms unfolding prod_inv_def by blast

lemma prod_invD:
  assumes "prod_inv rb cl d ps"
  shows "pc_ok rb cl d (ps u)"
    and "holds (ps u) = Some x \<Longrightarrow> holds (ps v) = Some x \<Longrightarrow> u = v"
    and "gating rb < x \<Longrightarrow> x \<le> cursor rb \<Longrightarrow> \<not> marked rb x \<Longrightarrow> \<exists>u. holds (ps u) = Some x"
  using assms unfolding prod_inv_def by blast+

lemma pc_ok_holds:
  "pc_ok rb cl d pc \<Longrightarrow> holds pc = Some x \<Longrightarrow> gating rb < x \<and> x \<le> cursor rb \<and> \<not> marked rb x"
  by (cases pc) (auto simp: owned_ok_def)

lemma prod_inv_quiet:
  assumes p: "prod_inv rb cl d ps" and ok: "pc_ok rb cl d pc" and h: "holds pc = None" "holds (ps t) = None"
  shows "prod_inv rb cl d (ps(t := pc))"
proof (rule prod_invI)
  fix u show "pc_ok rb cl d ((ps(t := pc)) u)"
    using prod_invD(1) [OF p] ok by simp
next
  fix u v x assume "holds ((ps(t := pc)) u) = Some x" "holds ((ps(t := pc)) v) = Some x"
  then show "u = v"
    using prod_invD(2) [OF p] h by (simp split: if_splits)
next
  fix x assume "gating rb < x" "x \<le> cursor rb" "\<not> marked rb x"
  then obtain u where u: "holds (ps u) = Some x"
    using prod_invD(3) [OF p] by blast
  then have "u \<noteq> t" using h by auto
  then have "holds ((ps(t := pc)) u) = Some x" using u by simp
  then show "\<exists>u. holds ((ps(t := pc)) u) = Some x" ..
qed

lemma claim_inv:
  assumes b: "buf_inv rb cl" and p: "prod_inv rb cl d ps" and pc: "ps t = DCas e (cursor rb)"
    and rb': "rb' = rb\<lparr>cursor := cursor rb + 1\<rparr>"
  shows "buf_inv rb' (cl @ [e])" "prod_inv rb' (cl @ [e]) d (ps(t := DStore e (cursor rb + 1)))"
proof -
  let ?s = "cursor rb + 1"
  have room: "?s - bufferSize rb \<le> gating rb"
    using prod_invD(1) [OF p, of t] pc by simp
  have unm: "\<not> marked rb ?s" using b by (auto simp: buf_inv_def)
  show "buf_inv rb' (cl @ [e])"
    using b room unm by (auto simp: buf_inv_def rb' nth_append)
  have old: "pc_ok rb' (cl @ [e]) d (ps u)" for u
    using prod_invD(1) [OF p, of u] b
    by (cases "ps u") (auto simp: rb' buf_inv_def owned_ok_def ret_ok_def nth_append split: option.splits)
  have hold: "holds (ps u) \<noteq> Some ?s" for u
    using pc_ok_holds [OF prod_invD(1) [OF p, of u]] by force
  show "prod_inv rb' (cl @ [e]) d (ps(t := DStore e ?s))"
  proof (rule prod_invI)
    fix u show "pc_ok rb' (cl @ [e]) d ((ps(t := DStore e ?s)) u)"
      using old b unm by (auto simp: owned_ok_def rb' buf_inv_def)
  next
    fix u v x
    assume "holds ((ps(t := DStore e ?s)) u) = Some x" "holds ((ps(t := DStore e ?s)) v) = Some x"
    then show "u = v"
      using prod_invD(2) [OF p] hold by (auto split: if_splits)
  next
    fix x assume x: "gating rb' < x" "x \<le> cursor rb'" "\<not> marked rb' x"
    show "\<exists>u. holds ((ps(t := DStore e ?s)) u) = Some x"
    proof (cases "x = ?s")
      case True
      then have "holds ((ps(t := DStore e ?s)) t) = Some x" by simp
      then show ?thesis ..
    next
      case False
      then have "\<exists>u. holds (ps u) = Some x"
        using x by (intro prod_invD(3) [OF p]) (auto simp: rb')
      then obtain u where u: "holds (ps u) = Some x" ..
      then have "u \<noteq> t" using pc by auto
      then have "holds ((ps(t := DStore e ?s)) u) = Some x" using u by simp
      then show ?thesis ..
    qed
  qed
qed

lemma store_inv:
  assumes b: "buf_inv rb cl" and p: "prod_inv rb cl d ps" and pc: "ps t = DStore e s"
    and rb': "rb' = Publish_store rb s (Some e)"
  shows "buf_inv rb' cl" "prod_inv rb' cl d (ps(t := DMark e s))"
proof -
  have own: "gating rb < s" "s \<le> cursor rb" "\<not> marked rb s" "cl ! nat s = e"
    using prod_invD(1) [OF p, of t] pc by (auto simp: owned_ok_def)
  have wf: "wf_ring rb" "cursor rb - gating rb \<le> bufferSize rb" using b by (auto simp: buf_inv_def)
  have same: "Get rb' x = Get rb x" if "gating rb < x" "x \<le> cursor rb" "x \<noteq> s" for x
    using slot_window [OF wf own(1,2) that(1,2)] that(3) by (simp add: rb' Get_Publish_store [OF wf(1)])
  show "buf_inv rb' cl"
    using b own(3) same unfolding buf_inv_def rb' by (auto, metis)
  have gs: "Get rb' s = Some e" by (simp add: rb' Get_Publish_store [OF wf(1)])
  have old: "pc_ok rb' cl d (ps u)" if "u \<noteq> t" for u
  proof -
    have "holds (ps u) \<noteq> Some s"
      using prod_invD(2) [OF p, of u s t] pc that by auto
    then show ?thesis
      using prod_invD(1) [OF p, of u] same
      by (cases "ps u") (auto simp: rb' owned_ok_def ret_ok_def split: option.splits)
  qed
  show "prod_inv rb' cl d (ps(t := DMark e s))"
  proof (rule prod_invI)
    fix u show "pc_ok rb' cl d ((ps(t := DMark e s)) u)"
      using old own gs by (auto simp: owned_ok_def rb')
  next
    fix u v x
    assume "holds ((ps(t := DMark e s)) u) = Some x" "holds ((ps(t := DMark e s)) v) = Some x"
    then show "u = v"
      using prod_invD(2) [OF p, of u x v] prod_invD(2) [OF p, of t x] pc by (auto split: if_splits)
  next
    fix x assume x: "gating rb' < x" "x \<le> cursor rb'" "\<not> marked rb' x"
    then obtain u where "holds (ps u) = Some x"
      using prod_invD(3) [OF p] by (auto simp: rb')
    then have "holds ((ps(t := DMark e s)) u) = Some x"
      using pc by auto
    then show "\<exists>u. holds ((ps(t := DMark e s)) u) = Some x" ..
  qed
qed

lemma mark_inv:
  assumes b: "buf_inv rb cl" and p: "prod_inv rb cl d ps" and pc: "ps t = DMark e s"
    and rb': "rb' = Publish_mark rb s"
  shows "buf_inv rb' cl" "prod_inv rb' cl d (ps(t := DRet e None (Some s)))"
    "gating rb < x \<Longrightarrow> x \<le> cursor rb \<Longrightarrow> marked rb x \<Longrightarrow> marked rb' x"
proof -
  have own: "gating rb < s" "s \<le> cursor rb" "\<not> marked rb s" "cl ! nat s = e" "Get rb s = Some e"
    using prod_invD(1) [OF p, of t] pc by (auto simp: owned_ok_def)
  have wf: "wf_ring rb" "cursor rb - gating rb \<le> bufferSize rb" using b by (auto simp: buf_inv_def)
  have mk: "marked rb' x \<longleftrightarrow> x = s \<or> marked rb x" if "gating rb < x" "x \<le> cursor rb" for x
    using slot_window [OF wf own(1,2) that] by (auto simp: rb' marked_Publish_mark [OF wf(1)])
  have mk': "marked rb' x \<Longrightarrow> x = s \<or> marked rb x" for x
    by (auto simp: rb' marked_Publish_mark [OF wf(1)] split: if_splits)
  show "gating rb < x \<Longrightarrow> x \<le> cursor rb \<Longrightarrow> marked rb x \<Longrightarrow> marked rb' x" using mk by simp
  have gp: "-1 \<le> gating rb" using b by (simp add: buf_inv_def)
  have "x \<le> cursor rb \<and> Get rb x = Some (cl ! nat x)" if "gating rb < x" "marked rb' x" for x
    using mk' [OF that(2)] that(1) own b by (auto simp: buf_inv_def)
  then show "buf_inv rb' cl"
    using b unfolding buf_inv_def by (auto simp: rb')
  have old: "pc_ok rb' cl d (ps u)" if "u \<noteq> t" for u
  proof -
    have "holds (ps u) \<noteq> Some s"
      using prod_invD(2) [OF p, of u s t] pc that by auto
    then show ?thesis
      using prod_invD(1) [OF p, of u] mk'
      by (cases "ps u") (auto simp: rb' owned_ok_def ret_ok_def split: option.splits)
  qed
  show "prod_inv rb' cl d (ps(t := DRet e None (Some s)))"
  proof (rule prod_invI)
    fix u show "pc_ok rb' cl d ((ps(t := DRet e None (Some s))) u)"
      using old own gp by (auto simp: ret_ok_def rb')
  next
    fix u v x
    assume "holds ((ps(t := DRet e None (Some s))) u) = Some x"
      "holds ((ps(t := DRet e None (Some s))) v) = Some x"
    then show "u = v"
      using prod_invD(2) [OF p, of u x v] by (auto split: if_splits)
  next
    fix x assume x: "gating rb' < x" "x \<le> cursor rb'" "\<not> marked rb' x"
    then have "\<not> marked rb x" "x \<noteq> s" using mk by (auto simp: rb')
    then obtain u where u: "holds (ps u) = Some x"
      using x prod_invD(3) [OF p] by (auto simp: rb')
    then have "u \<noteq> t" using pc \<open>x \<noteq> s\<close> by auto
    then have "holds ((ps(t := DRet e None (Some s))) u) = Some x" using u by simp
    then show "\<exists>u. holds ((ps(t := DRet e None (Some s))) u) = Some x" ..
  qed
qed

lemma consume_inv:
  assumes b: "buf_inv rb cl" and p: "prod_inv rb cl d ps" and m: "marked rb (gating rb + 1)"
    and rb': "rb' = Consume rb (gating rb + 1)"
  shows "buf_inv rb' cl" "prod_inv rb' cl d ps"
proof -
  have c: "gating rb + 1 \<le> cursor rb" using b m by (auto simp: buf_inv_def)
  show "buf_inv rb' cl" using b c by (auto simp: buf_inv_def rb' Consume_def)
  have nh: "holds (ps u) \<noteq> Some (gating rb + 1)" for u
    using pc_ok_holds [OF prod_invD(1) [OF p, of u]] m by blast
  show "prod_inv rb' cl d ps"
  proof (rule prod_invI)
    fix u show "pc_ok rb' cl d (ps u)"
      using prod_invD(1) [OF p, of u] nh [of u]
      by (cases "ps u") (auto simp: rb' Consume_def owned_ok_def ret_ok_def split: option.splits)
  qed (use prod_invD(2,3) [OF p] in \<open>auto simp: rb' Consume_def\<close>)
qed

subsection \<open>Every step of the system preserves the invariant\<close>

lemma Next_cas_cases:
  "Next_cas rb c = Some rb' \<longleftrightarrow> c = cursor rb \<and> rb' = rb\<lparr>cursor := cursor rb + 1\<rparr>"
  by (auto simp: Next_cas_def)

lemma ret_ok_claim:
  "cursor rb = int (length cl) - 1 \<Longrightarrow> ret_ok rb cl d e r g \<Longrightarrow>
   ret_ok (rb\<lparr>cursor := cursor rb + 1\<rparr>) (cl @ [x]) d e r g"
  by (auto simp: ret_ok_def nth_append split: option.splits)

lemma ret_ok_cong:
  "cursor rb' = cursor rb \<Longrightarrow> ret_ok rb' cl d e r g = ret_ok rb cl d e r g"
  by (auto simp: ret_ok_def split: option.splits)

lemma run_ok_claim:
  "cursor rb = int (length cl) - 1 \<Longrightarrow> -1 \<le> gating rb \<Longrightarrow> run_ok rb cl n pc \<Longrightarrow>
   run_ok (rb\<lparr>cursor := cursor rb + 1\<rparr>) (cl @ [x]) n pc"
  by (cases pc) (auto simp: nth_append)

lemma run_ok_cong:
  assumes "run_ok rb cl n pc" "gating rb' = gating rb" "cursor rb' = cursor rb"
    and "marked rb (gating rb + 1) \<Longrightarrow> marked rb' (gating rb + 1)"
  shows "run_ok rb' cl n pc"
  using assms by (cases pc) auto

lemma fetch_inv_claim: "fetch_inv cl fs \<Longrightarrow> fetch_inv (cl @ [x]) fs"
  unfolding fetch_inv_def
  by (elim conjE, rule conjI, simp, erule trans) (auto simp: nth_append)

lemma fetch_inv_snoc:
  assumes "fetch_inv cl fs" "s = int (length fs)" "s < int (length cl)"
  shows "fetch_inv cl (fs @ [(s, Some (cl ! nat s))])"
  using assms by (auto simp: fetch_inv_def)

lemmas loop_inv_parts = loop_inv_def dropping_def

lemma loop_inv_producer:
  assumes inv: "loop_inv s"
  shows "loop_inv (producer_sys t s)"
proof -
  let ?l = "sys_loop s" and ?rb = "sys_ring s" and ?cl = "claimed s" and ?d = "dropping s"
  have b: "buf_inv ?rb ?cl" and p: "prod_inv ?rb ?cl ?d (producers s)"
    using inv by (auto simp: loop_inv_def)
  have bc: "cursor ?rb = int (length ?cl) - 1" "-1 \<le> gating ?rb" "gating ?rb \<le> cursor ?rb"
    using b by (auto simp: buf_inv_def)
  have ok: "pc_ok ?rb ?cl ?d (producers s t)" by (rule prod_invD(1) [OF p])
  have quiet: "loop_inv (s\<lparr>sys_loop := l', producers := (producers s)(t := pc)\<rparr>)"
    if "ringBuffer l' = ?rb" "el_config l' = el_config ?l" "holds (producers s t) = None" "holds pc = None"
      "pc_ok ?rb ?cl ?d pc" for l' pc
    using inv that prod_inv_quiet [OF p that(5,4,3)] by (auto simp: loop_inv_parts)
  show ?thesis
  proof (cases "producers s t")
    case (DCas e c)
    show ?thesis
    proof (cases "Next_cas ?rb c")
      case None
      then show ?thesis
        using DCas quiet [of ?l "DNext e"] by (simp add: producer_sys_def claim_of_def)
    next
      case (Some rb')
      then have c: "c = cursor ?rb" "rb' = ?rb\<lparr>cursor := cursor ?rb + 1\<rparr>"
        by (auto simp: Next_cas_cases)
      note new = claim_inv [OF b p DCas [unfolded c] c(2)]
      have rest: "run_ok rb' (?cl @ [e]) (int (length (fetched s))) (runner s)"
        "fetch_inv (?cl @ [e]) (fetched s)"
        "\<forall>(x, r, g) \<in> set (returned s). ret_ok rb' (?cl @ [e]) ?d x r g"
        using inv ret_ok_claim [OF bc(1)] run_ok_claim [OF bc(1,2)] fetch_inv_claim
        unfolding loop_inv_def c(2) by fast+
      have "\<not> c + 1 < 0" using bc c by simp
      then show ?thesis
        using DCas Some new rest c(1) by (simp add: producer_sys_def claim_of_def loop_inv_parts)
    qed
  next
    case (DStore e x)
    note new = store_inv [OF b p DStore refl]
    show ?thesis
      using DStore new inv run_ok_cong [of ?rb ?cl _ "runner s" "Publish_store ?rb x (Some e)"]
      by (auto simp: producer_sys_def claim_of_def loop_inv_parts ret_ok_cong [of "Publish_store ?rb x (Some e)" ?rb])
  next
    case (DMark e x)
    note new = mark_inv [OF b p DMark refl]
    have "marked ?rb (gating ?rb + 1) \<Longrightarrow> marked (Publish_mark ?rb x) (gating ?rb + 1)"
      using new(3) [of "gating ?rb + 1"] b by (auto simp: buf_inv_def)
    then show ?thesis
      using DMark new inv run_ok_cong [of ?rb ?cl _ "runner s" "Publish_mark ?rb x"]
      by (auto simp: producer_sys_def claim_of_def loop_inv_parts ret_ok_cong [of "Publish_mark ?rb x" ?rb])
  next
    case (DGate e c)
    show ?thesis
      using DGate ok quiet [of ?l "DFull e"] quiet [of ?l "DCas e c"]
      by (auto simp: producer_sys_def claim_of_def Next_full_def)
  next
    case (DStart e)
    show ?thesis
      using DStart quiet [of ?l "DLoop e"] quiet [of ?l "DNext e"]
        quiet [of ?l "DRet e (Some (EventLoopError ''CLOSED'' ''event loop is closed'')) None"]
      by (auto simp: producer_sys_def claim_of_def dropping_def ret_ok_def split: BackpressurePolicy.splits)
  next
    case (DFull e)
    show ?thesis
      using DFull quiet [of ?l "DLoop e"]
        quiet [of "count_dropped ?l"
          "DRet e (Some (EventLoopError ''QUEUE_FULL'' ''queue is full, message dropped'')) None"]
      by (auto simp: producer_sys_def claim_of_def dropping_def ret_ok_def count_dropped_def
            split: BackpressurePolicy.splits)
  next
    case (DLoop e)
    then show ?thesis
      using ok quiet [of ?l "DCtx e"] quiet [of ?l "DLoopCtx e"]
      by (auto simp: producer_sys_def claim_of_def)
  next
    case (DLoopCtx e)
    then show ?thesis
      using ok quiet [of ?l "DCtx e"] quiet [of ?l "DNext e"]
      by (auto simp: producer_sys_def claim_of_def)
  next
    case (DCtx e)
    then show ?thesis
      using ok quiet [of ?l "DRet e (map_option CtxError (ctxErr ?l)) None"]
      by (auto simp: producer_sys_def claim_of_def ret_ok_def)
  next
    case (DNext e)
    then show ?thesis
      using ok bc quiet [of ?l "DGate e (Next_load ?rb)"]
      by (auto simp: producer_sys_def claim_of_def Next_load_def)
  next
    case DIdle
    then show ?thesis
      using ok quiet [of ?l DIdle]  by (auto simp: producer_sys_def claim_of_def)
  next
    case (DRet e r g)
    then show ?thesis
      using ok quiet [of ?l "DRet e r g"]  by (auto simp: producer_sys_def claim_of_def)
  qed
qed

lemma loop_inv_runner:
  assumes inv: "loop_inv s"
  shows "loop_inv (runner_sys latency s)"
proof -
  let ?rb = "sys_ring s" and ?cl = "claimed s"
  have b: "buf_inv ?rb ?cl" and p: "prod_inv ?rb ?cl (dropping s) (producers s)"
    and r: "run_ok ?rb ?cl (int (length (fetched s))) (runner s)" and f: "fetch_inv ?cl (fetched s)"
    using inv by (auto simp: loop_inv_def)
  have pub: "x \<le> cursor ?rb \<and> Get ?rb x = Some (?cl ! nat x)" if "gating ?rb < x" "marked ?rb x" for x
    using b that by (auto simp: buf_inv_def)
  show ?thesis
  proof (cases "runner s")
    case (RConsume x a)
    then have x: "a = x" "x = gating ?rb + 1" "marked ?rb (gating ?rb + 1)" using r by auto
    note new = consume_inv [OF b p x(3) refl]
    show ?thesis
      using RConsume new x r inv
      by (auto simp: runner_sys_def fetch_of_def loop_inv_parts Consume_def ret_ok_cong [of "?rb\<lparr>gating := _\<rparr>" ?rb])
  next
    case (RHandle x a ev)
    then have "fetch_inv ?cl (fetched s @ [(x, ev)])"
      using r b fetch_inv_snoc [OF f] by (auto simp: buf_inv_def)
    then show ?thesis
      using RHandle r inv by (auto simp: runner_sys_def fetch_of_def loop_inv_parts)
  next
    case (RGet x a)
    then show ?thesis
      using r inv pub [of x] by (auto simp: runner_sys_def fetch_of_def loop_inv_parts)
  qed (use r inv in \<open>auto simp: runner_sys_def fetch_of_def loop_inv_parts waitFor_ready_def marked_def
                       count_processed_def\<close>)
qed

lemma loop_inv_ctx:
  "ringBuffer l = sys_ring s \<Longrightarrow> el_config l = el_config (sys_loop s) \<Longrightarrow>
   loop_inv (s\<lparr>sys_loop := l\<rparr>) = loop_inv s"
  by (simp add: loop_inv_parts)

lemma loop_inv_closers [simp]: "loop_inv (s\<lparr>closers := c\<rparr>) = loop_inv s"
  by (simp add: loop_inv_parts)

lemma Close_step_keeps:
  "ringBuffer (fst (Close_step l pc)) = ringBuffer l \<and> el_config (fst (Close_step l pc)) = el_config l"
  by (cases pc) auto

lemma loop_inv_closer: "loop_inv s \<Longrightarrow> loop_inv (closer_sys t s)"
  using Close_step_keeps [of "sys_loop s" "closers s t"]
  by (auto simp: closer_sys_def loop_inv_ctx split: prod.splits)

lemma loop_inv_call:
  assumes "loop_inv s" "producers s t = DIdle"
  shows "loop_inv (s\<lparr>producers := (producers s)(t := DStart e)\<rparr>)"
  using assms prod_inv_quiet [of "sys_ring s" "claimed s" "dropping s" "producers s" "DStart e" t]
  by (auto simp: loop_inv_parts)

lemma loop_inv_return:
  assumes inv: "loop_inv s" and pc: "producers s t = DRet e r g"
  shows "loop_inv (s\<lparr>producers := (producers s)(t := DIdle), returned := returned s @ [(e, r, g)]\<rparr>)"
proof -
  have p: "prod_inv (sys_ring s) (claimed s) (dropping s) (producers s)"
    using inv by (simp add: loop_inv_def)
  have "ret_ok (sys_ring s) (claimed s) (dropping s) e r g"
    using prod_invD(1) [OF p, of t] pc by simp
  then show ?thesis
    using inv pc prod_inv_quiet [OF p, of DIdle t] by (auto simp: loop_inv_parts)
qed

lemma loop_inv_step: "loop_step s s' \<Longrightarrow> loop_inv s \<Longrightarrow> loop_inv s'"
  by (induction rule: loop_step.induct)
    (auto simp: loop_inv_ctx intro: loop_inv_producer loop_inv_runner loop_inv_closer loop_inv_call loop_inv_return)

lemma NewEventLoop_ring:
  fixes l :: "('b, 'h) EventLoop"
  shows "NewEventLoop i p config = Inr l \<Longrightarrow>
   NewRingBuffer (sint (nextPow2 (word_of_int (QueueSize config)))) YieldWait = Inr (ringBuffer l) \<and>
   el_config l = config \<and> ctxErr l = p \<and> \<not> el_closed l"
  by (cases "NewRingBuffer (sint (nextPow2 (word_of_int (QueueSize config)))) YieldWait :: string + ('b, 'h) Event RingBuffer")
    (auto simp: NewEventLoop_def Let_def)

lemma loop_inv_init:
  assumes "loop_init config s" shows "loop_inv s"
proof -
  obtain l rb n where l: "s = start_sys l" "ringBuffer l = rb" "NewRingBuffer n YieldWait = Inr rb"
    using assms NewEventLoop_ring unfolding loop_init_def by blast
  note wf = wf_NewRingBuffer [OF l(3)]
  have um: "\<not> marked rb x" if "-1 < x" for x
    using wf slot_less_lengths [of rb x] that unfolding marked_def
    by (metis nth_mem order_less_irrefl)
  have "0 < bufferSize rb" using wf wf_ring_pos by blast
  then show ?thesis
    using wf um l by (auto simp: loop_inv_def start_sys_def buf_inv_def prod_inv_def fetch_inv_def)
qed

interpretation loop: inductive_invariant "loop_init config" loop_step loop_inv for config
  by unfold_locales (auto intro: loop_inv_init loop_inv_step)

text \<open>The consumer only stops once the context of the loop is cancelled.\<close>

definition stop_inv :: "('b, 'h) LoopSys \<Rightarrow> bool" where
  "stop_inv s \<longleftrightarrow> runner s = RStopped \<longrightarrow> ctxErr (sys_loop s) \<noteq> None"

lemma Dispatch_step_ctx:
  "ctxErr (fst (Dispatch_step l pc)) = ctxErr l \<and> el_config (fst (Dispatch_step l pc)) = el_config l"
  by (cases pc) (auto simp: count_dropped_def split: BackpressurePolicy.splits option.splits)

lemma run_step_ctx:
  "ctxErr (fst (run_step n l pc)) = ctxErr l \<and> el_config (fst (run_step n l pc)) = el_config l"
  by (cases pc) (auto simp: count_processed_def)

lemma run_step_stops:
  "snd (run_step n l pc) = RStopped \<Longrightarrow> pc = RStopped \<or> ctxErr l \<noteq> None"
  by (cases pc) (auto split: if_splits)

lemma Close_step_ctx: "ctxErr l \<noteq> None \<Longrightarrow> ctxErr (fst (Close_step l pc)) \<noteq> None"
  by (cases pc) auto

lemma stop_inv_init: "loop_init config s \<Longrightarrow> stop_inv s"
  by (auto simp: stop_inv_def loop_init_def start_sys_def)

lemma stop_inv_step: "loop_step s s' \<Longrightarrow> stop_inv s \<Longrightarrow> stop_inv s'"
proof (induction rule: loop_step.induct)
  case (dispatch s t)
  then show ?case
    using Dispatch_step_ctx [of "sys_loop s" "producers s t"]
    by (auto simp: stop_inv_def producer_sys_def split: prod.splits)
next
  case (run s n)
  then show ?case
    using run_step_ctx [of n "sys_loop s" "runner s"] run_step_stops [of n "sys_loop s" "runner s"]
    by (auto simp: stop_inv_def runner_sys_def split: prod.splits)
next
  case (close s t)
  then show ?case
    using Close_step_ctx [of "sys_loop s" "closers s t"]
    by (auto simp: stop_inv_def closer_sys_def split: prod.splits)
qed (auto simp: stop_inv_def)

interpretation loop_stop: inductive_invariant "loop_init config" loop_step stop_inv for config
  by unfold_locales (auto intro: stop_inv_init stop_inv_step)

lemma cfg_init: "loop_init config s \<Longrightarrow> el_config (sys_loop s) = config"
  by (auto simp: loop_init_def start_sys_def dest: NewEventLoop_ring)

lemma cfg_step: "loop_step s s' \<Longrightarrow> el_config (sys_loop s') = el_config (sys_loop s)"
proof (induction rule: loop_step.induct)
  case (dispatch s t)
  then show ?case
    using Dispatch_step_ctx [of "sys_loop s" "producers s t"] by (auto simp: producer_sys_def split: prod.splits)
next
  case (run s n)
  then show ?case
    using run_step_ctx [of n "sys_loop s" "runner s"] by (auto simp: runner_sys_def split: prod.splits)
next
  case (close s t)
  then show ?case
    using Close_step_keeps [of "sys_loop s" "closers s t"] by (auto simp: closer_sys_def split: prod.splits)
qed auto

interpretation loop_cfg: inductive_invariant "loop_init config" loop_step
  "\<lambda>s. el_config (sys_loop s) = config" for config
  by unfold_locales (auto simp: cfg_step cfg_init)

subsection \<open>What later states keep\<close>

definition later :: "('b, 'h) LoopSys \<Rightarrow> ('b, 'h) LoopSys \<Rightarrow> bool" where
  "later s s' \<longleftrightarrow> bufferSize (sys_ring s') = bufferSize (sys_ring s) \<and> gating (sys_ring s) \<le> gating (sys_ring s') \<and>
     (\<exists>cl fs. claimed s' = claimed s @ cl \<and> fetched s' = fetched s @ fs)"

lemma Dispatch_step_ring:
  "bufferSize (ringBuffer (fst (Dispatch_step l pc))) = bufferSize (ringBuffer l) \<and>
   gating (ringBuffer (fst (Dispatch_step l pc))) = gating (ringBuffer l)"
  by (cases "(l, pc)" rule: Dispatch_step.cases)
    (auto simp: count_dropped_def Next_cas_def Publish_store_def Publish_mark_def split: option.splits BackpressurePolicy.splits)

lemma run_step_ring:
  "run_ok (ringBuffer l) cl n pc \<Longrightarrow> bufferSize (ringBuffer (fst (run_step latency l pc))) = bufferSize (ringBuffer l) \<and>
     gating (ringBuffer l) \<le> gating (ringBuffer (fst (run_step latency l pc)))"
  by (cases pc) (auto simp: count_processed_def Consume_def)

lemma later_step: "loop_step s s' \<Longrightarrow> loop_inv s \<Longrightarrow> later s s'"
proof (induction rule: loop_step.induct)
  case (dispatch s t)
  then show ?case
    using Dispatch_step_ring [of "sys_loop s" "producers s t"] by (auto simp: later_def producer_sys_def split: prod.splits)
next
  case (run s n)
  then show ?case
    using run_step_ring [of "sys_loop s" "claimed s" "int (length (fetched s))" "runner s" n]
    by (auto simp: later_def loop_inv_def runner_sys_def split: prod.splits)
next
  case (close s t)
  then show ?case
    using Close_step_keeps [of "sys_loop s" "closers s t"] by (auto simp: later_def closer_sys_def split: prod.splits)
qed (auto simp: later_def)

lemma later_refl: "later s s"
  by (simp add: later_def)

lemma later_trans: "later s t \<Longrightarrow> later t u \<Longrightarrow> later s u"
  by (auto simp: later_def)

lemma later_steps: "loop_step\<^sup>*\<^sup>* s s' \<Longrightarrow> loop_inv s \<Longrightarrow> loop_inv s' \<and> later s s'"
  by (induction rule: rtranclp_induct) (auto intro: later_refl later_trans later_step loop_inv_step)

subsection \<open>Progress of the consumer\<close>

text \<open>
  While no producer is between its claim and its mark, the consumer's own steps decrease a rank
  until every claimed event has been handled.
\<close>

definition live :: "('b, 'h) LoopSys \<Rightarrow> bool" where
  "live s \<longleftrightarrow> loop_inv s \<and> ctxErr (sys_loop s) = None \<and> runner s \<noteq> RStopped \<and>
     (\<forall>t. holds (producers s t) = None)"

fun pc_rank :: "'e run_pc \<Rightarrow> nat" where
  "pc_rank (RCtx _) = 7"
| "pc_rank (RAvail _) = 6"
| "pc_rank (RGet _ _) = 5"
| "pc_rank (RHandle _ _ _) = 4"
| "pc_rank (RMetrics _ _) = 3"
| "pc_rank (RConsume _ _) = 2"
| "pc_rank RStopped = 0"

definition loop_rank :: "('b, 'h) LoopSys \<Rightarrow> nat" where
  "loop_rank s = 7 * nat (cursor (sys_ring s) - gating (sys_ring s)) + pc_rank (runner s)"

lemma runner_sys_keeps [simp]:
  "producers (runner_sys n s) = producers s" "claimed (runner_sys n s) = claimed s"
  by (auto simp: runner_sys_def split: prod.splits)

lemma live_runner:
  assumes "live s" shows "live (runner_sys n s)"
  using assms loop_inv_runner [of s n] run_step_ctx [of n "sys_loop s" "runner s"]
    run_step_stops [of n "sys_loop s" "runner s"]
  by (auto simp: live_def runner_sys_def split: prod.splits)

lemma live_rank:
  assumes live: "live s" and todo: "length (fetched s) \<noteq> length (claimed s)"
  shows "loop_rank (runner_sys n s) < loop_rank s"
proof -
  let ?rb = "sys_ring s"
  have b: "buf_inv ?rb (claimed s)" and p: "prod_inv ?rb (claimed s) (dropping s) (producers s)"
    and r: "run_ok ?rb (claimed s) (int (length (fetched s))) (runner s)"
    using live by (auto simp: live_def loop_inv_def)
  have c: "cursor ?rb = int (length (claimed s)) - 1" "gating ?rb \<le> cursor ?rb" using b by (auto simp: buf_inv_def)
  have m: "marked ?rb (gating ?rb + 1)" if "gating ?rb < cursor ?rb"
    using prod_invD(3) [OF p, of "gating ?rb + 1"] that live by (auto simp: live_def)
  have m': "gating ?rb + 1 \<le> cursor ?rb" if "marked ?rb (gating ?rb + 1)"
    using b that by (auto simp: buf_inv_def)
  show ?thesis
  proof (cases "runner s")
    case (RAvail x)
    then have "marked ?rb x" using m r todo c by auto
    then show ?thesis
      using RAvail by (simp add: loop_rank_def runner_sys_def waitFor_ready_def marked_def)
  next
    case (RConsume x a)
    then show ?thesis
      using r m' by (auto simp: loop_rank_def runner_sys_def Consume_def)
  qed (use live in \<open>auto simp: loop_rank_def runner_sys_def live_def count_processed_def\<close>)
qed

lemma live_drains:
  "live s \<Longrightarrow> \<exists>k. length (fetched ((runner_sys n ^^ k) s)) = length (claimed s)"
proof (induction "loop_rank s" arbitrary: s rule: less_induct)
  case less
  show ?case
  proof (cases "length (fetched s) = length (claimed s)")
    case True
    then have "length (fetched ((runner_sys n ^^ 0) s)) = length (claimed s)" by simp
    then show ?thesis ..
  next
    case False
    from less(1) [OF live_rank [OF less(2) False, of n] live_runner [OF less(2)]]
    obtain k where "length (fetched ((runner_sys n ^^ k) (runner_sys n s))) = length (claimed s)" by auto
    then have "length (fetched ((runner_sys n ^^ Suc k) s)) = length (claimed s)"
      by (simp add: funpow_swap1)
    then show ?thesis ..
  qed
qed

lemma live_funpow: "live s \<Longrightarrow> live ((runner_sys n ^^ k) s) \<and> claimed ((runner_sys n ^^ k) s) = claimed s"
  by (induction k) (auto intro: live_runner)

lemma invocations_map:
  "invocations (map (\<lambda>i. (int i, Some (xs ! i))) is) = filter (\<lambda>e. ev_Handler e \<noteq> None) (map ((!) xs) is)"
  by (induction "is") auto

lemma invocations_fetch_inv:
  "fetch_inv cl fs \<Longrightarrow> invocations fs = filter (\<lambda>e. ev_Handler e \<noteq> None) (take (length fs) cl)"
proof -
  assume f: "fetch_inv cl fs"
  then have "invocations fs = filter (\<lambda>e. ev_Handler e \<noteq> None) (map ((!) cl) [0..<length fs])"
    unfolding fetch_inv_def invocations_map [symmetric] by simp
  also have "map ((!) cl) [0..<length fs] = take (length fs) cl"
    using f by (intro nth_equalityI) (auto simp: fetch_inv_def)
  finally show ?thesis .
qed

subsection \<open>A concrete execution\<close>

text \<open>
  One producer publishes one event into a loop with two slots and returns; the consumer then handles
  it. The states of this execution instantiate the properties below.
\<close>

definition demo_config :: EventLoopConfig where
  "demo_config = \<lparr>NumLoops = 1, QueueSize = 2, CPUAffinity = False, Backpressure = BackpressureDrop,
     MetricsOn = True\<rparr>"

definition demo_event :: "(nat, nat) Event" where
  "demo_event = \<lparr>ev_Key = ''user-7'', ev_Address = ''orders'', ev_Body = 42, ev_Headers = None, ev_Handler = Some 1\<rparr>"

definition demo_loop :: "(nat, nat) EventLoop" where
  "demo_loop = \<lparr>el_id = 0,
     ringBuffer = \<lparr>buffer = [None, None], available = [-1, -1], bufferSize = 2, indexMask = 1, cursor = -1,
                   gating = -1, waitStrategy = YieldWait\<rparr>,
     ctxErr = None, el_config = demo_config, el_metrics = zero_metrics 0, el_closed = False\<rparr>"

definition demo_called :: "(nat, nat) LoopSys" where
  "demo_called = (start_sys demo_loop)\<lparr>producers := (\<lambda>_. DIdle)(0 := DStart demo_event)\<rparr>"

definition demo_stored :: "(nat, nat) LoopSys" where
  "demo_stored = (producer_sys 0 ^^ 6) demo_called"

definition demo_published :: "(nat, nat) LoopSys" where
  "demo_published = demo_stored\<lparr>producers := (producers demo_stored)(0 := DIdle),
     returned := returned demo_stored @ [(demo_event, None, Some 0)]\<rparr>"

definition demo_handled :: "(nat, nat) LoopSys" where
  "demo_handled = (runner_sys 5 ^^ 4) demo_published"

lemma NewEventLoop_demo: "NewEventLoop 0 None demo_config = Inr demo_loop"
  by (simp add: NewEventLoop_def demo_config_def demo_loop_def NewRingBuffer_def nextPow2_def
        numeral_2_eq_2 Let_def)

lemma reach_producers: "reach i loop_step s \<Longrightarrow> reach i loop_step ((producer_sys t ^^ n) s)"
  by (induction n) (auto intro: reach_step loop_step.dispatch)

lemma reach_runner: "reach i loop_step s \<Longrightarrow> reach i loop_step ((runner_sys latency ^^ n) s)"
  by (induction n) (auto intro: reach_step loop_step.run)

lemma demo_stored_eval:
  "demo_stored = (start_sys demo_loop)\<lparr>producers := (\<lambda>_. DIdle)(0 := DRet demo_event None (Some 0)),
     sys_loop := demo_loop\<lparr>ringBuffer := \<lparr>buffer = [Some demo_event, None], available = [0, -1], bufferSize = 2,
        indexMask = 1, cursor = 0, gating = -1, waitStrategy = YieldWait\<rparr>\<rparr>, claimed := [demo_event]\<rparr>"
  by (simp add: demo_stored_def demo_called_def numeral_eq_Suc producer_sys_def start_sys_def demo_loop_def
        demo_config_def Next_load_def Next_full_def Next_cas_def claim_of_def Publish_store_def Publish_mark_def
        slot_def)

lemma demo_published_reach: "reach (loop_init demo_config) loop_step demo_published"
proof -
  have "reach (loop_init demo_config) loop_step (start_sys demo_loop)"
    using NewEventLoop_demo by (intro reach_init) (auto simp: loop_init_def)
  moreover have "loop_step (start_sys demo_loop) demo_called"
    using loop_step.call_dispatch [of "start_sys demo_loop" 0 demo_event]
    by (simp add: demo_called_def start_sys_def)
  ultimately have "reach (loop_init demo_config) loop_step demo_called"
    by (rule reach_step)
  then have "reach (loop_init demo_config) loop_step demo_stored"
    unfolding demo_stored_def by (rule reach_producers)
  moreover have "loop_step demo_stored demo_published"
    unfolding demo_published_def by (rule loop_step.return_dispatch) (simp add: demo_stored_eval)
  ultimately show ?thesis
    by (rule reach_step)
qed

lemma demo_handled_reach: "reach (loop_init demo_config) loop_step demo_handled"
  unfolding demo_handled_def by (rule reach_runner [OF demo_published_reach])

lemma demo_published_eval:
  "claimed demo_published = [demo_event]" "producers demo_published = (\<lambda>_. DIdle)"
  "fetched demo_published = []" "returned demo_published = [(demo_event, None, Some 0)]"
  "ctxErr (sys_loop demo_published) = None"
  "sys_ring demo_published = \<lparr>buffer = [Some demo_event, None], available = [0, -1], bufferSize = 2,
        indexMask = 1, cursor = 0, gating = -1, waitStrategy = YieldWait\<rparr>"
  "runner demo_published = RCtx 0" "el_config (sys_loop demo_published) = demo_config"
  by (simp_all add: demo_published_def demo_stored_eval start_sys_def demo_loop_def fun_eq_iff)

lemma demo_handled_eval: "fetched demo_handled = [(0, Some demo_event)]" "claimed demo_handled = [demo_event]"
  using demo_published_eval
  by (simp_all add: demo_handled_def numeral_eq_Suc runner_sys_def waitFor_ready_def slot_def Get_def fetch_of_def)

subsection \<open>Properties of the loop\<close>

text \<open>
  C1. In every execution, with any number of goroutines inside \<^verbatim>\<open>Dispatch\<close> and \<^verbatim>\<open>Close\<close>, the consumer has
  handled exactly a prefix of the claimed events: the \<open>i\<close>-th handled pair is sequence \<open>i\<close> with the event
  that claimed it, so no event is lost, handled twice, reordered or read before it was stored, and the
  handlers invoked are those of that prefix, in order.
\<close>

theorem loop_exactly_once_in_order:
  assumes "reach (loop_init config) loop_step s"
  shows "length (fetched s) \<le> length (claimed s) \<and>
     fetched s = map (\<lambda>i. (int i, Some (claimed s ! i))) [0..<length (fetched s)] \<and>
     invocations (fetched s) = filter (\<lambda>e. ev_Handler e \<noteq> None) (take (length (fetched s)) (claimed s))"
proof -
  have "fetch_inv (claimed s) (fetched s)"
    using loop.reach_inv [OF assms] by (simp add: loop_inv_def)
  then show ?thesis
    using invocations_fetch_inv unfolding fetch_inv_def by blast
qed

theorem loop_exactly_once_in_order_witness:
  "reach (loop_init demo_config) loop_step demo_handled \<and> fetched demo_handled = [(0, Some demo_event)] \<and>
   invocations (fetched demo_handled) = [demo_event]"
  using loop_exactly_once_in_order [OF demo_handled_reach] demo_handled_reach
  by (simp add: demo_handled_eval) (simp add: demo_event_def)

text \<open>
  C7. The buffer never overflows: the number of sequences claimed and not yet released by the consumer is between 0 and the number of
  slots. A concurrent \<^verbatim>\<open>Stats\<close>, whose loads see the loop at a sequence \<open>obs\<close> of later and later moments, reports a queue length that
  is also between 0 and the number of slots, at most what was in the buffer at its first load, and at least the number of events claimed
  before its first load and not handled before its second.
\<close>

theorem loop_bounded_queue:
  assumes "reach (loop_init config) loop_step (obs 0)" "\<And>k. loop_step\<^sup>*\<^sup>* (obs k) (obs (Suc k))" "MetricsOn config"
  shows "0 \<le> cursor (sys_ring (obs 0)) - gating (sys_ring (obs 0)) \<and>
     cursor (sys_ring (obs 0)) - gating (sys_ring (obs 0)) \<le> bufferSize (sys_ring (obs 0)) \<and>
     0 \<le> QueueLength (Stats (\<lambda>k. sys_loop (obs k))) \<and>
     QueueLength (Stats (\<lambda>k. sys_loop (obs k))) \<le> cursor (sys_ring (obs 0)) - gating (sys_ring (obs 0)) \<and>
     int (length (claimed (obs 0))) - int (length (fetched (obs 1))) \<le> QueueLength (Stats (\<lambda>k. sys_loop (obs k)))"
proof -
  have inv: "loop_inv (obs 0)" and l: "el_config (sys_loop (obs 0)) = config"
    using loop.reach_inv [OF assms(1)] loop_cfg.reach_inv [OF assms(1)] by auto
  have inv1: "loop_inv (obs 1)" "later (obs 0) (obs 1)" using later_steps [OF assms(2) inv] by simp_all
  have b: "buf_inv (sys_ring (obs 0)) (claimed (obs 0))"
    and r: "run_ok (sys_ring (obs 1)) (claimed (obs 1)) (int (length (fetched (obs 1)))) (runner (obs 1))"
    using inv inv1 by (auto simp: loop_inv_def)
  have "gating (sys_ring (obs 1)) + 1 \<le> int (length (fetched (obs 1)))"
    using r by (cases "runner (obs 1)") auto
  then show ?thesis
    using b l assms(3) inv1(2) by (auto simp: Stats_def Let_def Size_def AvailableCapacity_def buf_inv_def later_def)
qed

text \<open>The consumer handles and releases the only event between the first and the second load.\<close>

theorem loop_bounded_queue_witness:
  "\<exists>obs. obs 0 = demo_published \<and> obs 1 = runner_sys 5 (runner_sys 5 demo_handled) \<and> claimed (obs 0) = [demo_event] \<and>
     fetched (obs 1) = [(0, Some demo_event)] \<and> QueueLength (Stats (\<lambda>k. sys_loop (obs k))) = 0 \<and>
     0 \<le> QueueLength (Stats (\<lambda>k. sys_loop (obs k)))"
proof -
  let ?released = "runner_sys 5 (runner_sys 5 demo_handled)"
  let ?obs = "\<lambda>k::nat. if k = 0 then demo_published else ?released"
  have "?released = (runner_sys 5 ^^ 6) demo_published" by (simp add: demo_handled_def eval_nat_numeral)
  moreover have "loop_step\<^sup>*\<^sup>* s ((runner_sys 5 ^^ n) s)" for n and s :: "(nat, nat) LoopSys"
    by (induction n) (auto intro: rtranclp.rtrancl_into_rtrancl loop_step.run)
  ultimately have steps: "loop_step\<^sup>*\<^sup>* (?obs k) (?obs (Suc k))" for k by simp
  have eval: "fetched ?released = [(0, Some demo_event)]" "gating (sys_ring ?released) = 0" "bufferSize (sys_ring ?released) = 2"
    using demo_published_eval
    by (simp_all add: demo_handled_def numeral_eq_Suc runner_sys_def waitFor_ready_def slot_def Get_def fetch_of_def
        count_processed_def Consume_def)
  have "0 \<le> QueueLength (Stats (\<lambda>k. sys_loop (?obs k)))"
    using loop_bounded_queue [of demo_config ?obs, OF _ steps] demo_published_reach by (simp add: demo_config_def)
  then show ?thesis
    using eval by (intro exI [of _ ?obs]) (simp add: demo_published_eval demo_config_def Stats_def Size_def AvailableCapacity_def)
qed

text \<open>
  C9. A loop with the dropping policy tells the truth: when \<^verbatim>\<open>Dispatch\<close> has returned \<^verbatim>\<open>nil\<close>, the event holds
  a sequence of the loop.
\<close>

theorem drop_dispatch_accepted:
  assumes "reach (loop_init config) loop_step s" "Backpressure config = BackpressureDrop"
    and "(e, None, g) \<in> set (returned s)"
  shows "\<exists>k. g = Some k \<and> 0 \<le> k \<and> nat k < length (claimed s) \<and> claimed s ! nat k = e"
proof -
  have inv: "loop_inv s" and l: "el_config (sys_loop s) = config"
    using loop.reach_inv [OF assms(1)] loop_cfg.reach_inv [OF assms(1)] by auto
  then have "ret_ok (sys_ring s) (claimed s) True e None g" "buf_inv (sys_ring s) (claimed s)"
    using assms by (auto simp: loop_inv_def dropping_def)
  then show ?thesis
    by (auto simp: ret_ok_def buf_inv_def)
qed

theorem drop_dispatch_accepted_witness:
  "reach (loop_init demo_config) loop_step demo_published \<and> Backpressure demo_config = BackpressureDrop \<and>
   (demo_event, None, Some 0) \<in> set (returned demo_published) \<and> claimed demo_published ! nat 0 = demo_event"
  using drop_dispatch_accepted [OF demo_published_reach, of demo_event "Some 0"] demo_published_reach
  by (simp add: demo_published_eval demo_config_def)

text \<open>
  C4. Every claimed event is handled: from any reachable state in which the context is not cancelled and
  no producer is between its claim and its publication, the consumer's own steps alone handle all the
  claimed events, and nothing else.
\<close>

theorem loop_drains:
  assumes r: "reach (loop_init config) loop_step s"
    and ctx: "ctxErr (sys_loop s) = None" and quiet: "\<forall>t. holds (producers s t) = None"
  shows "\<exists>k. fetched ((runner_sys latency ^^ k) s) =
     map (\<lambda>i. (int i, Some (claimed s ! i))) [0..<length (claimed s)]"
proof -
  have live: "live s"
    using loop.reach_inv [OF r] loop_stop.reach_inv [OF r] ctx quiet by (auto simp: live_def stop_inv_def)
  from live_drains [OF live] obtain k
    where k: "length (fetched ((runner_sys latency ^^ k) s)) = length (claimed s)" ..
  have "fetch_inv (claimed s) (fetched ((runner_sys latency ^^ k) s))"
    using live_funpow [OF live, of k latency] by (auto simp: live_def loop_inv_def)
  then show ?thesis
    using k unfolding fetch_inv_def by auto
qed

theorem loop_drains_witness:
  "reach (loop_init demo_config) loop_step demo_published \<and> ctxErr (sys_loop demo_published) = None \<and>
   (\<forall>t. holds (producers demo_published t) = None) \<and>
   (\<exists>k. fetched ((runner_sys 5 ^^ k) demo_published) = [(0, Some demo_event)])"
  using loop_drains [OF demo_published_reach, of 5] demo_published_reach
  by (simp add: demo_published_eval)

text \<open>
  A blocking \<^verbatim>\<open>Dispatch\<close> can report success for an event it never stored: when \<^verbatim>\<open>Close\<close> has set
  \<^verbatim>\<open>closed\<close> and not yet called \<^verbatim>\<open>cancel\<close>, the loop head leaves with \<^verbatim>\<open>return l.ctx.Err()\<close>, which is still
  \<^verbatim>\<open>nil\<close>. The execution below ends with the call returned, no error, and nothing claimed.
\<close>

lemma block_dispatch_silent_loss:
  "\<exists>s. reach (loop_init DefaultEventLoopConfig) loop_step s \<and>
       returned s = [(e :: ('b, 'h) Event, None, None)] \<and> claimed s = [] \<and> fetched s = []"
proof -
  obtain rb :: "('b, 'h) Event RingBuffer"
    where rb: "NewRingBuffer (sint (nextPow2 (word_of_int 4096))) YieldWait = Inr rb"
    by (simp add: NewRingBuffer_def nextPow2_def Let_def word_sless_alt)
  define l where "l = \<lparr>el_id = 0, ringBuffer = rb, ctxErr = None, el_config = DefaultEventLoopConfig,
                       el_metrics = zero_metrics 0, el_closed = False\<rparr>"
  let ?R = "reach (loop_init DefaultEventLoopConfig) loop_step"
  define st where "st pc c l' = (start_sys l)\<lparr>producers := (\<lambda>_. DIdle)(0 := pc), closers := (\<lambda>_. CIdle)(0 := c),
      sys_loop := l'\<rparr>" for pc c l'
  let ?l' = "l\<lparr>el_closed := True\<rparr>"
  have "?R (start_sys l)"
    using rb by (intro reach_init) (auto simp: loop_init_def NewEventLoop_def l_def DefaultEventLoopConfig_def)
  then have "?R (st (DStart e) CIdle l)"
    by (rule reach_step) (use loop_step.call_dispatch [of "start_sys l" 0 e] in
        \<open>simp add: st_def start_sys_def fun_upd_idem\<close>)
  then have "?R (st (DLoop e) CIdle l)"
    by (rule reach_step) (use loop_step.dispatch [of "st (DStart e) CIdle l" 0] in
        \<open>simp add: st_def start_sys_def producer_sys_def claim_of_def l_def DefaultEventLoopConfig_def\<close>)
  then have "?R (st (DLoop e) CSwap l)"
    by (rule reach_step) (use loop_step.call_close [of "st (DLoop e) CIdle l" 0] in
        \<open>simp add: st_def start_sys_def\<close>)
  then have "?R (st (DLoop e) CCancel ?l')"
    by (rule reach_step) (use loop_step.close [of "st (DLoop e) CSwap l" 0] in
        \<open>simp add: st_def start_sys_def closer_sys_def l_def\<close>)
  then have "?R (st (DCtx e) CCancel ?l')"
    by (rule reach_step) (use loop_step.dispatch [of "st (DLoop e) CCancel ?l'" 0] in
        \<open>simp add: st_def start_sys_def producer_sys_def claim_of_def\<close>)
  then have "?R (st (DRet e None None) CCancel ?l')"
    by (rule reach_step) (use loop_step.dispatch [of "st (DCtx e) CCancel ?l'" 0] in
        \<open>simp add: st_def start_sys_def producer_sys_def claim_of_def l_def\<close>)
  then have "?R ((st DIdle CCancel ?l')\<lparr>returned := [(e, None, None)]\<rparr>)"
    by (rule reach_step) (use loop_step.return_dispatch [of "st (DRet e None None) CCancel ?l'" 0 e None None] in
        \<open>simp add: st_def start_sys_def\<close>)
  then show ?thesis
    by (intro exI conjI) (auto simp: st_def start_sys_def)
qed

end
