(* ===== verification/Dispatcher.thy ===== *)
theory Dispatcher
  imports Routing
begin

text \<open>
  The dispatcher and the group of event loops (\<^verbatim>\<open>pkg/core/eventloop/dispatcher.go\<close>, \<^verbatim>\<open>group.go\<close>). A group is
  a list of the systems of theory EventLoop and the dispatcher's counter; one step of the group is a
  routing decision with the start of the chosen loop's \<^verbatim>\<open>Dispatch\<close>, an atomic action inside one loop, or
  an action of \<^verbatim>\<open>EventLoopGroup.Close\<close>. The dispatcher's critical sections read the immutable list of
  loops or advance the counter under the lock, so each is one step.

  The results: events with the same key reach the same loop; events without a key are spread round
  robin; an envelope is routed as the event it carries; and, because the group cancels the context
  before it closes its loops, a \<^verbatim>\<open>Dispatch\<close> that returns \<^verbatim>\<open>nil\<close> has stored its event whatever the policy.
\<close>

subsection \<open>The dispatcher\<close>

datatype route_result = RoutePanic string | Refused loop_error | Routed nat

record ('l, 'b) Dispatcher =
  loops :: "'l list"
  numLoops :: int
  extractor :: "'b KeyExtractor"
  roundRobinCounter :: "64 word"

definition NewDispatcher :: "'l list \<Rightarrow> 'b KeyExtractor option \<Rightarrow> ('l, 'b) Dispatcher" where
  "NewDispatcher ls ex =
     \<lparr>loops = ls, numLoops = int (length ls),
      extractor = (case ex of None \<Rightarrow> DefaultKeyExtractor | Some f \<Rightarrow> f), roundRobinCounter = 0\<rparr>"

text \<open>The key that \<^verbatim>\<open>Dispatch\<close> routes by: the event's own key, else the extracted one.\<close>

definition routing_key :: "('l, 'b) Dispatcher \<Rightarrow> ('b, 'h) Event \<Rightarrow> string" where
  "routing_key d e =
     (let key = (if ev_Key e \<noteq> '''' then ev_Key e else '''') in
      if key = '''' then extractor d (ev_Headers e) (ev_Address e) (ev_Body e) else key)"

definition no_loops :: loop_error where
  "no_loops = EventLoopError ''NO_LOOPS'' ''no event loops available''"

text \<open>The round-robin fallback, under the dispatcher's lock.\<close>

definition round_robin :: "('l, 'b) Dispatcher \<Rightarrow> ('l, 'b) Dispatcher \<times> route_result" where
  "round_robin d =
     (if numLoops d \<le> 0 then (d, Refused no_loops)
      else let modResult = uint (roundRobinCounter d mod word_of_int (numLoops d));
               idx = (if modResult > maxInt32 then maxInt32 mod numLoops d else modResult);
               d' = d\<lparr>roundRobinCounter := roundRobinCounter d + 1\<rparr>
           in if idx < int (length (loops d)) then (d', Routed (nat idx)) else (d', Refused no_loops))"

text \<open>\<^verbatim>\<open>Dispatcher.Dispatch\<close> up to its last line, \<^verbatim>\<open>return loop.Dispatch(event)\<close>.\<close>

definition Dispatcher_Dispatch ::
  "('l, 'b) Dispatcher \<Rightarrow> ('b, 'h) Event option \<Rightarrow> ('l, 'b) Dispatcher \<times> route_result" where
  "Dispatcher_Dispatch d event =
     (case event of
        None \<Rightarrow> (d, Refused (EventLoopError ''INVALID_EVENT'' ''event cannot be nil''))
      | Some e \<Rightarrow>
          let key = routing_key d e in
          if key = '''' then round_robin d
          else (case RouteKey key (numLoops d) of
                  Inl p \<Rightarrow> (d, RoutePanic p)
                | Inr idx \<Rightarrow> if idx < int (length (loops d)) then (d, Routed (nat idx)) else round_robin d))"

text \<open>The decimal digits of \<^verbatim>\<open>fmt.Sprintf("%d")\<close> are an argument: only the text of the error uses them.\<close>

definition DispatchByKey ::
  "(int \<Rightarrow> string) \<Rightarrow> ('l, 'b) Dispatcher \<Rightarrow> string \<Rightarrow> ('b, 'h) Event option \<Rightarrow> route_result" where
  "DispatchByKey itoa d key event =
     (case event of
        None \<Rightarrow> Refused (EventLoopError ''INVALID_EVENT'' ''event cannot be nil'')
      | Some e \<Rightarrow>
          (case RouteKey key (numLoops d) of
             Inl p \<Rightarrow> RoutePanic p
           | Inr idx \<Rightarrow>
               if idx \<ge> int (length (loops d))
               then Refused (EventLoopError ''INVALID_INDEX'' (''loop index '' @ itoa idx @ '' out of range''))
               else Routed (nat idx)))"

definition envelope_event :: "'b EnvelopeData \<Rightarrow> ('b, 'h) Event" where
  "envelope_event env = \<lparr>ev_Key = GetRoutingKey env, ev_Address = env_Topic env, ev_Body = env_Data env,
     ev_Headers = env_Meta env, ev_Handler = None\<rparr>"

definition DispatchEnvelope ::
  "('l, 'b) Dispatcher \<Rightarrow> 'b EnvelopeData option \<Rightarrow> ('l, 'b) Dispatcher \<times> route_result" where
  "DispatchEnvelope d env =
     (case env of
        None \<Rightarrow> (d, Refused (EventLoopError ''INVALID_ENVELOPE'' ''envelope cannot be nil''))
      | Some x \<Rightarrow> Dispatcher_Dispatch d (Some (envelope_event x :: ('b, unit) Event)))"

text \<open>\<open>obs i\<close> is what the \<open>i\<close>-th loop looks like at the successive loads of its \<^verbatim>\<open>Stats\<close>.\<close>

definition Dispatcher_Stats :: "(nat \<Rightarrow> nat \<Rightarrow> ('b, 'h) EventLoop) \<Rightarrow> ('l, 'b) Dispatcher \<Rightarrow> LoopMetrics list" where
  "Dispatcher_Stats obs d = map (\<lambda>i. Stats (obs i)) [0..<length (loops d)]"

subsection \<open>Construction of a group\<close>

fun new_loops :: "nat \<Rightarrow> nat \<Rightarrow> ctx_err option \<Rightarrow> EventLoopConfig \<Rightarrow> string + ('b, 'h) EventLoop list" where
  "new_loops 0 i err config = Inr []"
| "new_loops (Suc n) i err config =
     (case NewEventLoop (int i) err config of
        Inl p \<Rightarrow> Inl p
      | Inr l \<Rightarrow> (case new_loops n (Suc i) err config of Inl p \<Rightarrow> Inl p | Inr ls \<Rightarrow> Inr (l # ls)))"

text \<open>
  The program counter of a goroutine inside \<^verbatim>\<open>EventLoopGroup.Close\<close>: \<^verbatim>\<open>g.cancel()\<close> cancels the contexts of the
  loops one after the other, then \<^verbatim>\<open>Dispatcher.Close\<close> closes the loops one after the other.
\<close>

datatype GroupClose_pc = GIdle | GCancel nat | GClose nat | GClosing nat

record ('b, 'h) Group =
  dispatcher :: "(('b, 'h) LoopSys, 'b) Dispatcher"
  gclosers :: "nat \<Rightarrow> GroupClose_pc"
  routed :: "(('b, 'h) Event \<times> string \<times> nat) list"
  refused :: "route_result list"

text \<open>
  \<^verbatim>\<open>NewEventLoopGroup\<close>: the outer sum is a panic of the ring buffer's constructor, the inner one the error
  of \<^verbatim>\<open>Validate\<close>. \<^verbatim>\<open>runtime.GOMAXPROCS(0)\<close> is the argument \<open>procs\<close>.
\<close>

definition NewEventLoopGroup ::
  "nat \<Rightarrow> ctx_err option \<Rightarrow> EventLoopConfig \<Rightarrow> string + (loop_error + ('b, 'h) Group)" where
  "NewEventLoopGroup procs parentErr config =
     (case Validate config of
        Some err \<Rightarrow> Inr (Inl err)
      | None \<Rightarrow>
          let n = (if NumLoops config = 0 then procs else nat (NumLoops config)) in
          case new_loops n 0 parentErr config of
            Inl p \<Rightarrow> Inl p
          | Inr ls \<Rightarrow> Inr (Inr \<lparr>dispatcher = NewDispatcher (map start_sys ls) (Some DefaultKeyExtractor),
                                gclosers = (\<lambda>_. GIdle), routed = [], refused = []\<rparr>))"

subsection \<open>Steps of a group\<close>

abbreviation gloops :: "('b, 'h) Group \<Rightarrow> ('b, 'h) LoopSys list" where
  "gloops g \<equiv> loops (dispatcher g)"

definition set_loop :: "nat \<Rightarrow> ('b, 'h) LoopSys \<Rightarrow> ('b, 'h) Group \<Rightarrow> ('b, 'h) Group" where
  "set_loop i l g = g\<lparr>dispatcher := (dispatcher g)\<lparr>loops := (gloops g)[i := l]\<rparr>\<rparr>"

definition start_dispatch :: "nat \<Rightarrow> ('b, 'h) Event \<Rightarrow> ('b, 'h) LoopSys \<Rightarrow> ('b, 'h) LoopSys" where
  "start_dispatch t e s = s\<lparr>producers := (producers s)(t := DStart e)\<rparr>"

definition cancel_loop :: "ctx_err \<Rightarrow> ('b, 'h) LoopSys \<Rightarrow> ('b, 'h) LoopSys" where
  "cancel_loop err s =
     (case ctxErr (sys_loop s) of
        None \<Rightarrow> s\<lparr>sys_loop := (sys_loop s)\<lparr>ctxErr := Some err\<rparr>\<rparr> | Some _ \<Rightarrow> s)"

inductive group_step :: "('b, 'h) Group \<Rightarrow> ('b, 'h) Group \<Rightarrow> bool" where
  g_dispatch: "Dispatcher_Dispatch (dispatcher g) (Some e) = (d', Routed i) \<Longrightarrow> i < length (gloops g) \<Longrightarrow>
     producers (gloops g ! i) t = DIdle \<Longrightarrow>
     group_step g (set_loop i (start_dispatch t e (gloops g ! i))
       (g\<lparr>dispatcher := d', routed := routed g @ [(e, routing_key (dispatcher g) e, i)]\<rparr>))"
| g_dispatch_fails: "Dispatcher_Dispatch (dispatcher g) (ev :: ('b, 'h) Event option) = (d', r) \<Longrightarrow>
     (\<forall>i. r \<noteq> Routed i) \<Longrightarrow>
     group_step g (g\<lparr>dispatcher := d', refused := refused g @ [r]\<rparr>)"
| g_by_key: "DispatchByKey itoa (dispatcher g) key (Some e) = Routed i \<Longrightarrow> i < length (gloops g) \<Longrightarrow>
     producers (gloops g ! i) t = DIdle \<Longrightarrow>
     group_step g (set_loop i (start_dispatch t e (gloops g ! i)) (g\<lparr>routed := routed g @ [(e, key, i)]\<rparr>))"
| g_by_key_fails: "DispatchByKey itoa (dispatcher g) key (ev :: ('b, 'h) Event option) = r \<Longrightarrow> (\<forall>i. r \<noteq> Routed i) \<Longrightarrow>
     group_step g (g\<lparr>refused := refused g @ [r]\<rparr>)"
| g_producer: "i < length (gloops g) \<Longrightarrow> group_step g (set_loop i (producer_sys t (gloops g ! i)) g)"
| g_return: "i < length (gloops g) \<Longrightarrow> producers (gloops g ! i) t = DRet e r s \<Longrightarrow>
     group_step g (set_loop i ((gloops g ! i)\<lparr>producers := (producers (gloops g ! i))(t := DIdle),
        returned := returned (gloops g ! i) @ [(e, r, s)]\<rparr>) g)"
| g_run: "i < length (gloops g) \<Longrightarrow> group_step g (set_loop i (runner_sys latency (gloops g ! i)) g)"
| g_parent_cancel: "i < length (gloops g) \<Longrightarrow> group_step g (set_loop i (cancel_loop err (gloops g ! i)) g)"
| g_call_close: "gclosers g t = GIdle \<Longrightarrow> group_step g (g\<lparr>gclosers := (gclosers g)(t := GCancel 0)\<rparr>)"
| g_cancel: "gclosers g t = GCancel i \<Longrightarrow> i < length (gloops g) \<Longrightarrow>
     group_step g (set_loop i (cancel_loop Canceled (gloops g ! i)) (g\<lparr>gclosers := (gclosers g)(t := GCancel (Suc i))\<rparr>))"
| g_cancelled: "gclosers g t = GCancel i \<Longrightarrow> i = length (gloops g) \<Longrightarrow>
     group_step g (g\<lparr>gclosers := (gclosers g)(t := GClose 0)\<rparr>)"
| g_close: "gclosers g t = GClose i \<Longrightarrow> i < length (gloops g) \<Longrightarrow> closers (gloops g ! i) t = CIdle \<Longrightarrow>
     group_step g (set_loop i ((gloops g ! i)\<lparr>closers := (closers (gloops g ! i))(t := CSwap)\<rparr>)
       (g\<lparr>gclosers := (gclosers g)(t := GClosing i)\<rparr>))"
| g_closing: "gclosers g t = GClosing i \<Longrightarrow> i < length (gloops g) \<Longrightarrow>
     group_step g (set_loop i (closer_sys t (gloops g ! i)) g)"
| g_close_next: "gclosers g t = GClosing i \<Longrightarrow> i < length (gloops g) \<Longrightarrow> closers (gloops g ! i) t = CRet \<Longrightarrow>
     group_step g (set_loop i ((gloops g ! i)\<lparr>closers := (closers (gloops g ! i))(t := CIdle)\<rparr>)
       (g\<lparr>gclosers := (gclosers g)(t := GClose (Suc i))\<rparr>))"
| g_close_return: "gclosers g t = GClose i \<Longrightarrow> i = length (gloops g) \<Longrightarrow>
     group_step g (g\<lparr>gclosers := (gclosers g)(t := GIdle)\<rparr>)"

definition group_init :: "nat \<Rightarrow> EventLoopConfig \<Rightarrow> ('b, 'h) Group \<Rightarrow> bool" where
  "group_init procs config g \<longleftrightarrow> (\<exists>err. NewEventLoopGroup procs err config = Inr (Inr g))"

text \<open>Dispatching a list of events one after the other, for the properties of the counter.\<close>

fun dispatch_seq :: "('l, 'b) Dispatcher \<Rightarrow> ('b, 'h) Event list \<Rightarrow> route_result list" where
  "dispatch_seq d [] = []"
| "dispatch_seq d (e # es) = (case Dispatcher_Dispatch d (Some e) of (d', r) \<Rightarrow> r # dispatch_seq d' es)"

subsection \<open>Routing decisions\<close>

lemma RouteKey_less:
  assumes "RouteKey key n = Inr i" "0 < n"
  shows "i < n"
proof (cases "key = ''''")
  case False
  let ?m = "word_of_int n :: 32 word"
  have m: "uint ?m \<le> n"
    unfolding unsigned_of_int using assms(2) by (simp add: take_bit_int_less_eq_self_iff)
  have "?m \<noteq> 0 \<Longrightarrow> uint (HashKey key mod ?m) < uint ?m"
    by (simp add: uint_mod word_neq_0_conv word_less_def)
  then show ?thesis
    using assms False m by (auto simp: RouteKey_def Let_def split: if_splits)
qed (use assms in \<open>auto simp: RouteKey_def\<close>)

lemma round_robin_keeps:
  "round_robin d = (d', r) \<Longrightarrow> loops d' = loops d \<and> numLoops d' = numLoops d \<and> extractor d' = extractor d"
  by (auto simp: round_robin_def Let_def split: if_splits)

lemma Dispatcher_Dispatch_keeps:
  "Dispatcher_Dispatch d ev = (d', r) \<Longrightarrow>
   loops d' = loops d \<and> numLoops d' = numLoops d \<and> extractor d' = extractor d"
  by (auto simp: Dispatcher_Dispatch_def Let_def round_robin_keeps split: option.splits if_splits sum.splits)

lemma Dispatcher_Dispatch_routed:
  assumes d: "Dispatcher_Dispatch d (Some e) = (d', Routed i)" and n: "numLoops d = int (length (loops d))"
    and k: "routing_key d e \<noteq> ''''"
  shows "RouteKey (routing_key d e) (numLoops d) = Inr (int i)"
proof -
  have "0 < numLoops d"
    using d n k RouteKey_nonneg
    by (fastforce simp: Dispatcher_Dispatch_def Let_def round_robin_def split: sum.splits if_splits)
  then show ?thesis
    using d n k RouteKey_less RouteKey_nonneg
    by (fastforce simp: Dispatcher_Dispatch_def Let_def split: sum.splits if_splits)
qed

lemma DispatchByKey_routed:
  "DispatchByKey itoa d key (Some e) = Routed i \<Longrightarrow> RouteKey key (numLoops d) = Inr (int i)"
  using RouteKey_nonneg by (fastforce simp: DispatchByKey_def split: sum.splits if_splits)

subsection \<open>The invariant of one loop inside a group\<close>

text \<open>
  A loop is closed only after its context is cancelled, so the loop head of a blocking \<^verbatim>\<open>Dispatch\<close> that sees
  \<^verbatim>\<open>closed\<close> returns an error.
\<close>

definition truth_inv :: "('b, 'h) LoopSys \<Rightarrow> bool" where
  "truth_inv s \<longleftrightarrow>
     (el_closed (sys_loop s) \<longrightarrow> ctxErr (sys_loop s) \<noteq> None) \<and>
     (\<forall>t. closers s t = CSwap \<or> closers s t = CCancel \<longrightarrow> ctxErr (sys_loop s) \<noteq> None) \<and>
     (\<forall>t e. producers s t = DCtx e \<longrightarrow> ctxErr (sys_loop s) \<noteq> None) \<and>
     (\<forall>t e g. producers s t = DRet e None g \<longrightarrow> g \<noteq> None) \<and>
     (\<forall>(e, r, g) \<in> set (returned s). r = None \<longrightarrow> g \<noteq> None)"

fun pc_event :: "'e Dispatch_pc \<Rightarrow> 'e option" where
  "pc_event DIdle = None"
| "pc_event (DStart e) = Some e"
| "pc_event (DLoop e) = Some e"
| "pc_event (DLoopCtx e) = Some e"
| "pc_event (DCtx e) = Some e"
| "pc_event (DNext e) = Some e"
| "pc_event (DGate e c) = Some e"
| "pc_event (DCas e c) = Some e"
| "pc_event (DFull e) = Some e"
| "pc_event (DStore e s) = Some e"
| "pc_event (DMark e s) = Some e"
| "pc_event (DRet e r g) = Some e"

definition log_inv :: "(('b, 'h) Event \<times> string \<times> nat) list \<Rightarrow> nat \<Rightarrow> ('b, 'h) LoopSys \<Rightarrow> bool" where
  "log_inv lg i s \<longleftrightarrow>
     (\<forall>t e. pc_event (producers s t) = Some e \<longrightarrow> (\<exists>k. (e, k, i) \<in> set lg)) \<and>
     (\<forall>e \<in> set (claimed s). \<exists>k. (e, k, i) \<in> set lg)"

definition loop_ok :: "(('b, 'h) Event \<times> string \<times> nat) list \<Rightarrow> nat \<Rightarrow> ('b, 'h) LoopSys \<Rightarrow> bool" where
  "loop_ok lg i s \<longleftrightarrow> loop_inv s \<and> truth_inv s \<and> log_inv lg i s"

lemma loop_ok_mono: "loop_ok lg i s \<Longrightarrow> set lg \<subseteq> set lg' \<Longrightarrow> loop_ok lg' i s"
  unfolding loop_ok_def log_inv_def by blast

lemma Dispatch_step_event: "pc_event (snd (Dispatch_step l pc)) = pc_event pc"
  by (cases pc) (auto split: BackpressurePolicy.splits option.splits)

lemma claim_of_event: "e \<in> set (claim_of l pc) \<Longrightarrow> pc_event pc = Some e"
  by (cases pc) (auto simp: claim_of_def split: if_splits)

lemma Dispatch_step_closed: "el_closed (fst (Dispatch_step l pc)) = el_closed l"
  by (cases pc) (auto simp: count_dropped_def split: BackpressurePolicy.splits option.splits)

lemma Dispatch_step_ctxpc:
  "snd (Dispatch_step l pc) = DCtx e \<Longrightarrow> el_closed l \<or> ctxErr l \<noteq> None"
  by (cases pc) (auto split: BackpressurePolicy.splits option.splits if_splits)

lemma Dispatch_step_nil:
  "snd (Dispatch_step l pc) = DRet e None None \<Longrightarrow> (\<exists>e. pc = DCtx e \<and> ctxErr l = None) \<or> pc = DRet e None None"
  by (cases pc) (auto split: BackpressurePolicy.splits option.splits if_splits)

lemma loop_ok_producer:
  assumes "loop_ok lg i s" shows "loop_ok lg i (producer_sys t s)"
proof -
  obtain l pc where st: "Dispatch_step (sys_loop s) (producers s t) = (l, pc)" by fastforce
  note keep = Dispatch_step_ctx [of "sys_loop s" "producers s t"] Dispatch_step_closed [of "sys_loop s" "producers s t"]
  note pcs = Dispatch_step_ctxpc [of "sys_loop s" "producers s t"] Dispatch_step_nil [of "sys_loop s" "producers s t"]
    Dispatch_step_event [of "sys_loop s" "producers s t"]
  have new: "pc = DCtx e \<Longrightarrow> ctxErr (sys_loop s) \<noteq> None" "pc \<noteq> DRet e None None" for e
    using assms pcs(1,2) [of e] st by (fastforce simp: loop_ok_def truth_inv_def)+
  have "truth_inv (producer_sys t s)"
    using assms keep new unfolding loop_ok_def truth_inv_def by (auto simp: producer_sys_def st)
  moreover have "log_inv lg i (producer_sys t s)"
    using assms pcs(3) claim_of_event [of _ "sys_loop s" "producers s t"]
    unfolding loop_ok_def log_inv_def producer_sys_def st by auto
  ultimately show ?thesis
    using assms loop_inv_producer by (auto simp: loop_ok_def)
qed

lemma run_step_closed: "el_closed (fst (run_step n l pc)) = el_closed l"
  by (cases pc) (auto simp: count_processed_def)

lemma loop_ok_runner:
  assumes "loop_ok lg i s" shows "loop_ok lg i (runner_sys n s)"
  using assms loop_inv_runner [of s n] run_step_closed [of n "sys_loop s" "runner s"]
    run_step_ctx [of n "sys_loop s" "runner s"]
  by (auto simp: loop_ok_def truth_inv_def log_inv_def runner_sys_def split: prod.splits)

lemma loop_ok_start:
  "loop_ok lg i s \<Longrightarrow> producers s t = DIdle \<Longrightarrow> (e, k, i) \<in> set lg \<Longrightarrow> loop_ok lg i (start_dispatch t e s)"
  using loop_inv_call [of s t e]
  unfolding loop_ok_def start_dispatch_def truth_inv_def log_inv_def by simp blast

lemma loop_ok_return:
  "loop_ok lg i s \<Longrightarrow> producers s t = DRet e r g \<Longrightarrow>
   loop_ok lg i (s\<lparr>producers := (producers s)(t := DIdle), returned := returned s @ [(e, r, g)]\<rparr>)"
  using loop_inv_return [of s t e r g] by (auto simp: loop_ok_def truth_inv_def log_inv_def)

lemma loop_ok_cancel: "loop_ok lg i s \<Longrightarrow> loop_ok lg i (cancel_loop err s)"
  by (auto simp: loop_ok_def truth_inv_def log_inv_def cancel_loop_def loop_inv_ctx split: option.splits)

lemma loop_ok_close:
  assumes "loop_ok lg i s" "ctxErr (sys_loop s) \<noteq> None"
  shows "loop_ok lg i (s\<lparr>closers := c\<rparr>)"
  using assms by (auto simp: loop_ok_def truth_inv_def log_inv_def)

lemma loop_ok_closer:
  assumes "loop_ok lg i s" "ctxErr (sys_loop s) \<noteq> None"
  shows "loop_ok lg i (closer_sys t s)"
  using assms loop_inv_closer [of s t] Close_step_ctx [of "sys_loop s" "closers s t"]
  by (auto simp: loop_ok_def truth_inv_def log_inv_def closer_sys_def split: prod.splits)

subsection \<open>The invariant of a group\<close>

fun gclose_ok :: "('b, 'h) LoopSys list \<Rightarrow> GroupClose_pc \<Rightarrow> bool" where
  "gclose_ok ls GIdle \<longleftrightarrow> True"
| "gclose_ok ls (GCancel j) \<longleftrightarrow> (\<forall>i < length ls. i < j \<longrightarrow> ctxErr (sys_loop (ls ! i)) \<noteq> None)"
| "gclose_ok ls (GClose j) \<longleftrightarrow> (\<forall>i < length ls. ctxErr (sys_loop (ls ! i)) \<noteq> None)"
| "gclose_ok ls (GClosing j) \<longleftrightarrow> (\<forall>i < length ls. ctxErr (sys_loop (ls ! i)) \<noteq> None)"

definition routed_ok :: "int \<Rightarrow> ('b, 'h) Event \<times> string \<times> nat \<Rightarrow> bool" where
  "routed_ok n = (\<lambda>(e, k, i). int i < n \<and> (k \<noteq> '''' \<longrightarrow> RouteKey k n = Inr (int i)))"

definition group_inv :: "('b, 'h) Group \<Rightarrow> bool" where
  "group_inv g \<longleftrightarrow> numLoops (dispatcher g) = int (length (gloops g)) \<and>
     (\<forall>i < length (gloops g). loop_ok (routed g) i (gloops g ! i)) \<and>
     (\<forall>t. gclose_ok (gloops g) (gclosers g t)) \<and>
     (\<forall>x \<in> set (routed g). routed_ok (numLoops (dispatcher g)) x)"

text \<open>Replacing one loop, with the routing log possibly longer and the close calls moved.\<close>

lemma group_inv_set_loop:
  assumes inv: "group_inv g" and i: "i < length (gloops g)"
    and d: "loops (dispatcher g') = gloops g" "numLoops (dispatcher g') = numLoops (dispatcher g)"
    and lg: "set (routed g) \<subseteq> set (routed g')" "\<forall>x \<in> set (routed g'). routed_ok (numLoops (dispatcher g)) x"
    and l: "loop_ok (routed g') i l" and ctx: "ctxErr (sys_loop (gloops g ! i)) \<noteq> None \<Longrightarrow> ctxErr (sys_loop l) \<noteq> None"
    and gc: "\<And>t. gclose_ok ((gloops g)[i := l]) (gclosers g t) \<Longrightarrow> gclose_ok ((gloops g)[i := l]) (gclosers g' t)"
  shows "group_inv (set_loop i l g')"
proof -
  have "gclose_ok ((gloops g)[i := l]) pc" if "gclose_ok (gloops g) pc" for pc
    using that ctx i by (cases pc) (auto simp: nth_list_update)
  then have "gclose_ok ((gloops g)[i := l]) (gclosers g' t)" for t
    using gc inv by (auto simp: group_inv_def)
  then show ?thesis
    using inv i d lg l loop_ok_mono [OF _ lg(1)]
    by (auto simp: group_inv_def set_loop_def nth_list_update)
qed

lemma group_inv_loop_only:
  assumes "group_inv g" "i < length (gloops g)" "loop_ok (routed g) i l"
    "ctxErr (sys_loop (gloops g ! i)) \<noteq> None \<Longrightarrow> ctxErr (sys_loop l) \<noteq> None"
  shows "group_inv (set_loop i l g)"
  using assms by (intro group_inv_set_loop [OF assms(1,2)]) (auto simp: group_inv_def)

lemma ctx_keeps:
  "ctxErr (sys_loop (producer_sys t s)) = ctxErr (sys_loop s)"
  "ctxErr (sys_loop (runner_sys n s)) = ctxErr (sys_loop s)"
  "ctxErr (sys_loop s) \<noteq> None \<Longrightarrow> ctxErr (sys_loop (closer_sys t s)) \<noteq> None"
  "ctxErr (sys_loop (cancel_loop err s)) \<noteq> None"
  "ctxErr (sys_loop (start_dispatch t e s)) = ctxErr (sys_loop s)"
  using Dispatch_step_ctx [of "sys_loop s" "producers s t"] run_step_ctx [of n "sys_loop s" "runner s"]
    Close_step_ctx [of "sys_loop s" "closers s t"]
  by (auto simp: producer_sys_def runner_sys_def closer_sys_def cancel_loop_def start_dispatch_def
      split: prod.splits option.splits)

lemma group_inv_loops: "group_inv g \<Longrightarrow> i < length (gloops g) \<Longrightarrow> loop_ok (routed g) i (gloops g ! i)"
  by (simp add: group_inv_def)

lemma group_inv_cancelled:
  "group_inv g \<Longrightarrow> gclosers g t = GClose j \<or> gclosers g t = GClosing j \<Longrightarrow> i < length (gloops g) \<Longrightarrow>
   ctxErr (sys_loop (gloops g ! i)) \<noteq> None"
  unfolding group_inv_def by (metis gclose_ok.simps(3,4))

lemma group_inv_gclosers:
  "group_inv g \<Longrightarrow> gclose_ok (gloops g) pc \<Longrightarrow> group_inv (g\<lparr>gclosers := (gclosers g)(t := pc)\<rparr>)"
  by (auto simp: group_inv_def)

lemma group_inv_closing:
  assumes inv: "group_inv g" and i: "i < length (gloops g)"
    and cur: "gclosers g t = GClose j \<or> gclosers g t = GClosing j" and pc: "pc = GClose k \<or> pc = GClosing k"
  shows "group_inv (set_loop i ((gloops g ! i)\<lparr>closers := c\<rparr>) (g\<lparr>gclosers := (gclosers g)(t := pc)\<rparr>))"
proof (rule group_inv_set_loop [OF inv i])
  note cancelled = group_inv_cancelled [OF inv cur]
  show "loop_ok (routed (g\<lparr>gclosers := (gclosers g)(t := pc)\<rparr>)) i ((gloops g ! i)\<lparr>closers := c\<rparr>)"
    using loop_ok_close [OF group_inv_loops [OF inv i] cancelled [OF i]] by simp
  fix u
  assume "gclose_ok ((gloops g)[i := (gloops g ! i)\<lparr>closers := c\<rparr>]) (gclosers g u)"
  then show "gclose_ok ((gloops g)[i := (gloops g ! i)\<lparr>closers := c\<rparr>])
    (gclosers (g\<lparr>gclosers := (gclosers g)(t := pc)\<rparr>) u)"
    using pc cancelled i by (auto simp: nth_list_update)
qed (use inv in \<open>auto simp: group_inv_def\<close>)

lemma group_inv_route:
  assumes inv: "group_inv g" and i: "i < length (gloops g)" and t: "producers (gloops g ! i) t = DIdle"
    and d: "loops d' = gloops g" "numLoops d' = numLoops (dispatcher g)"
    and k: "k \<noteq> '''' \<longrightarrow> RouteKey k (numLoops (dispatcher g)) = Inr (int i)"
  shows "group_inv (set_loop i (start_dispatch t e (gloops g ! i))
           (g\<lparr>dispatcher := d', routed := routed g @ [(e, k, i)]\<rparr>))"
proof (rule group_inv_set_loop [OF inv i])
  show "loop_ok (routed (g\<lparr>dispatcher := d', routed := routed g @ [(e, k, i)]\<rparr>)) i (start_dispatch t e (gloops g ! i))"
    using loop_ok_start [OF loop_ok_mono [OF group_inv_loops [OF inv i]] t, of "routed g @ [(e, k, i)]" e k]
    by auto
qed (use inv i d k in \<open>auto simp: group_inv_def routed_ok_def ctx_keeps\<close>)

lemma group_inv_step: "group_step g g' \<Longrightarrow> group_inv g \<Longrightarrow> group_inv g'"
proof (induction rule: group_step.induct)
  case (g_dispatch g e d' i t)
  have n: "numLoops (dispatcher g) = int (length (gloops g))"
    using g_dispatch.prems by (simp add: group_inv_def)
  show ?case
    using Dispatcher_Dispatch_keeps [OF g_dispatch(1)] Dispatcher_Dispatch_routed [OF g_dispatch(1) n]
    by (intro group_inv_route g_dispatch) auto
next
  case (g_dispatch_fails g ev d' r)
  then show ?case
    using Dispatcher_Dispatch_keeps [OF g_dispatch_fails(1)] by (auto simp: group_inv_def)
next
  case (g_by_key itoa g key e i t)
  show ?case
    using group_inv_route [OF g_by_key(4,2,3), of "dispatcher g" key e] DispatchByKey_routed [OF g_by_key(1)] by simp
next
  case (g_by_key_fails itoa g key ev r)
  then show ?case by (auto simp: group_inv_def)
next
  case (g_cancel g t i)
  show ?case
  proof (rule group_inv_set_loop [OF g_cancel(3,2)])
    fix u
    assume *: "gclose_ok ((gloops g)[i := cancel_loop Canceled (gloops g ! i)]) (gclosers g u)"
    show "gclose_ok ((gloops g)[i := cancel_loop Canceled (gloops g ! i)])
       (gclosers (g\<lparr>gclosers := (gclosers g)(t := GCancel (Suc i))\<rparr>) u)"
      using * g_cancel ctx_keeps(4) [of Canceled "gloops g ! i"]
      by (cases "u = t") (auto simp: nth_list_update less_Suc_eq split: if_splits)
  qed (use g_cancel in \<open>auto simp: group_inv_def ctx_keeps loop_ok_cancel\<close>)
next
  case (g_close g t i)
  show ?case
    using group_inv_closing [OF g_close(4,2), of t i "GClosing i" i] g_close(1) by simp
next
  case (g_close_next g t i)
  show ?case
    using group_inv_closing [OF g_close_next(4,2), of t i "GClose (Suc i)" "Suc i"] g_close_next(1) by simp
next
  case (g_parent_cancel i g err)
  then show ?case
    using ctx_keeps(4) by (intro group_inv_loop_only loop_ok_cancel group_inv_loops)
next
  case (g_closing g t i)
  then show ?case
    using group_inv_cancelled [of g t i i] ctx_keeps(3)
    by (intro group_inv_loop_only loop_ok_closer group_inv_loops) blast+
next
  case (g_cancelled g t i)
  then have "gclose_ok (gloops g) (GCancel (length (gloops g)))"
    unfolding group_inv_def by metis
  then show ?case
    by (intro group_inv_gclosers g_cancelled) simp
qed (auto intro!: group_inv_loop_only group_inv_gclosers loop_ok_producer loop_ok_runner loop_ok_return
       simp: group_inv_loops ctx_keeps)

lemma new_loops_all:
  "new_loops n i err config = Inr ls \<Longrightarrow>
   length ls = n \<and> (\<forall>j < n. NewEventLoop (int (i + j)) err config = Inr (ls ! j))"
proof (induction n arbitrary: i ls)
  case (Suc n)
  obtain l ls' where l: "NewEventLoop (int i) err config = Inr l" "new_loops n (Suc i) err config = Inr ls'"
    "ls = l # ls'"
    using Suc.prems by (auto split: sum.splits)
  have "NewEventLoop (int (i + j)) err config = Inr (ls ! j)" if "j < Suc n" for j
    using Suc.IH [OF l(2)] l(1,3) that by (cases j) auto
  then show ?case
    using Suc.IH [OF l(2)] l(3) by simp
qed simp

lemma group_inv_init:
  assumes "group_init procs config g" shows "group_inv g"
proof -
  obtain err n ls where ls: "new_loops n 0 err config = Inr ls"
    and g: "g = \<lparr>dispatcher = NewDispatcher (map start_sys ls) (Some DefaultKeyExtractor),
                 gclosers = (\<lambda>_. GIdle), routed = [], refused = []\<rparr>"
    using assms by (auto simp: group_init_def NewEventLoopGroup_def Let_def split: option.splits sum.splits if_splits)
  have "loop_ok [] i (start_sys (ls ! i))" if "i < length ls" for i
  proof -
    have new: "NewEventLoop (int i) err config = Inr (ls ! i)"
      using new_loops_all [OF ls] that by simp
    then have "loop_inv (start_sys (ls ! i))"
      by (intro loop_inv_init [of config]) (auto simp: loop_init_def)
    then show ?thesis
      using NewEventLoop_ring [OF new] by (simp add: loop_ok_def truth_inv_def log_inv_def start_sys_def)
  qed
  then show ?thesis
    by (auto simp: g group_inv_def NewDispatcher_def)
qed

interpretation group: inductive_invariant "group_init procs config" group_step group_inv for procs config
  by unfold_locales (auto intro: group_inv_init group_inv_step)

subsection \<open>Round robin\<close>

lemma uint_mod_word64:
  fixes c :: "64 word"
  assumes "0 < n" "n < 2 ^ 64"
  shows "uint (c mod word_of_int n) = uint c mod n"
proof -
  have "uint (word_of_int n :: 64 word) = n"
    unfolding unsigned_of_int using assms by (simp add: take_bit_int_eq_self)
  then show ?thesis by (simp add: uint_mod)
qed

lemma round_robin_eval:
  assumes n: "numLoops d = int (length (loops d))" "0 < length (loops d)" "length (loops d) \<le> 2 ^ 31"
  shows "round_robin d =
    (d\<lparr>roundRobinCounter := roundRobinCounter d + 1\<rparr>, Routed (unat (roundRobinCounter d) mod length (loops d)))"
proof -
  let ?n = "int (length (loops d))" and ?c = "roundRobinCounter d"
  have n': "0 < ?n" "?n < 2 ^ 64" "?n \<le> 2 ^ 31" using n by auto
  have lt: "uint ?c mod ?n < ?n" using n' by simp
  then have "uint ?c mod ?n \<le> maxInt32" unfolding maxInt32_def using n'(3) by linarith
  moreover have "nat (uint ?c mod ?n) = unat ?c mod length (loops d)"
    by (simp add: nat_mod_distrib)
  ultimately show ?thesis
    using n lt uint_mod_word64 [OF n'(1,2), of ?c] by (simp add: round_robin_def Let_def)
qed

lemma routing_key_counter [simp]: "routing_key (d\<lparr>roundRobinCounter := c\<rparr>) e = routing_key d e"
  by (simp add: routing_key_def)

lemma dispatch_seq_keyless:
  assumes "numLoops d = int (length (loops d))" "0 < length (loops d)" "length (loops d) \<le> 2 ^ 31"
    and "\<forall>e \<in> set es. routing_key d e = []" and "unat (roundRobinCounter d) + length es < 2 ^ 64"
  shows "dispatch_seq d es =
    map (\<lambda>j. Routed ((unat (roundRobinCounter d) + j) mod length (loops d))) [0..<length es]"
  using assms
proof (induction es arbitrary: d)
  case (Cons e es)
  let ?d = "d\<lparr>roundRobinCounter := roundRobinCounter d + 1\<rparr>"
  have step: "Dispatcher_Dispatch d (Some e) = (?d, Routed (unat (roundRobinCounter d) mod length (loops d)))"
    using Cons.prems round_robin_eval [of d] by (simp add: Dispatcher_Dispatch_def)
  have c: "unat (roundRobinCounter d + 1) = unat (roundRobinCounter d) + 1"
    using Cons.prems(5) by (simp add: unat_word_ariths)
  have "dispatch_seq ?d es =
    map (\<lambda>j. Routed ((unat (roundRobinCounter ?d) + j) mod length (loops ?d))) [0..<length es]"
    using Cons.prems c by (intro Cons.IH) auto
  then show ?case
    using step c by (simp add: map_upt_Suc del: upt_Suc)
qed simp

lemma mod_zero_iff_self:
  fixes x n :: nat
  assumes "0 < x" "x < 2 * n"
  shows "x mod n = 0 \<longleftrightarrow> x = n"
proof
  assume "x mod n = 0"
  then obtain q where q: "x = n * q" by (auto simp: mod_eq_0_iff_dvd elim: dvdE)
  with assms have "0 < q" "q < 2" by auto
  then show "x = n" using q by (simp add: less_2_cases_iff)
qed simp

lemma count_residue:
  fixes c n i k :: nat
  assumes "i < n"
  shows "length (filter (\<lambda>j. (c + j) mod n = i) [0..<k]) + (c + (n - 1 - i)) div n = (c + k + (n - 1 - i)) div n"
proof (induction k)
  case (Suc k)
  let ?x = "c + k + (n - 1 - i)"
  have "Suc ?x = (c + k) + (n - i)" using assms by simp
  then have "Suc ?x mod n = ((c + k) mod n + (n - i)) mod n"
    by (simp only: mod_add_left_eq)
  also have "\<dots> = 0 \<longleftrightarrow> (c + k) mod n + (n - i) = n"
  proof -
    have "(c + k) mod n < n" using assms by simp
    then have "0 < (c + k) mod n + (n - i)" "(c + k) mod n + (n - i) < 2 * n" using assms by linarith+
    then show ?thesis by (rule mod_zero_iff_self)
  qed
  also have "\<dots> \<longleftrightarrow> (c + k) mod n = i" using assms by auto
  finally have "Suc ?x mod n = 0 \<longleftrightarrow> (c + k) mod n = i" .
  then show ?case
    using Suc by (auto simp: div_Suc)
qed simp

lemma div_add_bounds:
  fixes a k n :: nat
  assumes "0 < n"
  shows "a div n + k div n \<le> (a + k) div n \<and> (a + k) div n \<le> a div n + k div n + 1"
proof -
  have "a mod n + k mod n < 2 * n"
    using assms mod_less_divisor [of n a] mod_less_divisor [of n k] by linarith
  then have "(a mod n + k mod n) div n \<le> 1"
    using less_mult_imp_div_less [of "a mod n + k mod n" 2 n] by simp
  then show ?thesis
    using div_add1_eq [of a k n] by simp
qed

subsection \<open>A concrete execution\<close>

text \<open>The execution of one loop in theory EventLoop, inside a group with one loop.\<close>

definition demo_group :: "(nat, nat) LoopSys \<Rightarrow> (nat, nat) Group" where
  "demo_group s = \<lparr>dispatcher = \<lparr>loops = [s], numLoops = 1, extractor = DefaultKeyExtractor, roundRobinCounter = 0\<rparr>,
     gclosers = (\<lambda>_. GIdle), routed = [(demo_event, ''user-7'', 0)], refused = []\<rparr>"

abbreviation demo_greach :: "(nat, nat) Group \<Rightarrow> bool" where
  "demo_greach \<equiv> reach (group_init 1 demo_config) group_step"

lemma demo_group_called: "demo_greach (demo_group demo_called)"
proof -
  let ?g = "(demo_group (start_sys demo_loop))\<lparr>routed := []\<rparr>"
  have "NewEventLoopGroup 1 None demo_config = Inr (Inr ?g)"
    using NewEventLoop_demo
    by (simp add: NewEventLoopGroup_def Validate_def demo_config_def demo_group_def NewDispatcher_def)
  then have init: "demo_greach ?g" by (intro reach_init) (auto simp: group_init_def)
  have "RouteKey ''user-7'' 1 = Inr 0"
    using RouteKey_bounds [of 1 "''user-7''"] by auto
  then have "Dispatcher_Dispatch (dispatcher ?g) (Some demo_event) = (dispatcher ?g, Routed 0)"
    by (simp add: Dispatcher_Dispatch_def routing_key_def demo_event_def demo_group_def)
  then have "group_step ?g (set_loop 0 (start_dispatch 0 demo_event (gloops ?g ! 0))
    (?g\<lparr>dispatcher := dispatcher ?g, routed := routed ?g @ [(demo_event, routing_key (dispatcher ?g) demo_event, 0)]\<rparr>))"
    by (rule group_step.g_dispatch) (simp_all add: demo_group_def start_sys_def)
  then have "group_step ?g (demo_group demo_called)"
    by (simp add: demo_group_def set_loop_def start_dispatch_def demo_called_def routing_key_def
        demo_event_def start_sys_def)
  then show ?thesis using init by (auto intro: reach_step)
qed

lemma demo_group_producers: "demo_greach (demo_group s) \<Longrightarrow> demo_greach (demo_group ((producer_sys t ^^ n) s))"
proof (induction n)
  case (Suc n)
  then show ?case
    using group_step.g_producer [of 0 "demo_group ((producer_sys t ^^ n) s)" t]
    by (auto simp: demo_group_def set_loop_def intro: reach_step)
qed simp

lemma demo_group_runner: "demo_greach (demo_group s) \<Longrightarrow> demo_greach (demo_group ((runner_sys l ^^ n) s))"
proof (induction n)
  case (Suc n)
  then show ?case
    using group_step.g_run [of 0 "demo_group ((runner_sys l ^^ n) s)" l]
    by (auto simp: demo_group_def set_loop_def intro: reach_step)
qed simp

lemma demo_group_handled: "demo_greach (demo_group demo_handled)"
proof -
  have "demo_greach (demo_group demo_stored)"
    unfolding demo_stored_def by (rule demo_group_producers [OF demo_group_called])
  moreover have "group_step (demo_group demo_stored) (demo_group demo_published)"
    using group_step.g_return [of 0 "demo_group demo_stored" 0 demo_event None "Some 0"]
    by (simp add: demo_group_def set_loop_def demo_published_def demo_stored_eval)
  ultimately have "demo_greach (demo_group demo_published)" by (rule reach_step)
  then show ?thesis unfolding demo_handled_def by (rule demo_group_runner)
qed

lemma demo_handled_returned: "returned demo_handled = [(demo_event, None, Some 0)]"
proof -
  have "returned ((runner_sys n ^^ k) s) = returned s" for n k and s :: "(nat, nat) LoopSys"
    by (induction k) (auto simp: runner_sys_def split: prod.splits)
  then show ?thesis by (simp add: demo_handled_def demo_published_eval)
qed

subsection \<open>Properties\<close>

text \<open>
  C2. Per-key ordering. In every execution of a group, every event a loop has claimed was routed to that loop;
  events routed by the same non-empty key went to the same loop, the one \<^verbatim>\<open>RouteKey\<close> names; and each loop
  handles its events once each, in the order in which it claimed them.
\<close>

theorem group_key_affinity:
  assumes "reach (group_init procs config) group_step g"
  shows "(\<forall>i < length (gloops g). \<forall>e \<in> set (claimed (gloops g ! i)). \<exists>k. (e, k, i) \<in> set (routed g)) \<and>
     (\<forall>e k i e' i'. (e, k, i) \<in> set (routed g) \<and> (e', k, i') \<in> set (routed g) \<and> k \<noteq> '''' \<longrightarrow>
        i = i' \<and> RouteKey k (int (length (gloops g))) = Inr (int i)) \<and>
     (\<forall>i < length (gloops g). fetched (gloops g ! i) =
        map (\<lambda>j. (int j, Some (claimed (gloops g ! i) ! j))) [0..<length (fetched (gloops g ! i))])"
proof -
  have inv: "group_inv g" by (rule group.reach_inv [OF assms])
  have ok: "loop_ok (routed g) i (gloops g ! i)" if "i < length (gloops g)" for i
    using group_inv_loops [OF inv that] .
  have key: "RouteKey k (int (length (gloops g))) = Inr (int i)" if "(e, k, i) \<in> set (routed g)" "k \<noteq> ''''" for e k i
    using inv that unfolding group_inv_def routed_ok_def by fastforce
  have "i = i' \<and> RouteKey k (int (length (gloops g))) = Inr (int i)"
    if "(e, k, i) \<in> set (routed g)" "(e', k, i') \<in> set (routed g)" "k \<noteq> ''''" for e e' k i i'
    using key [OF that(1,3)] key [OF that(2,3)] by simp
  moreover have "\<exists>k. (e, k, i) \<in> set (routed g)" if "i < length (gloops g)" "e \<in> set (claimed (gloops g ! i))" for i e
    using ok [OF that(1)] that(2) by (auto simp: loop_ok_def log_inv_def)
  moreover have "fetched (gloops g ! i) =
        map (\<lambda>j. (int j, Some (claimed (gloops g ! i) ! j))) [0..<length (fetched (gloops g ! i))]"
    if "i < length (gloops g)" for i
    using ok [OF that] by (simp add: loop_ok_def loop_inv_def fetch_inv_def)
  ultimately show ?thesis by blast
qed

theorem group_key_affinity_witness:
  "demo_greach (demo_group demo_handled) \<and> set (claimed demo_handled) = {demo_event} \<and>
   (\<exists>k. (demo_event, k, 0) \<in> set (routed (demo_group demo_handled))) \<and> RouteKey ''user-7'' 1 = Inr 0"
  using group_key_affinity [OF demo_group_handled] demo_group_handled
  by (auto simp: demo_group_def demo_handled_eval)

text \<open>
  C5. As long as loops are closed through \<^verbatim>\<open>EventLoopGroup.Close\<close>, which cancels the context first, a
  \<^verbatim>\<open>Dispatch\<close> that returned \<^verbatim>\<open>nil\<close> has put its event into its loop, under every backpressure policy: the loss
  that a single loop's \<^verbatim>\<open>Close\<close> allows cannot happen.
\<close>

theorem group_dispatch_truthful:
  assumes "reach (group_init procs config) group_step g" "i < length (gloops g)"
    and "(e, None, s) \<in> set (returned (gloops g ! i))"
  shows "\<exists>k. s = Some k \<and> 0 \<le> k \<and> nat k < length (claimed (gloops g ! i)) \<and> claimed (gloops g ! i) ! nat k = e"
proof -
  have ok: "loop_ok (routed g) i (gloops g ! i)"
    using group_inv_loops [OF group.reach_inv [OF assms(1)] assms(2)] .
  then have "ret_ok (sys_ring (gloops g ! i)) (claimed (gloops g ! i)) (dropping (gloops g ! i)) e None s"
    "buf_inv (sys_ring (gloops g ! i)) (claimed (gloops g ! i))" "s \<noteq> None"
    using assms(3) by (auto simp: loop_ok_def loop_inv_def truth_inv_def)
  then show ?thesis
    by (auto simp: ret_ok_def buf_inv_def)
qed

theorem group_dispatch_truthful_witness:
  "demo_greach (demo_group demo_handled) \<and> 0 < length (gloops (demo_group demo_handled)) \<and>
   (demo_event, None, Some 0) \<in> set (returned (gloops (demo_group demo_handled) ! 0)) \<and>
   claimed (gloops (demo_group demo_handled) ! 0) ! 0 = demo_event"
  using group_dispatch_truthful [OF demo_group_handled, of 0 demo_event "Some 0"] demo_group_handled
  by (simp add: demo_group_def demo_handled_eval demo_handled_returned)

text \<open>
  C31. Round robin is fair: when a dispatcher with \<open>n\<close> loops (\<open>n \<le> 2\<^sup>3\<^sup>1\<close>) routes \<open>k\<close> events without keys one
  after the other and its counter does not wrap, every loop receives \<open>k div n\<close> or \<open>k div n + 1\<close> of them.
\<close>

theorem round_robin_fair:
  assumes "numLoops d = int (length (loops d))" "0 < length (loops d)" "length (loops d) \<le> 2 ^ 31"
    and "\<forall>e \<in> set es. routing_key d e = ''''" and "unat (roundRobinCounter d) + length es < 2 ^ 64"
    and "i < length (loops d)"
  shows "length es div length (loops d) \<le> length (filter (\<lambda>r. r = Routed i) (dispatch_seq d es)) \<and>
     length (filter (\<lambda>r. r = Routed i) (dispatch_seq d es)) \<le> length es div length (loops d) + 1"
proof -
  let ?n = "length (loops d)" and ?c = "unat (roundRobinCounter d)"
  have "filter (\<lambda>r. r = Routed i) (dispatch_seq d es) =
    map (\<lambda>j. Routed ((?c + j) mod ?n)) (filter (\<lambda>j. (?c + j) mod ?n = i) [0..<length es])"
    using dispatch_seq_keyless [OF assms(1-5)] by (simp add: filter_map comp_def)
  then show ?thesis
    using count_residue [OF assms(6), of ?c "length es"] div_add_bounds [OF assms(2), of "?c + (?n - 1 - i)" "length es"]
    by (simp add: add_ac)
qed

theorem round_robin_fair_witness:
  "\<exists>(d :: (unit, nat) Dispatcher) (e :: (nat, nat) Event).
     numLoops d = int (length (loops d)) \<and> length (loops d) = 2 \<and> routing_key d e = '''' \<and>
     1 \<le> length (filter (\<lambda>r. r = Routed 0) (dispatch_seq d [e, e, e])) \<and>
     length (filter (\<lambda>r. r = Routed 0) (dispatch_seq d [e, e, e])) \<le> 2"
proof -
  define d :: "(unit, nat) Dispatcher" where "d = NewDispatcher [(), ()] None"
  define e :: "(nat, nat) Event" where "e = demo_event\<lparr>ev_Key := ''''\<rparr>"
  have d: "numLoops d = int (length (loops d))" "length (loops d) = 2" "routing_key d e = ''''"
    "roundRobinCounter d = 0"
    by (auto simp: d_def e_def NewDispatcher_def routing_key_def DefaultKeyExtractor_def demo_event_def)
  then show ?thesis
    using round_robin_fair [of d "[e, e, e]" 0] by (intro exI [of _ d] exI [of _ e]) simp
qed

text \<open>
  C32. An envelope is routed exactly as the event that carries its key, headers, topic and data: \<^verbatim>\<open>DispatchEnvelope\<close> makes the same
  decision, and leaves the same counter, as \<^verbatim>\<open>Dispatch\<close> of an event whose key is the envelope's own key. A dispatcher with an extractor
  of its own is included as long as the envelope has a key or none of the routing headers; for an envelope that is routed by a header
  the dispatcher must have the default extractor, whose header list \<^verbatim>\<open>GetRoutingKey\<close> repeats.
\<close>

theorem DispatchEnvelope_eq_Dispatch:
  fixes env :: "'b EnvelopeData" and e :: "('b, 'h) Event"
  assumes "env_Key env = '''' \<and> GetRoutingKey env \<noteq> '''' \<longrightarrow> extractor d = DefaultKeyExtractor"
    and "ev_Key e = env_Key env" "ev_Address e = env_Topic env" "ev_Body e = env_Data env" "ev_Headers e = env_Meta env"
  shows "DispatchEnvelope d (Some env) = Dispatcher_Dispatch d (Some e)"
proof -
  have "keyOrder = envKeyOrder" by (simp add: keyOrder_def envKeyOrder_def)
  then have "routing_key d (envelope_event env :: ('b, unit) Event) = routing_key d e"
    using assms by (auto simp: routing_key_def envelope_event_def GetRoutingKey_def DefaultKeyExtractor_def
      split: option.splits if_splits)
  then show ?thesis
    by (simp add: DispatchEnvelope_def Dispatcher_Dispatch_def)
qed

text \<open>An envelope without a key that is routed by a header.\<close>

theorem DispatchEnvelope_eq_Dispatch_witness:
  "\<exists>(d :: (unit, nat) Dispatcher) env (e :: (nat, nat) Event). extractor d = DefaultKeyExtractor \<and> env_Key env = '''' \<and>
     GetRoutingKey env = ''user-7'' \<and> ev_Headers e = env_Meta env \<and> DispatchEnvelope d (Some env) = Dispatcher_Dispatch d (Some e)"
proof -
  define d :: "(unit, nat) Dispatcher" where "d = NewDispatcher [(), ()] None"
  define env :: "nat EnvelopeData" where
    "env = \<lparr>env_Topic = ''orders'', env_Key = '''', env_Data = 42, env_Meta = Some [''X-User-ID'' \<mapsto> ''user-7'']\<rparr>"
  define e :: "(nat, nat) Event" where "e = demo_event\<lparr>ev_Key := '''', ev_Headers := env_Meta env\<rparr>"
  have "extractor d = DefaultKeyExtractor" "GetRoutingKey env = ''user-7''"
    by (simp_all add: d_def NewDispatcher_def env_def GetRoutingKey_def envKeyOrder_def)
  then show ?thesis
    using DispatchEnvelope_eq_Dispatch [of env d e]
    by (intro exI [of _ d] exI [of _ env] exI [of _ e]) (simp add: env_def e_def demo_event_def)
qed

end
