(* ===== verification/Mailbox.thy ===== *)
theory Mailbox
  imports Complex_Main Chan
begin

text \<open>
  The bounded mailbox of \<^verbatim>\<open>pkg/core/concurrency/mailbox_impl.go\<close>: a buffered channel, an atomic \<^verbatim>\<open>closed\<close>
  flag and an atomic size counter. Each method is a program counter whose steps are the atomic actions of
  the source; a step returns the list of its possible outcomes. The system is a mailbox with any number of
  concurrent calls, kept as multisets of program counters.

  The results: messages leave in the order in which they entered, none is lost or duplicated while the
  mailbox is open, the buffer never exceeds its capacity, the size counter is exact when no call is between
  its channel operation and its counter update, and \<^verbatim>\<open>Close\<close> closes the channel once; a mailbox used by one
  goroutine is a bounded queue; and an interleaving in which \<^verbatim>\<open>Send\<close> panics.
\<close>

subsection \<open>Data\<close>

datatype mb_error = ErrMailboxClosed | ErrMailboxFull | ErrMailboxEmpty

record 'm Mailbox =
  mb_ch :: "'m chan"
  mb_closed :: bool
  mb_capacity :: int
  mb_size :: int

text \<open>\<open>Inl\<close> is the fail-fast panic.\<close>

definition NewBoundedMailbox :: "int \<Rightarrow> string + 'm Mailbox" where
  "NewBoundedMailbox capacity =
     (if capacity \<le> 0 then Inl ''fail-fast: mailbox capacity must be positive''
      else Inr \<lparr>mb_ch = make_chan (nat capacity), mb_closed = False, mb_capacity = capacity, mb_size = 0\<rparr>)"

subsection \<open>Methods as atomic actions\<close>

datatype 'm Send_pc = SCheck 'm | SSelect 'm | SCount 'm | SRet 'm "mb_error option" | SPanic

fun Send_next :: "'m Mailbox \<Rightarrow> 'm Send_pc \<Rightarrow> ('m Mailbox \<times> 'm Send_pc) list" where
  "Send_next mb (SCheck m) = [(mb, if mb_closed mb then SRet m (Some ErrMailboxClosed) else SSelect m)]"
| "Send_next mb (SSelect m) =
     map (\<lambda>r. case r of
                Sent ch \<Rightarrow> (mb\<lparr>mb_ch := ch\<rparr>, SCount m)
              | SentPanic \<Rightarrow> (mb, SPanic)
              | _ \<Rightarrow> (mb, SRet m (Some ErrMailboxFull)))
         (select_send True False (mb_ch mb) m)"
| "Send_next mb (SCount m) = [(mb\<lparr>mb_size := mb_size mb + 1\<rparr>, SRet m None)]"
| "Send_next mb (SRet m r) = [(mb, SRet m r)]"
| "Send_next mb SPanic = [(mb, SPanic)]"

text \<open>
  \<^verbatim>\<open>Receive\<close>, with the error of its context at the moment of the step (\<open>None\<close>: not done). \<open>VStart True\<close> is a
  call with a \<^verbatim>\<open>nil\<close> context.
\<close>

datatype 'm recv_result = RecvMsg 'm | RecvErr mb_error | RecvCtx ctx_err

datatype 'm Receive_pc = VStart bool | VCheck | VSelect | VCount 'm | VRet "'m recv_result" | VPanic

fun Receive_next :: "ctx_err option \<Rightarrow> 'm Mailbox \<Rightarrow> 'm Receive_pc \<Rightarrow> ('m Mailbox \<times> 'm Receive_pc) list" where
  "Receive_next ctx mb (VStart isnil) = [(mb, if isnil then VPanic else VCheck)]"
| "Receive_next ctx mb VCheck = [(mb, if mb_closed mb then VRet (RecvErr ErrMailboxClosed) else VSelect)]"
| "Receive_next ctx mb VSelect =
     concat (map (\<lambda>r. case r of
                Received (Some m) ch \<Rightarrow> [(mb\<lparr>mb_ch := ch\<rparr>, VCount m)]
              | Received None ch \<Rightarrow> [(mb\<lparr>mb_ch := ch\<rparr>, VRet (RecvErr ErrMailboxClosed))]
              | ReceivedDone \<Rightarrow> (case ctx of Some e \<Rightarrow> [(mb, VRet (RecvCtx e))] | None \<Rightarrow> [])
              | ReceivedDefault \<Rightarrow> [])
         (select_recv False (ctx \<noteq> None) (mb_ch mb)))"
| "Receive_next ctx mb (VCount m) = [(mb\<lparr>mb_size := mb_size mb - 1\<rparr>, VRet (RecvMsg m))]"
| "Receive_next ctx mb (VRet r) = [(mb, VRet r)]"
| "Receive_next ctx mb VPanic = [(mb, VPanic)]"

text \<open>\<^verbatim>\<open>TryReceive\<close> returns a message, nothing (\<open>TRet None\<close>) or the closed error.\<close>

datatype 'm TryReceive_pc = TCheck | TSelect | TCount 'm | TRet "'m option" | TErr mb_error

fun TryReceive_next :: "'m Mailbox \<Rightarrow> 'm TryReceive_pc \<Rightarrow> ('m Mailbox \<times> 'm TryReceive_pc) list" where
  "TryReceive_next mb TCheck = [(mb, if mb_closed mb then TErr ErrMailboxClosed else TSelect)]"
| "TryReceive_next mb TSelect =
     map (\<lambda>r. case r of
                Received (Some m) ch \<Rightarrow> (mb\<lparr>mb_ch := ch\<rparr>, TCount m)
              | Received None ch \<Rightarrow> (mb\<lparr>mb_ch := ch\<rparr>, TErr ErrMailboxClosed)
              | _ \<Rightarrow> (mb, TRet None))
         (select_recv True False (mb_ch mb))"
| "TryReceive_next mb (TCount m) = [(mb\<lparr>mb_size := mb_size mb - 1\<rparr>, TRet (Some m))]"
| "TryReceive_next mb (TRet r) = [(mb, TRet r)]"
| "TryReceive_next mb (TErr e) = [(mb, TErr e)]"

datatype MbClose_pc = KCas | KClose | KRet | KPanic

fun MbClose_next :: "'m Mailbox \<Rightarrow> MbClose_pc \<Rightarrow> ('m Mailbox \<times> MbClose_pc) list" where
  "MbClose_next mb KCas = [if mb_closed mb then (mb, KRet) else (mb\<lparr>mb_closed := True\<rparr>, KClose)]"
| "MbClose_next mb KClose =
     [case chan_close (mb_ch mb) of None \<Rightarrow> (mb, KPanic) | Some ch \<Rightarrow> (mb\<lparr>mb_ch := ch\<rparr>, KRet)]"
| "MbClose_next mb KRet = [(mb, KRet)]"
| "MbClose_next mb KPanic = [(mb, KPanic)]"

definition Capacity :: "'m Mailbox \<Rightarrow> int" where
  "Capacity mb = mb_capacity mb"

definition MbSize :: "'m Mailbox \<Rightarrow> int" where
  "MbSize mb = mb_size mb"

definition IsClosed :: "'m Mailbox \<Rightarrow> bool" where
  "IsClosed mb = mb_closed mb"

subsection \<open>Calls of one goroutine\<close>

definition run_Send :: "'m Mailbox \<Rightarrow> 'm \<Rightarrow> 'm Mailbox \<times> 'm Send_pc" where
  "run_Send mb m =
     (case hd (Send_next mb (SCheck m)) of (mb1, pc1) \<Rightarrow>
      case hd (Send_next mb1 pc1) of (mb2, pc2) \<Rightarrow> hd (Send_next mb2 pc2))"

definition run_TryReceive :: "'m Mailbox \<Rightarrow> 'm Mailbox \<times> 'm TryReceive_pc" where
  "run_TryReceive mb =
     (case hd (TryReceive_next mb TCheck) of (mb1, pc1) \<Rightarrow>
      case hd (TryReceive_next mb1 pc1) of (mb2, pc2) \<Rightarrow> hd (TryReceive_next mb2 pc2))"

text \<open>The two calls as operations of a queue: a returned error is a refusal.\<close>

definition mb_enq :: "'m Mailbox \<Rightarrow> 'm \<Rightarrow> 'm Mailbox option" where
  "mb_enq mb m = (case run_Send mb m of (mb', SRet _ None) \<Rightarrow> Some mb' | _ \<Rightarrow> None)"

definition mb_deq :: "'m Mailbox \<Rightarrow> ('m \<times> 'm Mailbox) option" where
  "mb_deq mb = (case run_TryReceive mb of (mb', TRet (Some m)) \<Rightarrow> Some (m, mb') | _ \<Rightarrow> None)"

subsection \<open>Concurrent calls\<close>

record 'm MailboxSys =
  ms_mb :: "'m Mailbox"
  ms_send :: "'m Send_pc multiset"
  ms_recv :: "'m Receive_pc multiset"
  ms_try :: "'m TryReceive_pc multiset"
  ms_close :: "MbClose_pc multiset"
  ms_sent :: "'m list"
  ms_received :: "'m list"

definition mailbox_init :: "int \<Rightarrow> 'm MailboxSys \<Rightarrow> bool" where
  "mailbox_init capacity s \<longleftrightarrow>
     (\<exists>mb. NewBoundedMailbox capacity = Inr mb \<and>
        s = \<lparr>ms_mb = mb, ms_send = {#}, ms_recv = {#}, ms_try = {#}, ms_close = {#}, ms_sent = [], ms_received = []\<rparr>)"

text \<open>The histories record the moments at which a message enters and leaves the channel.\<close>

fun sent_by :: "'m Send_pc \<Rightarrow> 'm Send_pc \<Rightarrow> 'm list" where
  "sent_by (SSelect m) (SCount _) = [m]"
| "sent_by _ _ = []"

fun received_by :: "'m Receive_pc \<Rightarrow> 'm Receive_pc \<Rightarrow> 'm list" where
  "received_by VSelect (VCount m) = [m]"
| "received_by _ _ = []"

fun tried_by :: "'m TryReceive_pc \<Rightarrow> 'm TryReceive_pc \<Rightarrow> 'm list" where
  "tried_by TSelect (TCount m) = [m]"
| "tried_by _ _ = []"

inductive mailbox_step :: "'m MailboxSys \<Rightarrow> 'm MailboxSys \<Rightarrow> bool" where
  mb_call_send: "mailbox_step s (s\<lparr>ms_send := add_mset (SCheck m) (ms_send s)\<rparr>)"
| mb_call_receive: "mailbox_step s (s\<lparr>ms_recv := add_mset (VStart isnil) (ms_recv s)\<rparr>)"
| mb_call_try: "mailbox_step s (s\<lparr>ms_try := add_mset TCheck (ms_try s)\<rparr>)"
| mb_call_close: "mailbox_step s (s\<lparr>ms_close := add_mset KCas (ms_close s)\<rparr>)"
| mb_send: "ms_send s = add_mset pc M \<Longrightarrow> (mb, pc') \<in> set (Send_next (ms_mb s) pc) \<Longrightarrow>
     mailbox_step s (s\<lparr>ms_mb := mb, ms_send := add_mset pc' M, ms_sent := ms_sent s @ sent_by pc pc'\<rparr>)"
| mb_receive: "ms_recv s = add_mset pc M \<Longrightarrow> (mb, pc') \<in> set (Receive_next ctx (ms_mb s) pc) \<Longrightarrow>
     mailbox_step s (s\<lparr>ms_mb := mb, ms_recv := add_mset pc' M, ms_received := ms_received s @ received_by pc pc'\<rparr>)"
| mb_try: "ms_try s = add_mset pc M \<Longrightarrow> (mb, pc') \<in> set (TryReceive_next (ms_mb s) pc) \<Longrightarrow>
     mailbox_step s (s\<lparr>ms_mb := mb, ms_try := add_mset pc' M, ms_received := ms_received s @ tried_by pc pc'\<rparr>)"
| mb_close: "ms_close s = add_mset pc M \<Longrightarrow> (mb, pc') \<in> set (MbClose_next (ms_mb s) pc) \<Longrightarrow>
     mailbox_step s (s\<lparr>ms_mb := mb, ms_close := add_mset pc' M\<rparr>)"

subsection \<open>The invariant\<close>

fun is_SCount :: "'m Send_pc \<Rightarrow> bool" where
  "is_SCount (SCount _) = True"
| "is_SCount _ = False"

fun is_VCount :: "'m Receive_pc \<Rightarrow> bool" where
  "is_VCount (VCount _) = True"
| "is_VCount _ = False"

fun is_TCount :: "'m TryReceive_pc \<Rightarrow> bool" where
  "is_TCount (TCount _) = True"
| "is_TCount _ = False"

text \<open>
  The calls between their channel operation and their counter update account for the difference between
  the counter and the buffer; exactly one \<^verbatim>\<open>Close\<close> is between its swap and the closing of the channel.
\<close>

definition mailbox_inv :: "'m MailboxSys \<Rightarrow> bool" where
  "mailbox_inv s \<longleftrightarrow>
     (let mb = ms_mb s; ch = mb_ch mb in
      0 < mb_capacity mb \<and> chan_cap ch = nat (mb_capacity mb) \<and>
      ms_sent s = ms_received s @ chan_buf ch \<and> length (chan_buf ch) \<le> chan_cap ch \<and>
      (chan_closed ch \<longrightarrow> mb_closed mb) \<and>
      count (ms_close s) KClose = (if mb_closed mb \<and> \<not> chan_closed ch then 1 else 0) \<and>
      KPanic \<notin># ms_close s \<and>
      mb_size mb + int (size (filter_mset is_SCount (ms_send s))) =
        int (length (chan_buf ch)) + int (size (filter_mset is_VCount (ms_recv s)))
        + int (size (filter_mset is_TCount (ms_try s))))"

lemma mailbox_inv_init: "mailbox_init capacity s \<Longrightarrow> mailbox_inv s"
  by (auto simp: mailbox_init_def NewBoundedMailbox_def mailbox_inv_def make_chan_def split: if_splits)

lemma mailbox_inv_send:
  assumes "mailbox_inv s" "ms_send s = add_mset pc M" "(mb, pc') \<in> set (Send_next (ms_mb s) pc)"
  shows "mailbox_inv (s\<lparr>ms_mb := mb, ms_send := add_mset pc' M, ms_sent := ms_sent s @ sent_by pc pc'\<rparr>)"
proof (cases pc)
  case (SSelect m)
  then obtain r where "r \<in> set (select_send True False (mb_ch (ms_mb s)) m)"
    and r: "(mb, pc') = (case r of Sent ch \<Rightarrow> ((ms_mb s)\<lparr>mb_ch := ch\<rparr>, SCount m)
              | SentPanic \<Rightarrow> (ms_mb s, SPanic) | _ \<Rightarrow> (ms_mb s, SRet m (Some ErrMailboxFull)))"
    using assms(3) by auto
  note facts = this
  show ?thesis
    by (cases r) (use assms SSelect facts in \<open>simp_all add: mailbox_inv_def Let_def select_outcomes\<close>)
qed (use assms in \<open>simp_all add: mailbox_inv_def Let_def split: if_splits\<close>)

lemma mailbox_inv_receive:
  assumes "mailbox_inv s" "ms_recv s = add_mset pc M" "(mb, pc') \<in> set (Receive_next ctx (ms_mb s) pc)"
  shows "mailbox_inv (s\<lparr>ms_mb := mb, ms_recv := add_mset pc' M, ms_received := ms_received s @ received_by pc pc'\<rparr>)"
proof (cases pc)
  case VSelect
  then obtain r where r: "r \<in> set (select_recv False (ctx \<noteq> None) (mb_ch (ms_mb s)))"
    "(mb, pc') \<in> set (case r of
                Received (Some m) ch \<Rightarrow> [((ms_mb s)\<lparr>mb_ch := ch\<rparr>, VCount m)]
              | Received None ch \<Rightarrow> [((ms_mb s)\<lparr>mb_ch := ch\<rparr>, VRet (RecvErr ErrMailboxClosed))]
              | ReceivedDone \<Rightarrow> (case ctx of Some e \<Rightarrow> [(ms_mb s, VRet (RecvCtx e))] | None \<Rightarrow> [])
              | ReceivedDefault \<Rightarrow> [])"
    using assms(3) by auto
  show ?thesis
    by (cases r) (use assms(1,2) VSelect r in
        \<open>auto simp: mailbox_inv_def Let_def select_outcomes split: option.splits list.splits\<close>)
qed (use assms in \<open>simp_all add: mailbox_inv_def Let_def split: if_splits\<close>)

lemma mailbox_inv_try:
  assumes "mailbox_inv s" "ms_try s = add_mset pc M" "(mb, pc') \<in> set (TryReceive_next (ms_mb s) pc)"
  shows "mailbox_inv (s\<lparr>ms_mb := mb, ms_try := add_mset pc' M, ms_received := ms_received s @ tried_by pc pc'\<rparr>)"
proof (cases pc)
  case TSelect
  then obtain r where r: "r \<in> set (select_recv True False (mb_ch (ms_mb s)))"
    "(mb, pc') = (case r of
                Received (Some m) ch \<Rightarrow> ((ms_mb s)\<lparr>mb_ch := ch\<rparr>, TCount m)
              | Received None ch \<Rightarrow> ((ms_mb s)\<lparr>mb_ch := ch\<rparr>, TErr ErrMailboxClosed)
              | _ \<Rightarrow> (ms_mb s, TRet None))"
    using assms(3) by auto
  show ?thesis
    by (cases r) (use assms(1,2) TSelect r in
        \<open>auto simp: mailbox_inv_def Let_def select_outcomes split: option.splits list.splits\<close>)
qed (use assms in \<open>simp_all add: mailbox_inv_def Let_def split: if_splits\<close>)

lemma mailbox_inv_close:
  assumes "mailbox_inv s" "ms_close s = add_mset pc M" "(mb, pc') \<in> set (MbClose_next (ms_mb s) pc)"
  shows "mailbox_inv (s\<lparr>ms_mb := mb, ms_close := add_mset pc' M\<rparr>)"
  using assms by (cases pc) (simp_all add: mailbox_inv_def Let_def chan_close_def split: if_splits)

lemma mailbox_inv_step: "mailbox_step s s' \<Longrightarrow> mailbox_inv s \<Longrightarrow> mailbox_inv s'"
proof (induction rule: mailbox_step.induct)
  case (mb_send s pc M mb pc')
  then show ?case by (intro mailbox_inv_send)
next
  case (mb_receive s pc M mb pc' ctx)
  then show ?case by (intro mailbox_inv_receive)
next
  case (mb_try s pc M mb pc')
  then show ?case by (intro mailbox_inv_try)
next
  case (mb_close s pc M mb pc')
  then show ?case by (intro mailbox_inv_close)
qed (auto simp: mailbox_inv_def Let_def)

interpretation mailbox: inductive_invariant "mailbox_init capacity" mailbox_step mailbox_inv for capacity
  by unfold_locales (auto intro: mailbox_inv_init mailbox_inv_step)

subsection \<open>A mailbox used by one goroutine is a bounded queue\<close>

definition mb_open :: "'m Mailbox \<Rightarrow> bool" where
  "mb_open mb \<longleftrightarrow> \<not> mb_closed mb \<and> \<not> chan_closed (mb_ch mb) \<and> 0 < mb_capacity mb \<and>
     chan_cap (mb_ch mb) = nat (mb_capacity mb) \<and> length (chan_buf (mb_ch mb)) \<le> chan_cap (mb_ch mb) \<and>
     mb_size mb = int (length (chan_buf (mb_ch mb)))"

lemma mb_enq_open:
  "mb_open mb \<Longrightarrow> mb_enq mb m =
     (if length (chan_buf (mb_ch mb)) < chan_cap (mb_ch mb)
      then Some (mb\<lparr>mb_ch := (mb_ch mb)\<lparr>chan_buf := chan_buf (mb_ch mb) @ [m]\<rparr>, mb_size := mb_size mb + 1\<rparr>)
      else None)"
  by (auto simp: mb_enq_def run_Send_def mb_open_def select_send_def send_ready_def chan_send_def)

lemma mb_deq_open:
  "mb_open mb \<Longrightarrow> mb_deq mb =
     (case chan_buf (mb_ch mb) of
        [] \<Rightarrow> None
      | m # ms \<Rightarrow> Some (m, mb\<lparr>mb_ch := (mb_ch mb)\<lparr>chan_buf := ms\<rparr>, mb_size := mb_size mb - 1\<rparr>))"
  by (auto simp: mb_deq_def run_TryReceive_def mb_open_def select_recv_def recv_ready_def chan_recv_def
      split: list.splits)

interpretation mbq: fifo_queue mb_enq mb_deq "\<lambda>mb. chan_buf (mb_ch mb)" "\<lambda>mb. nat (mb_capacity mb)" mb_open
proof unfold_locales
  fix q q' :: "'m Mailbox" and x y
  assume q: "mb_open q"
  show "mb_enq q x = Some q' \<Longrightarrow> mb_open q' \<and> chan_buf (mb_ch q') = chan_buf (mb_ch q) @ [x] \<and>
      nat (mb_capacity q') = nat (mb_capacity q) \<and> length (chan_buf (mb_ch q)) < nat (mb_capacity q)"
    using q by (auto simp: mb_enq_open mb_open_def split: if_splits)
  show "mb_enq q x = None \<Longrightarrow> length (chan_buf (mb_ch q)) = nat (mb_capacity q)"
    using q by (auto simp: mb_enq_open mb_open_def split: if_splits)
  show "mb_deq q = Some (y, q') \<Longrightarrow> mb_open q' \<and> chan_buf (mb_ch q) = y # chan_buf (mb_ch q') \<and>
      nat (mb_capacity q') = nat (mb_capacity q)"
    using q by (auto simp: mb_deq_open mb_open_def split: list.splits)
  show "mb_deq q = None \<Longrightarrow> chan_buf (mb_ch q) = []"
    using q by (auto simp: mb_deq_open split: list.splits)
qed

subsection \<open>Properties\<close>

text \<open>
  C15. In every interleaving of concurrent calls the messages that entered the channel are the messages that
  left it followed by the buffer: delivery is first in, first out, without loss or duplication; the buffer
  never exceeds the capacity; \<^verbatim>\<open>Close\<close> never closes the channel twice; and whenever no call is between its
  channel operation and its counter update, \<^verbatim>\<open>Size\<close> is the number of buffered messages.
\<close>

theorem mailbox_fifo_exact:
  assumes "reach (mailbox_init capacity) mailbox_step s"
  shows "ms_sent s = ms_received s @ chan_buf (mb_ch (ms_mb s)) \<and>
     int (length (chan_buf (mb_ch (ms_mb s)))) \<le> Capacity (ms_mb s) \<and> KPanic \<notin># ms_close s \<and>
     (filter_mset is_SCount (ms_send s) = {#} \<and> filter_mset is_VCount (ms_recv s) = {#} \<and>
      filter_mset is_TCount (ms_try s) = {#} \<longrightarrow>
      MbSize (ms_mb s) = int (length (chan_buf (mb_ch (ms_mb s)))))"
proof (intro conjI impI)
  have inv: "mailbox_inv s" by (rule mailbox.reach_inv [OF assms])
  show "ms_sent s = ms_received s @ chan_buf (mb_ch (ms_mb s))" "KPanic \<notin># ms_close s"
    "int (length (chan_buf (mb_ch (ms_mb s)))) \<le> Capacity (ms_mb s)"
    using inv by (auto simp: mailbox_inv_def Let_def Capacity_def)
  assume "filter_mset is_SCount (ms_send s) = {#} \<and> filter_mset is_VCount (ms_recv s) = {#} \<and>
      filter_mset is_TCount (ms_try s) = {#}"
  then show "MbSize (ms_mb s) = int (length (chan_buf (mb_ch (ms_mb s))))"
    using inv unfolding mailbox_inv_def Let_def MbSize_def by (elim conjE) (simp only: size_empty of_nat_0 add_0_right)
qed

theorem mailbox_fifo_exact_witness:
  "\<exists>s :: nat MailboxSys. reach (mailbox_init 1) mailbox_step s \<and> ms_sent s = [7] \<and>
     filter_mset is_SCount (ms_send s) = {#} \<and> chan_buf (mb_ch (ms_mb s)) = [7] \<and> MbSize (ms_mb s) = 1"
proof -
  define mb :: "nat \<Rightarrow> nat list \<Rightarrow> nat Mailbox" where
    "mb n buf = \<lparr>mb_ch = \<lparr>chan_buf = buf, chan_cap = 1, chan_closed = False\<rparr>, mb_closed = False, mb_capacity = 1,
       mb_size = int n\<rparr>" for n buf
  define st :: "nat Mailbox \<Rightarrow> nat Send_pc multiset \<Rightarrow> nat list \<Rightarrow> nat MailboxSys" where
    "st mb ss sent = \<lparr>ms_mb = mb, ms_send = ss, ms_recv = {#}, ms_try = {#}, ms_close = {#}, ms_sent = sent,
       ms_received = []\<rparr>" for mb ss sent
  let ?R = "reach (mailbox_init 1) mailbox_step"
  have "?R (st (mb 0 []) {#} [])"
    by (rule reach_init) (simp add: mailbox_init_def NewBoundedMailbox_def mb_def st_def make_chan_def)
  then have "?R (st (mb 0 []) {#SCheck 7#} [])"
    by (rule reach_step) (use mb_call_send [of "st (mb 0 []) {#} []" 7] in \<open>simp add: st_def\<close>)
  then have "?R (st (mb 0 []) {#SSelect 7#} [])"
    by (rule reach_step) (use mb_send [of "st (mb 0 []) {#SCheck 7#} []" "SCheck 7" "{#}" "mb 0 []" "SSelect 7"] in
        \<open>simp add: st_def mb_def\<close>)
  then have "?R (st (mb 0 [7]) {#SCount 7#} [7])"
    by (rule reach_step) (use mb_send [of "st (mb 0 []) {#SSelect 7#} []" "SSelect 7" "{#}" "mb 0 [7]" "SCount 7"] in
        \<open>simp add: st_def mb_def select_send_def send_ready_def chan_send_def\<close>)
  then have r: "?R (st (mb 1 [7]) {#SRet 7 None#} [7])"
    by (rule reach_step) (use mb_send [of "st (mb 0 [7]) {#SCount 7#} [7]" "SCount 7" "{#}" "mb 1 [7]" "SRet 7 None"] in
        \<open>simp add: st_def mb_def\<close>)
  show ?thesis
    using mailbox_fifo_exact [OF r] r by (intro exI [of _ "st (mb 1 [7]) {#SRet 7 None#} [7]"]) (simp add: st_def mb_def)
qed

text \<open>
  C33. Used by one goroutine, with contexts that are not done and without \<^verbatim>\<open>Close\<close>, a new mailbox is a bounded queue: for every
  sequence of \<^verbatim>\<open>Send\<close> and \<^verbatim>\<open>TryReceive\<close>, each call has the result it has on a list of at most \<^verbatim>\<open>capacity\<close> messages, and the channel
  buffers the messages of that list. So \<^verbatim>\<open>Send\<close> is refused exactly when \<^verbatim>\<open>capacity\<close> messages are buffered, and \<^verbatim>\<open>TryReceive\<close>
  returns the oldest message, or none exactly when none is buffered.
\<close>

theorem mailbox_queue_run:
  assumes "NewBoundedMailbox capacity = Inr mb" and "queue_run mb_enq mb_deq mb ops = (results, mb')"
  shows "queue_run (list_enq (nat capacity)) list_deq [] ops = (results, chan_buf (mb_ch mb'))"
proof -
  have mb: "mb_open mb" "chan_buf (mb_ch mb) = []" "mb_capacity mb = capacity" "0 < capacity"
    using assms(1) by (auto simp: NewBoundedMailbox_def mb_open_def make_chan_def split: if_splits)
  show ?thesis
    using mbq.run_list [OF mb(1), of ops] assms(2) mb(2,3) by simp
qed

theorem mailbox_queue_run_witness:
  "\<exists>mb mb'. NewBoundedMailbox 1 = Inr mb \<and>
     queue_run mb_enq mb_deq mb [None, Some (7::nat), Some 8, None, Some 9] =
       ([WasEmpty, Accepted, WasFull, Delivered 7, Accepted], mb') \<and>
     queue_run (list_enq 1) list_deq [] [None, Some (7::nat), Some 8, None, Some 9] =
       ([WasEmpty, Accepted, WasFull, Delivered 7, Accepted], chan_buf (mb_ch mb'))"
proof -
  define mb :: "nat Mailbox" where
    "mb = \<lparr>mb_ch = make_chan 1, mb_closed = False, mb_capacity = 1, mb_size = 0\<rparr>"
  define mb' :: "nat Mailbox" where
    "mb' = \<lparr>mb_ch = \<lparr>chan_buf = [9], chan_cap = 1, chan_closed = False\<rparr>, mb_closed = False, mb_capacity = 1, mb_size = 1\<rparr>"
  have new: "NewBoundedMailbox 1 = Inr mb" by (simp add: NewBoundedMailbox_def mb_def)
  have run: "queue_run mb_enq mb_deq mb [None, Some 7, Some 8, None, Some 9] =
      ([WasEmpty, Accepted, WasFull, Delivered 7, Accepted], mb')"
    by (simp add: mb_def mb'_def make_chan_def mb_enq_def mb_deq_def run_Send_def run_TryReceive_def
        select_send_def select_recv_def send_ready_def recv_ready_def chan_send_def chan_recv_def)
  show ?thesis
    using new run mailbox_queue_run [OF new run] by (intro exI [of _ mb] exI [of _ mb']) simp
qed

text \<open>
  \<^verbatim>\<open>Send\<close> checks \<^verbatim>\<open>closed\<close> and sends in two separate actions. When \<^verbatim>\<open>Close\<close> runs in between, the send hits
  a closed channel and the sending goroutine panics.
\<close>

lemma mailbox_send_close_panics:
  "\<exists>s. reach (mailbox_init 1) mailbox_step s \<and> SPanic \<in># ms_send s"
proof -
  define mb :: "'a Mailbox" where
    "mb = \<lparr>mb_ch = make_chan 1, mb_closed = False, mb_capacity = 1, mb_size = 0\<rparr>"
  define st :: "'a Mailbox \<Rightarrow> 'a Send_pc multiset \<Rightarrow> MbClose_pc multiset \<Rightarrow> 'a MailboxSys" where
    "st mb ss cs = \<lparr>ms_mb = mb, ms_send = ss, ms_recv = {#}, ms_try = {#}, ms_close = cs, ms_sent = [], ms_received = []\<rparr>"
    for mb ss cs
  let ?R = "reach (mailbox_init 1) mailbox_step" and ?m = "undefined :: 'a"
  let ?mb1 = "mb\<lparr>mb_closed := True\<rparr>" and ?mb2 = "mb\<lparr>mb_closed := True, mb_ch := (mb_ch mb)\<lparr>chan_closed := True\<rparr>\<rparr>"
  have "?R (st mb {#} {#})"
    by (rule reach_init) (simp add: mailbox_init_def NewBoundedMailbox_def mb_def st_def)
  then have "?R (st mb {#SCheck ?m#} {#})"
    by (rule reach_step) (use mb_call_send [of "st mb {#} {#}" ?m] in \<open>simp add: st_def\<close>)
  then have "?R (st mb {#SSelect ?m#} {#})"
    by (rule reach_step) (use mb_send [of "st mb {#SCheck ?m#} {#}" "SCheck ?m" "{#}" mb "SSelect ?m"] in
        \<open>simp add: st_def mb_def\<close>)
  then have "?R (st mb {#SSelect ?m#} {#KCas#})"
    by (rule reach_step) (use mb_call_close [of "st mb {#SSelect ?m#} {#}"] in \<open>simp add: st_def\<close>)
  then have "?R (st ?mb1 {#SSelect ?m#} {#KClose#})"
    by (rule reach_step) (use mb_close [of "st mb {#SSelect ?m#} {#KCas#}" KCas "{#}" ?mb1 KClose] in
        \<open>simp add: st_def mb_def\<close>)
  then have "?R (st ?mb2 {#SSelect ?m#} {#KRet#})"
    by (rule reach_step) (use mb_close [of "st ?mb1 {#SSelect ?m#} {#KClose#}" KClose "{#}" ?mb2 KRet] in
        \<open>simp add: st_def mb_def make_chan_def chan_close_def\<close>)
  then have "?R (st ?mb2 {#SPanic#} {#KRet#})"
    by (rule reach_step) (use mb_send [of "st ?mb2 {#SSelect ?m#} {#KRet#}" "SSelect ?m" "{#}" ?mb2 SPanic] in
        \<open>simp add: st_def mb_def make_chan_def select_send_def send_ready_def chan_send_def\<close>)
  then show ?thesis
    by (intro exI conjI) (auto simp: st_def)
qed

end
