(* ===== verification/Executor.thy ===== *)
theory Executor
  imports Mailbox
begin

text \<open>
  The task executor of \<^verbatim>\<open>pkg/core/concurrency/executor_impl.go\<close>: a task channel, worker goroutines, and a
  read-write lock that keeps \<^verbatim>\<open>Submit\<close> and \<^verbatim>\<open>Shutdown\<close> apart. Calls are program counters as in theory Mailbox;
  the lock is its number of readers and whether a writer holds it. Tasks are opaque; \<^verbatim>\<open>Execute\<close> is recorded in a
  history.

  The results: \<^verbatim>\<open>Submit\<close> never sends on a closed channel, whatever \<^verbatim>\<open>Shutdown\<close> does; every accepted task either waits,
  is with one worker or was executed once, nothing else is executed, and one worker executes in submission order;
  \<^verbatim>\<open>SubmitBatch\<close>, which takes no lock, can send on a closed channel; and \<^verbatim>\<open>Shutdown\<close> can report success while an
  accepted task is never executed.
\<close>

subsection \<open>Data\<close>

datatype ex_error =
    TaskNil | TimeoutNotPositive | ExClosed | ExFull | SubmitTimeout int | ExCtx ctx_err | ShutdownTimeout ctx_err

record ExecutorConfig =
  ec_Workers :: int
  ec_QueueSize :: int

definition DefaultExecutorConfig :: ExecutorConfig where
  "DefaultExecutorConfig = \<lparr>ec_Workers = 10, ec_QueueSize = 1000\<rparr>"

record 't Executor =
  ex_chan :: "'t chan"
  ex_workers :: int
  ex_queueSize :: int
  ex_ctx :: "ctx_err option"
  ex_closed :: bool
  ex_readers :: nat
  ex_writer :: bool
  ex_queued :: int
  ex_completed :: int
  ex_rejected :: int

text \<open>\<open>None\<close> is the call with a \<^verbatim>\<open>nil\<close> context, which panics; \<open>Some err\<close> is a context whose \<^verbatim>\<open>Err()\<close> is \<open>err\<close>.\<close>

definition NewExecutor :: "ctx_err option option \<Rightarrow> ExecutorConfig \<Rightarrow> string + 't Executor" where
  "NewExecutor ctx config =
     (case ctx of
        None \<Rightarrow> Inl ''fail-fast: context cannot be nil''
      | Some err \<Rightarrow>
          let workers = (if ec_Workers config < 1 then 1 else ec_Workers config);
              queueSize = (if ec_QueueSize config < 1 then 100 else ec_QueueSize config)
          in Inr \<lparr>ex_chan = make_chan (nat queueSize), ex_workers = workers, ex_queueSize = queueSize, ex_ctx = err,
                  ex_closed = False, ex_readers = 0, ex_writer = False, ex_queued = 0, ex_completed = 0,
                  ex_rejected = 0\<rparr>)"

subsection \<open>Submit and SubmitWithTimeout\<close>

text \<open>The second component is the timeout; \<open>None\<close> is \<^verbatim>\<open>Submit\<close>, whose \<^verbatim>\<open>select\<close> has a \<^verbatim>\<open>default\<close> case.\<close>

datatype 't Submit_pc =
    ULock 't "int option" | UCheck 't "int option" | USelect 't "int option" | UCount 't | UReject ex_error
  | UUnlock "ex_error option" | URet "ex_error option" | UPanic

definition Submit :: "'t option \<Rightarrow> 't Submit_pc" where
  "Submit task = (case task of None \<Rightarrow> URet (Some TaskNil) | Some t \<Rightarrow> ULock t None)"

definition SubmitWithTimeout :: "'t option \<Rightarrow> int \<Rightarrow> 't Submit_pc" where
  "SubmitWithTimeout task timeout =
     (case task of
        None \<Rightarrow> URet (Some TaskNil)
      | Some t \<Rightarrow> if timeout \<le> 0 then URet (Some TimeoutNotPositive) else ULock t (Some timeout))"

text \<open>
  \<open>fired\<close> says whether the timer of \<^verbatim>\<open>time.After\<close> has fired at the moment of the step. The deferred unlock also runs
  when the send panics.
\<close>

fun Submit_next :: "bool \<Rightarrow> 't Executor \<Rightarrow> 't Submit_pc \<Rightarrow> ('t Executor \<times> 't Submit_pc) list" where
  "Submit_next fired e (ULock t to) =
     (if ex_writer e then [] else [(e\<lparr>ex_readers := ex_readers e + 1\<rparr>, UCheck t to)])"
| "Submit_next fired e (UCheck t to) = [(e, if ex_closed e then UUnlock (Some ExClosed) else USelect t to)]"
| "Submit_next fired e (USelect t to) =
     map (\<lambda>r. case r of
                Sent ch \<Rightarrow> (e\<lparr>ex_chan := ch\<rparr>, UCount t)
              | SentPanic \<Rightarrow> (e\<lparr>ex_readers := ex_readers e - 1\<rparr>, UPanic)
              | SentDone \<Rightarrow> (e, UUnlock (map_option ExCtx (ex_ctx e)))
              | SentDefault \<Rightarrow> (e, UReject ExFull))
         (select_send (to = None) (ex_ctx e \<noteq> None) (ex_chan e) t)
     @ (case to of Some d \<Rightarrow> if fired then [(e, UReject (SubmitTimeout d))] else [] | None \<Rightarrow> [])"
| "Submit_next fired e (UCount t) = [(e\<lparr>ex_queued := ex_queued e + 1\<rparr>, UUnlock None)]"
| "Submit_next fired e (UReject err) = [(e\<lparr>ex_rejected := ex_rejected e + 1\<rparr>, UUnlock (Some err))]"
| "Submit_next fired e (UUnlock r) = [(e\<lparr>ex_readers := ex_readers e - 1\<rparr>, URet r)]"
| "Submit_next fired e (URet r) = [(e, URet r)]"
| "Submit_next fired e UPanic = [(e, UPanic)]"

subsection \<open>SubmitBatch\<close>

text \<open>\<open>BLoop rest submitted n\<close>: the loop over the remaining tasks of a batch of \<open>n\<close>.\<close>

datatype 't Batch_pc =
    BStart "'t option list" | BLoop "'t option list" int int | BCount "'t option list" int int
  | BReject int ex_error | BRet "ex_error option" | BPanic

fun SubmitBatch_next :: "'t Executor \<Rightarrow> 't Batch_pc \<Rightarrow> ('t Executor \<times> 't Batch_pc) list" where
  "SubmitBatch_next e (BStart tasks) =
     [(e, if tasks = [] then BRet None
          else if ex_closed e then BRet (Some ExClosed)
          else BLoop tasks 0 (int (length tasks)))]"
| "SubmitBatch_next e (BLoop [] submitted n) = [(e, BRet None)]"
| "SubmitBatch_next e (BLoop (None # rest) submitted n) = [(e, BLoop rest submitted n)]"
| "SubmitBatch_next e (BLoop (Some t # rest) submitted n) =
     concat (map (\<lambda>r. case r of
                Sent ch \<Rightarrow> [(e\<lparr>ex_chan := ch\<rparr>, BCount rest submitted n)]
              | SentPanic \<Rightarrow> [(e, BPanic)]
              | SentDone \<Rightarrow> (case ex_ctx e of Some err \<Rightarrow> [(e, BReject (n - submitted) (ExCtx err))] | None \<Rightarrow> [])
              | SentDefault \<Rightarrow> [(e, BReject (n - submitted) ExFull)])
         (select_send True (ex_ctx e \<noteq> None) (ex_chan e) t))"
| "SubmitBatch_next e (BCount rest submitted n) =
     [(e\<lparr>ex_queued := ex_queued e + 1\<rparr>, BLoop rest (submitted + 1) n)]"
| "SubmitBatch_next e (BReject k err) = [(e\<lparr>ex_rejected := ex_rejected e + k\<rparr>, BRet (Some err))]"
| "SubmitBatch_next e (BRet r) = [(e, BRet r)]"
| "SubmitBatch_next e BPanic = [(e, BPanic)]"

subsection \<open>Workers and Shutdown\<close>

datatype 't worker_pc = WSelect | WDec 't | WExec 't | WDone 't | WStopped

fun worker_next :: "'t Executor \<Rightarrow> 't worker_pc \<Rightarrow> ('t Executor \<times> 't worker_pc) list" where
  "worker_next e WSelect =
     map (\<lambda>r. case r of
                Received (Some t) ch \<Rightarrow> (e\<lparr>ex_chan := ch\<rparr>, WDec t)
              | _ \<Rightarrow> (e, WStopped))
         (select_recv False (ex_ctx e \<noteq> None) (ex_chan e))"
| "worker_next e (WDec t) = [(e\<lparr>ex_queued := ex_queued e - 1\<rparr>, WExec t)]"
| "worker_next e (WExec t) = [(e, WDone t)]"
| "worker_next e (WDone t) = [(e\<lparr>ex_completed := ex_completed e + 1\<rparr>, WSelect)]"
| "worker_next e WStopped = [(e, WStopped)]"

datatype Shutdown_pc =
    HStart bool | HCas | HLock | HCancel | HClose | HUnlock | HWait | HRet "ex_error option" | HNilPanic | HClosePanic

text \<open>
  The last wait is given whether all workers have stopped (\<open>idle\<close>) and the error of the caller's context; both
  may change while the call waits.
\<close>

fun Shutdown_next ::
  "bool \<Rightarrow> ctx_err option \<Rightarrow> 't Executor \<Rightarrow> Shutdown_pc \<Rightarrow> ('t Executor \<times> Shutdown_pc) list" where
  "Shutdown_next idle ctx e (HStart isnil) = [(e, if isnil then HNilPanic else HCas)]"
| "Shutdown_next idle ctx e HCas = [if ex_closed e then (e, HRet None) else (e\<lparr>ex_closed := True\<rparr>, HLock)]"
| "Shutdown_next idle ctx e HLock =
     (if ex_readers e = 0 \<and> \<not> ex_writer e then [(e\<lparr>ex_writer := True\<rparr>, HCancel)] else [])"
| "Shutdown_next idle ctx e HCancel =
     [(e\<lparr>ex_ctx := (case ex_ctx e of None \<Rightarrow> Some Canceled | Some err \<Rightarrow> Some err)\<rparr>, HClose)]"
| "Shutdown_next idle ctx e HClose =
     [case chan_close (ex_chan e) of None \<Rightarrow> (e, HClosePanic) | Some ch \<Rightarrow> (e\<lparr>ex_chan := ch\<rparr>, HUnlock)]"
| "Shutdown_next idle ctx e HUnlock = [(e\<lparr>ex_writer := False\<rparr>, HWait)]"
| "Shutdown_next idle ctx e HWait =
     (if idle then [(e, HRet None)] else []) @
     (case ctx of Some err \<Rightarrow> [(e, HRet (Some (ShutdownTimeout err)))] | None \<Rightarrow> [])"
| "Shutdown_next idle ctx e (HRet r) = [(e, HRet r)]"
| "Shutdown_next idle ctx e HNilPanic = [(e, HNilPanic)]"
| "Shutdown_next idle ctx e HClosePanic = [(e, HClosePanic)]"

record ExecutorStats =
  st_QueuedTasks :: int
  st_ActiveWorkers :: int
  st_CompletedTasks :: int
  st_RejectedTasks :: int
  st_QueueCapacity :: int
  st_QueueUtilization :: rat

definition Executor_Stats :: "'t Executor \<Rightarrow> ExecutorStats" where
  "Executor_Stats e =
     (let u = of_int (ex_queued e) / of_int (ex_queueSize e) * 100; u' = (if u > 100 then 100 else u) in
      \<lparr>st_QueuedTasks = ex_queued e, st_ActiveWorkers = ex_workers e, st_CompletedTasks = ex_completed e,
       st_RejectedTasks = ex_rejected e, st_QueueCapacity = ex_queueSize e, st_QueueUtilization = u'\<rparr>)"

subsection \<open>The system\<close>

record 't ExecSys =
  es_ex :: "'t Executor"
  es_submit :: "'t Submit_pc multiset"
  es_batch :: "'t Batch_pc multiset"
  es_work :: "'t worker_pc multiset"
  es_shut :: "Shutdown_pc multiset"
  es_accepted :: "'t list"
  es_taken :: "'t list"
  es_executed :: "'t list"

definition exec_init :: "ExecutorConfig \<Rightarrow> 't ExecSys \<Rightarrow> bool" where
  "exec_init config s \<longleftrightarrow>
     (\<exists>err e. NewExecutor (Some err) config = Inr e \<and>
        s = \<lparr>es_ex = e, es_submit = {#}, es_batch = {#}, es_work = replicate_mset (nat (ex_workers e)) WSelect,
             es_shut = {#}, es_accepted = [], es_taken = [], es_executed = []\<rparr>)"

fun submitted_by :: "'t Submit_pc \<Rightarrow> 't Submit_pc \<Rightarrow> 't list" where
  "submitted_by (USelect t to) (UCount _) = [t]"
| "submitted_by _ _ = []"

fun batched_by :: "'t Batch_pc \<Rightarrow> 't Batch_pc \<Rightarrow> 't list" where
  "batched_by (BLoop (Some t # rest) _ _) (BCount _ _ _) = [t]"
| "batched_by _ _ = []"

fun taken_by :: "'t worker_pc \<Rightarrow> 't worker_pc \<Rightarrow> 't list" where
  "taken_by WSelect (WDec t) = [t]"
| "taken_by _ _ = []"

fun executed_by :: "'t worker_pc \<Rightarrow> 't list" where
  "executed_by (WExec t) = [t]"
| "executed_by _ = []"

definition all_stopped :: "'t worker_pc multiset \<Rightarrow> bool" where
  "all_stopped M \<longleftrightarrow> (\<forall>pc \<in># M. pc = WStopped)"

inductive exec_step :: "'t ExecSys \<Rightarrow> 't ExecSys \<Rightarrow> bool" where
  x_call_submit: "exec_step s (s\<lparr>es_submit := add_mset (Submit task) (es_submit s)\<rparr>)"
| x_call_timeout: "exec_step s (s\<lparr>es_submit := add_mset (SubmitWithTimeout task d) (es_submit s)\<rparr>)"
| x_call_batch: "exec_step s (s\<lparr>es_batch := add_mset (BStart tasks) (es_batch s)\<rparr>)"
| x_call_shutdown: "exec_step s (s\<lparr>es_shut := add_mset (HStart isnil) (es_shut s)\<rparr>)"
| x_submit: "es_submit s = add_mset pc M \<Longrightarrow> (e, pc') \<in> set (Submit_next fired (es_ex s) pc) \<Longrightarrow>
     exec_step s (s\<lparr>es_ex := e, es_submit := add_mset pc' M, es_accepted := es_accepted s @ submitted_by pc pc'\<rparr>)"
| x_batch: "es_batch s = add_mset pc M \<Longrightarrow> (e, pc') \<in> set (SubmitBatch_next (es_ex s) pc) \<Longrightarrow>
     exec_step s (s\<lparr>es_ex := e, es_batch := add_mset pc' M, es_accepted := es_accepted s @ batched_by pc pc'\<rparr>)"
| x_work: "es_work s = add_mset pc M \<Longrightarrow> (e, pc') \<in> set (worker_next (es_ex s) pc) \<Longrightarrow>
     exec_step s (s\<lparr>es_ex := e, es_work := add_mset pc' M, es_taken := es_taken s @ taken_by pc pc',
        es_executed := es_executed s @ executed_by pc\<rparr>)"
| x_shutdown: "es_shut s = add_mset pc M \<Longrightarrow>
     (e, pc') \<in> set (Shutdown_next (all_stopped (es_work s)) ctx (es_ex s) pc) \<Longrightarrow>
     exec_step s (s\<lparr>es_ex := e, es_shut := add_mset pc' M\<rparr>)"
| x_parent_cancel: "ex_ctx (es_ex s) = None \<Longrightarrow> exec_step s (s\<lparr>es_ex := (es_ex s)\<lparr>ex_ctx := Some err\<rparr>\<rparr>)"

subsection \<open>The lock protocol\<close>

fun in_read :: "'t Submit_pc \<Rightarrow> bool" where
  "in_read (UCheck _ _) = True"
| "in_read (USelect _ _) = True"
| "in_read (UCount _) = True"
| "in_read (UReject _) = True"
| "in_read (UUnlock _) = True"
| "in_read _ = False"

fun sending :: "'t Submit_pc \<Rightarrow> bool" where
  "sending (USelect _ _) = True"
| "sending _ = False"

fun in_write :: "Shutdown_pc \<Rightarrow> bool" where
  "in_write HCancel = True"
| "in_write HClose = True"
| "in_write HUnlock = True"
| "in_write _ = False"

fun closing :: "Shutdown_pc \<Rightarrow> bool" where
  "closing HLock = True"
| "closing HCancel = True"
| "closing HClose = True"
| "closing _ = False"

definition lock_inv :: "'t ExecSys \<Rightarrow> bool" where
  "lock_inv s \<longleftrightarrow>
     (let e = es_ex s; closed = chan_closed (ex_chan e) in
      ex_readers e = count_if in_read (es_submit s) \<and>
      count_if in_write (es_shut s) = of_bool (ex_writer e) \<and>
      (ex_writer e \<longrightarrow> ex_readers e = 0) \<and>
      count_if closing (es_shut s) = of_bool (ex_closed e \<and> \<not> closed) \<and>
      (closed \<longrightarrow> ex_closed e \<and> count_if sending (es_submit s) = 0) \<and>
      UPanic \<notin># es_submit s \<and> HClosePanic \<notin># es_shut s)"

lemma lock_inv_init: "exec_init config s \<Longrightarrow> lock_inv s"
  by (auto simp: exec_init_def NewExecutor_def Let_def make_chan_def lock_inv_def)

lemma Submit_select_cases:
  assumes "(e, pc') \<in> set (Submit_next fired e0 (USelect t to))"
  shows "(e = e0\<lparr>ex_chan := (ex_chan e0)\<lparr>chan_buf := chan_buf (ex_chan e0) @ [t]\<rparr>\<rparr> \<and> pc' = UCount t \<and>
           \<not> chan_closed (ex_chan e0) \<and> length (chan_buf (ex_chan e0)) < chan_cap (ex_chan e0)) \<or>
         (e = e0\<lparr>ex_readers := ex_readers e0 - 1\<rparr> \<and> pc' = UPanic \<and> chan_closed (ex_chan e0)) \<or>
         (e = e0 \<and> (\<exists>r. pc' = UUnlock r)) \<or> (e = e0 \<and> (\<exists>err. pc' = UReject err))"
proof -
  let ?sel = "select_send (to = None) (ex_ctx e0 \<noteq> None) (ex_chan e0) t"
  let ?out = "\<lambda>r. case r of Sent ch \<Rightarrow> (e0\<lparr>ex_chan := ch\<rparr>, UCount t) | SentPanic \<Rightarrow> (e0\<lparr>ex_readers := ex_readers e0 - 1\<rparr>, UPanic)
     | SentDone \<Rightarrow> (e0, UUnlock (map_option ExCtx (ex_ctx e0))) | SentDefault \<Rightarrow> (e0, UReject ExFull)"
  consider (timer) d where "(e, pc') = (e0, UReject (SubmitTimeout d))"
    | (sel) r where "r \<in> set ?sel" "(e, pc') = ?out r"
    using assms by (cases to; cases fired) (auto simp del: One_nat_def)
  then show ?thesis
  proof cases
    case sel
    show ?thesis by (cases r) (use sel in \<open>simp_all add: select_outcomes\<close>)
  qed simp
qed

lemma Batch_select_cases:
  assumes "(e, pc') \<in> set (SubmitBatch_next e0 (BLoop (Some t # rest) k n))"
  shows "(e = e0\<lparr>ex_chan := (ex_chan e0)\<lparr>chan_buf := chan_buf (ex_chan e0) @ [t]\<rparr>\<rparr> \<and> pc' = BCount rest k n \<and>
           \<not> chan_closed (ex_chan e0) \<and> length (chan_buf (ex_chan e0)) < chan_cap (ex_chan e0)) \<or>
         (e = e0 \<and> (\<exists>m err. pc' = BReject m err)) \<or> (e = e0 \<and> pc' = BPanic)"
proof -
  obtain r where r: "r \<in> set (select_send True (ex_ctx e0 \<noteq> None) (ex_chan e0) t)"
    "(e, pc') \<in> set (case r of Sent ch \<Rightarrow> [(e0\<lparr>ex_chan := ch\<rparr>, BCount rest k n)] | SentPanic \<Rightarrow> [(e0, BPanic)]
      | SentDone \<Rightarrow> (case ex_ctx e0 of Some err \<Rightarrow> [(e0, BReject (n - k) (ExCtx err))] | None \<Rightarrow> [])
      | SentDefault \<Rightarrow> [(e0, BReject (n - k) ExFull)])"
    using assms by auto
  show ?thesis
    by (cases r; cases "ex_ctx e0") (use r in \<open>auto simp: select_outcomes\<close>)
qed

lemma worker_select_cases:
  assumes "(e, pc') \<in> set (worker_next e0 WSelect)"
  shows "(\<exists>t ts. chan_buf (ex_chan e0) = t # ts \<and> e = e0\<lparr>ex_chan := (ex_chan e0)\<lparr>chan_buf := ts\<rparr>\<rparr> \<and> pc' = WDec t) \<or>
         (e = e0 \<and> pc' = WStopped)"
proof -
  obtain r where r: "r \<in> set (select_recv False (ex_ctx e0 \<noteq> None) (ex_chan e0))"
    "(e, pc') = (case r of Received (Some t) ch \<Rightarrow> (e0\<lparr>ex_chan := ch\<rparr>, WDec t) | _ \<Rightarrow> (e0, WStopped))"
    using assms by auto
  show ?thesis
    by (cases r) (use r in \<open>auto simp: select_outcomes split: list.splits option.splits\<close>)
qed

text \<open>From here on the \<^verbatim>\<open>select\<close> steps are used through these case lemmas only.\<close>

declare Submit_next.simps(3) [simp del] SubmitBatch_next.simps(4) [simp del] worker_next.simps(1) [simp del]

lemmas select_cases = Submit_select_cases Batch_select_cases worker_select_cases

lemma submit_keeps:
  assumes "(e, pc') \<in> set (Submit_next fired e0 pc)"
  shows "ex_writer e = ex_writer e0 \<and> ex_closed e = ex_closed e0 \<and>
    chan_closed (ex_chan e) = chan_closed (ex_chan e0)"
  using assms by (induction fired e0 pc rule: Submit_next.induct) (auto dest!: select_cases split: if_splits)

lemma submit_readers:
  assumes "(e, pc') \<in> set (Submit_next fired e0 pc)" "in_read pc \<longrightarrow> 0 < ex_readers e0"
  shows "ex_readers e + of_bool (in_read pc) = ex_readers e0 + of_bool (in_read pc')"
    "ex_writer e0 \<Longrightarrow> \<not> in_read pc \<Longrightarrow> \<not> in_read pc'"
  using assms by (induction fired e0 pc rule: Submit_next.induct) (auto dest!: select_cases split: if_splits)

lemma submit_sending:
  assumes "(e, pc') \<in> set (Submit_next fired e0 pc)"
  shows "sending pc' \<Longrightarrow> \<not> ex_closed e0"
    "pc' = UPanic \<Longrightarrow> pc = UPanic \<or> sending pc \<and> chan_closed (ex_chan e0)"
  using assms by (induction fired e0 pc rule: Submit_next.induct) (auto dest!: select_cases split: if_splits)

lemma sending_in_read: "sending pc \<Longrightarrow> in_read pc"
  by (cases pc) auto

lemma count_sending_le: "count_if sending M \<le> count_if in_read M"
  by (induction M) (auto dest: sending_in_read)

lemma lock_inv_submit:
  assumes inv: "lock_inv s" and M: "es_submit s = add_mset pc M"
    and st: "(e, pc') \<in> set (Submit_next fired (es_ex s) pc)"
  shows "lock_inv (s\<lparr>es_ex := e, es_submit := add_mset pc' M, es_accepted := l\<rparr>)"
proof -
  let ?e = "es_ex s"
  have r: "ex_readers ?e = of_bool (in_read pc) + count_if in_read M"
    and x: "ex_writer ?e \<longrightarrow> ex_readers ?e = 0"
    and k: "chan_closed (ex_chan ?e) \<longrightarrow> ex_closed ?e \<and> \<not> sending pc \<and> count_if sending M = 0"
    and p: "pc \<noteq> UPanic"
    using inv M by (auto simp: lock_inv_def Let_def)
  have pos: "in_read pc \<longrightarrow> 0 < ex_readers ?e" using r by auto
  note keeps = submit_keeps [OF st] submit_readers [OF st pos] submit_sending [OF st]
  have "ex_readers e = of_bool (in_read pc') + count_if in_read M"
    using keeps(2) r by auto
  moreover have "ex_writer e \<longrightarrow> ex_readers e = 0"
    using keeps(1-3) r x by auto
  moreover have "chan_closed (ex_chan e) \<longrightarrow> ex_closed e \<and> \<not> sending pc' \<and> count_if sending M = 0"
    using keeps(1,4) k by auto
  moreover have "pc' \<noteq> UPanic" using keeps(5) k p by auto
  ultimately show ?thesis
    using inv M keeps(1) by (auto simp: lock_inv_def Let_def)
qed

lemma lock_inv_shutdown:
  assumes inv: "lock_inv s" and M: "es_shut s = add_mset pc M"
    and st: "(e, pc') \<in> set (Shutdown_next idle ctx (es_ex s) pc)"
  shows "lock_inv (s\<lparr>es_ex := e, es_shut := add_mset pc' M\<rparr>)"
proof -
  let ?e = "es_ex s"
  have w: "of_bool (in_write pc) + count_if in_write M = of_bool (ex_writer ?e)"
    and c: "of_bool (closing pc) + count_if closing M = of_bool (ex_closed ?e \<and> \<not> chan_closed (ex_chan ?e))"
    and x: "ex_writer ?e \<longrightarrow> ex_readers ?e = 0" and r: "ex_readers ?e = count_if in_read (es_submit s)"
    and k: "chan_closed (ex_chan ?e) \<longrightarrow> ex_closed ?e \<and> count_if sending (es_submit s) = 0"
    and p: "UPanic \<notin># es_submit s" "HClosePanic \<notin># M" "pc \<noteq> HClosePanic"
    using inv M by (auto simp: lock_inv_def Let_def)
  show ?thesis
  proof (cases pc)
    case HClose
    have "ex_writer ?e" "ex_closed ?e \<and> \<not> chan_closed (ex_chan ?e)"
      using w c HClose by (auto simp: of_bool_def split: if_splits)
    moreover have "count_if sending (es_submit s) = 0"
      using count_sending_le [of "es_submit s"] x r calculation(1) by simp
    ultimately show ?thesis
      using w c x r p st HClose by (simp add: lock_inv_def Let_def chan_close_def)
  next
    case HUnlock
    have "ex_writer ?e" "count_if in_write M = 0"
      using w HUnlock by (auto simp: of_bool_def split: if_splits)
    then show ?thesis
      using c x r k p st HUnlock by (auto simp: lock_inv_def Let_def)
  qed (use w c x r k p st in \<open>auto simp: lock_inv_def Let_def split: if_splits option.splits\<close>)
qed

lemma batch_keeps:
  assumes "(e, pc') \<in> set (SubmitBatch_next e0 pc)"
  shows "ex_readers e = ex_readers e0 \<and> ex_writer e = ex_writer e0 \<and> ex_closed e = ex_closed e0 \<and>
     chan_closed (ex_chan e) = chan_closed (ex_chan e0)"
  using assms by (induction e0 pc rule: SubmitBatch_next.induct) (auto dest!: select_cases)

lemma worker_keeps:
  assumes "(e, pc') \<in> set (worker_next e0 pc)"
  shows "ex_readers e = ex_readers e0 \<and> ex_writer e = ex_writer e0 \<and> ex_closed e = ex_closed e0 \<and>
     chan_closed (ex_chan e) = chan_closed (ex_chan e0)"
  using assms by (induction e0 pc rule: worker_next.induct) (auto dest!: select_cases)

lemma lock_inv_step: "exec_step s s' \<Longrightarrow> lock_inv s \<Longrightarrow> lock_inv s'"
proof (induction rule: exec_step.induct)
  case (x_submit s pc M e pc' fired)
  then show ?case by (intro lock_inv_submit)
next
  case (x_shutdown s pc M e pc' ctx)
  then show ?case by (intro lock_inv_shutdown)
next
  case (x_batch s pc M e pc')
  then show ?case using batch_keeps [OF x_batch(2)] by (auto simp: lock_inv_def Let_def)
next
  case (x_work s pc M e pc')
  then show ?case using worker_keeps [OF x_work(2)] by (auto simp: lock_inv_def Let_def)
qed (auto simp: lock_inv_def Let_def Submit_def SubmitWithTimeout_def split: option.splits)

interpretation exec_lock: inductive_invariant "exec_init config" exec_step lock_inv for config
  by unfold_locales (auto intro: lock_inv_init lock_inv_step)

subsection \<open>The queue and the workers\<close>

fun inprog :: "'t worker_pc \<Rightarrow> 't list" where
  "inprog (WDec t) = [t]"
| "inprog (WExec t) = [t]"
| "inprog _ = []"

definition queue_inv :: "'t ExecSys \<Rightarrow> bool" where
  "queue_inv s \<longleftrightarrow>
     (let e = es_ex s; ch = ex_chan e in
      es_accepted s = es_taken s @ chan_buf ch \<and> length (chan_buf ch) \<le> chan_cap ch \<and>
      0 < ex_queueSize e \<and> chan_cap ch = nat (ex_queueSize e))"

definition work_inv :: "'t ExecSys \<Rightarrow> bool" where
  "work_inv s \<longleftrightarrow> size (es_work s) = nat (ex_workers (es_ex s)) \<and>
     mset (es_taken s) = mset (es_executed s) + (\<Sum>pc \<in># es_work s. mset (inprog pc)) \<and>
     (\<forall>pc. es_work s = {#pc#} \<longrightarrow> es_taken s = es_executed s @ inprog pc)"

lemma queue_inv_init: "exec_init config s \<Longrightarrow> queue_inv s"
  by (auto simp: exec_init_def NewExecutor_def Let_def make_chan_def queue_inv_def)

lemma work_inv_init: "exec_init config s \<Longrightarrow> work_inv s"
  by (auto simp: exec_init_def NewExecutor_def Let_def work_inv_def)
    (metis inprog.simps(3) in_replicate_mset union_single_eq_member)+

lemma submit_queue:
  assumes "(e, pc') \<in> set (Submit_next fired e0 pc)"
  shows "ex_queueSize e = ex_queueSize e0 \<and> chan_cap (ex_chan e) = chan_cap (ex_chan e0) \<and>
    chan_buf (ex_chan e) = chan_buf (ex_chan e0) @ submitted_by pc pc' \<and> ex_workers e = ex_workers e0 \<and>
    (submitted_by pc pc' \<noteq> [] \<longrightarrow> length (chan_buf (ex_chan e)) \<le> chan_cap (ex_chan e0))"
  using assms by (induction fired e0 pc rule: Submit_next.induct) (auto dest!: select_cases split: if_splits)

lemma batch_queue:
  assumes "(e, pc') \<in> set (SubmitBatch_next e0 pc)"
  shows "ex_queueSize e = ex_queueSize e0 \<and> chan_cap (ex_chan e) = chan_cap (ex_chan e0) \<and>
    chan_buf (ex_chan e) = chan_buf (ex_chan e0) @ batched_by pc pc' \<and> ex_workers e = ex_workers e0 \<and>
    (batched_by pc pc' \<noteq> [] \<longrightarrow> length (chan_buf (ex_chan e)) \<le> chan_cap (ex_chan e0))"
  using assms by (induction e0 pc rule: SubmitBatch_next.induct) (auto dest!: select_cases split: if_splits)

lemma worker_queue:
  assumes "(e, pc') \<in> set (worker_next e0 pc)"
  shows "ex_queueSize e = ex_queueSize e0 \<and> chan_cap (ex_chan e) = chan_cap (ex_chan e0) \<and>
    chan_buf (ex_chan e0) = taken_by pc pc' @ chan_buf (ex_chan e) \<and> ex_workers e = ex_workers e0 \<and>
    inprog pc @ taken_by pc pc' = executed_by pc @ inprog pc'"
  using assms by (induction e0 pc rule: worker_next.induct) (auto dest!: select_cases)

lemma shutdown_queue:
  assumes "(e, pc') \<in> set (Shutdown_next idle ctx e0 pc)"
  shows "ex_queueSize e = ex_queueSize e0 \<and> chan_cap (ex_chan e) = chan_cap (ex_chan e0) \<and>
    chan_buf (ex_chan e) = chan_buf (ex_chan e0) \<and> ex_workers e = ex_workers e0"
  using assms
  by (induction idle ctx e0 pc rule: Shutdown_next.induct)
    (auto simp: chan_close_def split: if_splits option.splits)

lemma queue_inv_step: "exec_step s s' \<Longrightarrow> queue_inv s \<Longrightarrow> queue_inv s'"
proof (induction rule: exec_step.induct)
  case (x_submit s pc M e pc' fired)
  then show ?case using submit_queue [OF x_submit(2)] by (cases "submitted_by pc pc' = []") (auto simp: queue_inv_def Let_def)
next
  case (x_batch s pc M e pc')
  then show ?case using batch_queue [OF x_batch(2)] by (cases "batched_by pc pc' = []") (auto simp: queue_inv_def Let_def)
next
  case (x_work s pc M e pc')
  then show ?case using worker_queue [OF x_work(2)] by (auto simp: queue_inv_def Let_def)
next
  case (x_shutdown s pc M e pc' ctx)
  then show ?case using shutdown_queue [OF x_shutdown(2)] by (auto simp: queue_inv_def Let_def)
qed (auto simp: queue_inv_def Let_def)

lemma work_inv_work:
  assumes inv: "work_inv s" and M: "es_work s = add_mset pc M" and st: "(e, pc') \<in> set (worker_next (es_ex s) pc)"
  shows "work_inv (s\<lparr>es_ex := e, es_work := add_mset pc' M, es_taken := es_taken s @ taken_by pc pc',
        es_executed := es_executed s @ executed_by pc\<rparr>)"
proof -
  note q = worker_queue [OF st]
  have "mset (inprog pc) + mset (taken_by pc pc') = mset (executed_by pc) + mset (inprog pc')"
    using q by (metis mset_append)
  then have "mset (es_taken s @ taken_by pc pc') =
      mset (es_executed s @ executed_by pc) + (\<Sum>p \<in># add_mset pc' M. mset (inprog p))"
    using inv M by (simp add: work_inv_def ac_simps)
  moreover have "es_taken s @ taken_by pc pc' = (es_executed s @ executed_by pc) @ inprog pc'" if "M = {#}"
    using inv M q that by (simp add: work_inv_def)
  ultimately show ?thesis
    using inv M q by (auto simp: work_inv_def)
qed

lemma work_inv_step: "exec_step s s' \<Longrightarrow> work_inv s \<Longrightarrow> work_inv s'"
proof (induction rule: exec_step.induct)
  case (x_work s pc M e pc')
  then show ?case by (intro work_inv_work)
next
  case (x_submit s pc M e pc' fired)
  then show ?case using submit_queue [OF x_submit(2)] by (simp add: work_inv_def)
next
  case (x_batch s pc M e pc')
  then show ?case using batch_queue [OF x_batch(2)] by (simp add: work_inv_def)
next
  case (x_shutdown s pc M e pc' ctx)
  then show ?case using shutdown_queue [OF x_shutdown(2)] by (simp add: work_inv_def)
qed (auto simp: work_inv_def)

interpretation exec_queue: inductive_invariant "exec_init config" exec_step queue_inv for config
  by unfold_locales (auto intro: queue_inv_init queue_inv_step)

interpretation exec_work: inductive_invariant "exec_init config" exec_step work_inv for config
  by unfold_locales (auto intro: work_inv_init work_inv_step)

subsection \<open>Concrete executions\<close>

text \<open>Executors with one worker and one slot, for the executions below; tasks are numbers.\<close>

definition one_config :: ExecutorConfig where
  "one_config = \<lparr>ec_Workers = 1, ec_QueueSize = 1\<rparr>"

definition one_ex :: "ctx_err option \<Rightarrow> bool \<Rightarrow> bool \<Rightarrow> nat list \<Rightarrow> bool \<Rightarrow> nat \<Rightarrow> int \<Rightarrow> nat Executor" where
  "one_ex ctx cl writer buf chclosed readers queued =
     \<lparr>ex_chan = \<lparr>chan_buf = buf, chan_cap = 1, chan_closed = chclosed\<rparr>, ex_workers = 1, ex_queueSize = 1, ex_ctx = ctx,
      ex_closed = cl, ex_readers = readers, ex_writer = writer, ex_queued = queued, ex_completed = 0, ex_rejected = 0\<rparr>"

definition one_sys :: "nat Executor \<Rightarrow> nat Submit_pc multiset \<Rightarrow> nat Batch_pc multiset \<Rightarrow> nat worker_pc \<Rightarrow>
    Shutdown_pc multiset \<Rightarrow> nat list \<Rightarrow> nat ExecSys" where
  "one_sys e sub bat w shut acc = \<lparr>es_ex = e, es_submit = sub, es_batch = bat, es_work = {#w#}, es_shut = shut,
     es_accepted = acc, es_taken = [], es_executed = []\<rparr>"

abbreviation one_reach :: "nat ExecSys \<Rightarrow> bool" where
  "one_reach \<equiv> reach (exec_init one_config) exec_step"

lemma one_start: "one_reach (one_sys (one_ex None False False [] False 0 0) {#} {#} WSelect {#} [])"
proof -
  have "NewExecutor (Some None) one_config = Inr (one_ex None False False [] False 0 0)"
    by (simp add: NewExecutor_def one_config_def one_ex_def make_chan_def)
  then show ?thesis
    by (intro reach_init) (force simp: exec_init_def one_sys_def one_ex_def)
qed

lemma one_submit_step:
  assumes "one_reach (one_sys e {#pc#} bat w shut acc)" "(e', pc') \<in> set (Submit_next False e pc)"
    and "acc' = acc @ submitted_by pc pc'"
  shows "one_reach (one_sys e' {#pc'#} bat w shut acc')"
  using assms x_submit [of "one_sys e {#pc#} bat w shut acc" pc "{#}" e' pc' False]
  by (auto simp: one_sys_def intro: reach_step)

lemma one_batch_step:
  assumes "one_reach (one_sys e sub {#pc#} w shut acc)" "(e', pc') \<in> set (SubmitBatch_next e pc)"
    and "acc' = acc @ batched_by pc pc'"
  shows "one_reach (one_sys e' sub {#pc'#} w shut acc')"
  using assms x_batch [of "one_sys e sub {#pc#} w shut acc" pc "{#}" e' pc']
  by (auto simp: one_sys_def intro: reach_step)

lemma one_shutdown_step:
  assumes "one_reach (one_sys e sub bat w {#pc#} acc)" "(e', pc') \<in> set (Shutdown_next (w = WStopped) None e pc)"
  shows "one_reach (one_sys e' sub bat w {#pc'#} acc)"
  using assms x_shutdown [of "one_sys e sub bat w {#pc#} acc" pc "{#}" e' pc' None]
  by (auto simp: one_sys_def all_stopped_def intro: reach_step)

text \<open>\<^verbatim>\<open>Shutdown\<close> runs from its call to the closing of the channel while no call holds the read lock.\<close>

lemma one_shutdown_closes:
  assumes "one_reach (one_sys (one_ex None False False buf False 0 q) sub bat WSelect {#} acc)"
  shows "one_reach (one_sys (one_ex (Some Canceled) True False buf True 0 q) sub bat WSelect {#HWait#} acc)"
proof -
  have "one_reach (one_sys (one_ex None False False buf False 0 q) sub bat WSelect {#HStart False#} acc)"
    using assms x_call_shutdown [of "one_sys (one_ex None False False buf False 0 q) sub bat WSelect {#} acc" False]
    by (auto simp: one_sys_def intro: reach_step)
  then have "one_reach (one_sys (one_ex None False False buf False 0 q) sub bat WSelect {#HCas#} acc)"
    by (rule one_shutdown_step) simp
  then have "one_reach (one_sys (one_ex None True False buf False 0 q) sub bat WSelect {#HLock#} acc)"
    by (rule one_shutdown_step) (simp add: one_ex_def)
  then have "one_reach (one_sys (one_ex None True True buf False 0 q) sub bat WSelect {#HCancel#} acc)"
    by (rule one_shutdown_step) (simp add: one_ex_def)
  then have "one_reach (one_sys (one_ex (Some Canceled) True True buf False 0 q) sub bat WSelect {#HClose#} acc)"
    by (rule one_shutdown_step) (simp add: one_ex_def)
  then have "one_reach (one_sys (one_ex (Some Canceled) True True buf True 0 q) sub bat WSelect {#HUnlock#} acc)"
    by (rule one_shutdown_step) (simp add: one_ex_def chan_close_def)
  then show ?thesis
    by (rule one_shutdown_step) (simp add: one_ex_def)
qed

lemma one_submitted:
  "one_reach (one_sys (one_ex None False False [7] False 0 1) {#URet None#} {#} WSelect {#} [7])"
proof -
  let ?e = "one_ex None False False"
  have "one_reach (one_sys (?e [] False 0 0) {#ULock 7 None#} {#} WSelect {#} [])"
    using one_start x_call_submit [of "one_sys (?e [] False 0 0) {#} {#} WSelect {#} []" "Some 7"]
    by (auto simp: one_sys_def Submit_def intro: reach_step)
  then have "one_reach (one_sys (?e [] False 1 0) {#UCheck 7 None#} {#} WSelect {#} [])"
    by (rule one_submit_step) (simp_all add: one_ex_def)
  then have "one_reach (one_sys (?e [] False 1 0) {#USelect 7 None#} {#} WSelect {#} [])"
    by (rule one_submit_step) (simp_all add: one_ex_def)
  then have "one_reach (one_sys (?e [7] False 1 0) {#UCount 7#} {#} WSelect {#} [7])"
    by (rule one_submit_step) (simp_all add: one_ex_def set_select_send Submit_next.simps(3))
  then have "one_reach (one_sys (?e [7] False 1 1) {#UUnlock None#} {#} WSelect {#} [7])"
    by (rule one_submit_step) (simp_all add: one_ex_def)
  then show ?thesis
    by (rule one_submit_step) (simp_all add: one_ex_def)
qed

subsection \<open>Properties\<close>

text \<open>
  C17. However calls of \<^verbatim>\<open>Submit\<close>, \<^verbatim>\<open>SubmitWithTimeout\<close>, \<^verbatim>\<open>SubmitBatch\<close> and \<^verbatim>\<open>Shutdown\<close> interleave, \<^verbatim>\<open>Submit\<close> and
  \<^verbatim>\<open>SubmitWithTimeout\<close> never send on a closed channel and \<^verbatim>\<open>Shutdown\<close> never closes it twice: the read-write lock
  does what its comments say.
\<close>

theorem executor_submit_never_panics:
  assumes "reach (exec_init config) exec_step s"
  shows "UPanic \<notin># es_submit s \<and> HClosePanic \<notin># es_shut s \<and>
     (chan_closed (ex_chan (es_ex s)) \<longrightarrow> (\<forall>pc \<in># es_submit s. \<not> sending pc))"
  using exec_lock.reach_inv [OF assms] by (auto simp: lock_inv_def Let_def count_if_zero_iff)

theorem executor_submit_never_panics_witness:
  "\<exists>s. one_reach s \<and> chan_closed (ex_chan (es_ex s)) \<and> es_submit s = {#URet None#} \<and> UPanic \<notin># es_submit s"
  using executor_submit_never_panics [OF one_shutdown_closes [OF one_submitted]]
    one_shutdown_closes [OF one_submitted]
  by (intro exI [of _ "one_sys (one_ex (Some Canceled) True False [7] True 0 1) {#URet None#} {#} WSelect {#HWait#} [7]"])
    (simp add: one_sys_def one_ex_def)

text \<open>The worker takes and executes the submitted task.\<close>

lemma one_executed:
  "one_reach ((one_sys (one_ex None False False [] False 0 0) {#URet None#} {#} (WDone 7) {#} [7])\<lparr>es_taken := [7], es_executed := [7]\<rparr>)"
proof -
  let ?e = "one_ex None False False"
  let ?s = "\<lambda>q w. (one_sys (?e [] False 0 q) {#URet None#} {#} w {#} [7])\<lparr>es_taken := [7 :: nat]\<rparr>"
  have "one_reach (?s 1 (WDec 7))"
    using one_submitted
  proof (rule reach_step)
    show "exec_step (one_sys (?e [7] False 0 1) {#URet None#} {#} WSelect {#} [7]) (?s 1 (WDec 7))"
      using x_work [of "one_sys (?e [7] False 0 1) {#URet None#} {#} WSelect {#} [7]" WSelect "{#}" "?e [] False 0 1" "WDec 7"]
      by (simp add: one_sys_def one_ex_def set_select_recv worker_next.simps(1))
  qed
  then have "one_reach (?s 0 (WExec 7))"
  proof (rule reach_step)
    show "exec_step (?s 1 (WDec 7)) (?s 0 (WExec 7))"
      using x_work [of "?s 1 (WDec 7)" "WDec 7" "{#}" "?e [] False 0 0" "WExec 7"] by (simp add: one_sys_def one_ex_def)
  qed
  then show ?thesis
  proof (rule reach_step)
    show "exec_step (?s 0 (WExec 7)) ((one_sys (?e [] False 0 0) {#URet None#} {#} (WDone 7) {#} [7])\<lparr>es_taken := [7], es_executed := [7]\<rparr>)"
      using x_work [of "?s 0 (WExec 7)" "WExec 7" "{#}" "?e [] False 0 0" "WDone 7"] by (simp add: one_sys_def one_ex_def)
  qed
qed

text \<open>
  C19. In every reachable state, whatever calls and cancellations came before, each accepted task is in exactly one of three places: it
  was executed, once; a worker has it; or it waits in the channel. So no task is executed twice and nothing is executed that was not
  accepted, and when no task waits and no worker has one, exactly the accepted tasks were executed. Tasks are taken in the order of
  acceptance, at most \<^verbatim>\<open>QueueSize\<close> wait, at most \<^verbatim>\<open>Workers\<close> execute at a time, and with one worker the executed tasks are the first
  accepted ones, in order. (A task may wait for ever after \<^verbatim>\<open>Shutdown\<close>, see below.)
\<close>

theorem executor_at_most_once:
  assumes "reach (exec_init config) exec_step s"
  shows "mset (es_accepted s) = mset (es_executed s) + (\<Sum>pc \<in># es_work s. mset (inprog pc)) + mset (chan_buf (ex_chan (es_ex s))) \<and>
     (chan_buf (ex_chan (es_ex s)) = [] \<and> (\<forall>pc \<in># es_work s. inprog pc = []) \<longrightarrow> mset (es_executed s) = mset (es_accepted s)) \<and>
     es_accepted s = es_taken s @ chan_buf (ex_chan (es_ex s)) \<and>
     int (length (chan_buf (ex_chan (es_ex s)))) \<le> ex_queueSize (es_ex s) \<and>
     count_if (\<lambda>pc. \<exists>t. pc = WExec t) (es_work s) \<le> nat (ex_workers (es_ex s)) \<and>
     (ex_workers (es_ex s) = 1 \<longrightarrow> (\<exists>rest. es_accepted s = es_executed s @ rest))"
proof -
  have q: "queue_inv s" and w: "work_inv s"
    using exec_queue.reach_inv [OF assms] exec_work.reach_inv [OF assms] by auto
  have acc: "mset (es_accepted s) = mset (es_executed s) + (\<Sum>pc \<in># es_work s. mset (inprog pc)) + mset (chan_buf (ex_chan (es_ex s)))"
    using q w by (simp add: queue_inv_def work_inv_def Let_def)
  moreover have "\<exists>rest. es_accepted s = es_executed s @ rest" if "ex_workers (es_ex s) = 1"
  proof -
    have "size (es_work s) = 1" using w that by (simp add: work_inv_def)
    then obtain pc where "es_work s = {#pc#}" by (metis size_1_singleton_mset)
    then have "es_taken s = es_executed s @ inprog pc" using w by (simp add: work_inv_def)
    then show ?thesis using q by (auto simp: queue_inv_def Let_def)
  qed
  moreover have "(\<Sum>pc \<in># M. mset (inprog pc)) = {#}" if "\<forall>pc \<in># M. inprog pc = []" for M :: "'a worker_pc multiset"
    using that by (induction M) simp_all
  ultimately show ?thesis
    using q count_if_le [of "\<lambda>pc. \<exists>t. pc = WExec t" "es_work s"] w
    by (auto simp: queue_inv_def work_inv_def Let_def)
qed

theorem executor_at_most_once_witness:
  "\<exists>s. one_reach s \<and> es_accepted s = [7] \<and> es_executed s = [7] \<and> mset (es_executed s) = mset (es_accepted s) \<and> ex_workers (es_ex s) = 1"
  using executor_at_most_once [OF one_executed] one_executed
  by (intro exI [of _ "(one_sys (one_ex None False False [] False 0 0) {#URet None#} {#} (WDone 7) {#} [7])\<lparr>es_taken := [7], es_executed := [7]\<rparr>"])
    (simp add: one_sys_def one_ex_def)

text \<open>
  \<^verbatim>\<open>SubmitBatch\<close> checks \<^verbatim>\<open>closed\<close> without the lock. When \<^verbatim>\<open>Shutdown\<close> closes the channel between the check and
  the send, the submitting goroutine panics.
\<close>

lemma executor_batch_panics:
  "\<exists>s. reach (exec_init one_config) exec_step s \<and> BPanic \<in># es_batch (s :: nat ExecSys)"
proof -
  let ?e = "one_ex None False False [] False 0 0"
  have "one_reach (one_sys ?e {#} {#BStart [Some 7]#} WSelect {#} [])"
    using one_start x_call_batch [of "one_sys ?e {#} {#} WSelect {#} []" "[Some 7]"]
    by (auto simp: one_sys_def intro: reach_step)
  then have "one_reach (one_sys ?e {#} {#BLoop [Some 7] 0 1#} WSelect {#} [])"
    by (rule one_batch_step) (simp_all add: one_ex_def)
  then have "one_reach (one_sys (one_ex (Some Canceled) True False [] True 0 0) {#} {#BLoop [Some 7] 0 1#} WSelect {#HWait#} [])"
    using one_shutdown_closes by simp
  then have "one_reach (one_sys (one_ex (Some Canceled) True False [] True 0 0) {#} {#BPanic#} WSelect {#HWait#} [])"
    by (rule one_batch_step) (simp_all add: one_ex_def set_select_send SubmitBatch_next.simps(4))
  then show ?thesis
    by (intro exI conjI) (auto simp: one_sys_def)
qed

text \<open>
  \<^verbatim>\<open>Shutdown\<close> cancels the context before the queue is empty, and a worker whose \<^verbatim>\<open>select\<close> finds both a queued
  task and the cancelled context may choose the latter. In the execution below \<^verbatim>\<open>Submit\<close> and \<^verbatim>\<open>Shutdown\<close> both
  return \<^verbatim>\<open>nil\<close>, all workers have stopped, and the accepted task was never executed.
\<close>

lemma executor_shutdown_drops_tasks:
  "\<exists>s. reach (exec_init one_config) exec_step s \<and> es_submit s = {#URet None#} \<and> es_shut s = {#HRet None#} \<and>
     all_stopped (es_work s) \<and> es_accepted s = [7 :: nat] \<and> es_executed s = []"
proof -
  let ?e = "one_ex (Some Canceled) True False [7] True 0 1"
  have "one_reach (one_sys ?e {#URet None#} {#} WSelect {#HWait#} [7])"
    by (rule one_shutdown_closes [OF one_submitted])
  then have "one_reach (one_sys ?e {#URet None#} {#} WStopped {#HWait#} [7])"
    using x_work [of "one_sys ?e {#URet None#} {#} WSelect {#HWait#} [7]" WSelect "{#}" ?e WStopped]
    by (auto simp: one_sys_def one_ex_def set_select_recv worker_next.simps(1) intro: reach_step)
  then have "one_reach (one_sys ?e {#URet None#} {#} WStopped {#HRet None#} [7])"
    by (rule one_shutdown_step) simp
  then show ?thesis
    by (intro exI conjI) (auto simp: one_sys_def all_stopped_def)
qed

end
