(* ===== verification/WorkerPool.thy ===== *)
theory WorkerPool
  imports Executor
begin

text \<open>
  The worker pool of \<^verbatim>\<open>pkg/core/concurrency/workerpool_impl.go\<close>. Each method is modelled for a caller whose call is
  not interleaved with another call on the same pool; where a \<^verbatim>\<open>select\<close> has several ready cases the model returns
  all outcomes. The result: \<^verbatim>\<open>Submit\<close> on a running pool accepts a task exactly when the queue has room; a pool can be
  started again after it was stopped, but its channel stays closed, so a later \<^verbatim>\<open>Submit\<close> can panic.
\<close>

subsection \<open>Data and construction\<close>

datatype wp_error =
    WpAlreadyRunning | WpNotRunning | WpTaskNil | WpFull | WpCtx ctx_err | WpStopTimeout ctx_err

record 't WorkerPool =
  wp_workers :: int
  wp_queueSize :: int
  wp_chan :: "'t chan"
  wp_running :: bool
  wp_ctx :: "ctx_err option"
  wp_queued :: int
  wp_completed :: int
  wp_rejected :: int

definition DefaultWorkerPoolConfig :: ExecutorConfig where
  "DefaultWorkerPoolConfig = \<lparr>ec_Workers = 10, ec_QueueSize = 1000\<rparr>"

definition NewWorkerPool :: "ctx_err option option \<Rightarrow> ExecutorConfig \<Rightarrow> string + 't WorkerPool" where
  "NewWorkerPool ctx config =
     (case ctx of
        None \<Rightarrow> Inl ''fail-fast: context cannot be nil''
      | Some err \<Rightarrow>
          let workers = (if ec_Workers config < 1 then 1 else ec_Workers config);
              queueSize = (if ec_QueueSize config < 1 then 100 else ec_QueueSize config)
          in Inr \<lparr>wp_workers = workers, wp_queueSize = queueSize, wp_chan = make_chan (nat queueSize),
                  wp_running = False, wp_ctx = err, wp_queued = 0, wp_completed = 0, wp_rejected = 0\<rparr>)"

subsection \<open>Methods\<close>

text \<open>\<^verbatim>\<open>Start\<close> returns an error or the number of worker goroutines it starts.\<close>

definition wp_Start :: "'t WorkerPool \<Rightarrow> 't WorkerPool \<times> (wp_error + int)" where
  "wp_Start wp =
     (if wp_running wp then (wp, Inl WpAlreadyRunning)
      else (wp\<lparr>wp_running := True\<rparr>, Inr (wp_workers wp)))"

text \<open>The worker goroutine: the steps of \<^verbatim>\<open>worker\<close> with the program counters of theory Executor.\<close>

fun wp_worker_next :: "'t WorkerPool \<Rightarrow> 't worker_pc \<Rightarrow> ('t WorkerPool \<times> 't worker_pc) list" where
  "wp_worker_next wp WSelect =
     map (\<lambda>r. case r of
                Received (Some t) ch \<Rightarrow> (wp\<lparr>wp_chan := ch\<rparr>, WDec t)
              | _ \<Rightarrow> (wp, WStopped))
         (select_recv False (wp_ctx wp \<noteq> None) (wp_chan wp))"
| "wp_worker_next wp (WDec t) = [(wp\<lparr>wp_queued := wp_queued wp - 1\<rparr>, WExec t)]"
| "wp_worker_next wp (WExec t) = [(wp, WDone t)]"
| "wp_worker_next wp (WDone t) = [(wp\<lparr>wp_completed := wp_completed wp + 1\<rparr>, WSelect)]"
| "wp_worker_next wp WStopped = [(wp, WStopped)]"

datatype wp_result = WpReturn "wp_error option" | WpPanic string

text \<open>
  \<^verbatim>\<open>Stop\<close>; \<open>nilctx\<close> is a call with a \<^verbatim>\<open>nil\<close> context, \<open>wait\<close> the result of the final wait: \<open>None\<close> when the workers
  finish, \<open>Some err\<close> when the caller's context ends first.
\<close>

definition wp_Stop :: "bool \<Rightarrow> ctx_err option \<Rightarrow> 't WorkerPool \<Rightarrow> 't WorkerPool \<times> wp_result" where
  "wp_Stop nilctx wait wp =
     (if nilctx then (wp, WpPanic ''fail-fast: context cannot be nil'')
      else if \<not> wp_running wp then (wp, WpReturn None)
      else let wp1 = wp\<lparr>wp_running := False,
                        wp_ctx := (case wp_ctx wp of None \<Rightarrow> Some Canceled | Some e \<Rightarrow> Some e)\<rparr> in
        case chan_close (wp_chan wp1) of
          None \<Rightarrow> (wp1, WpPanic ''close of closed channel'')
        | Some ch \<Rightarrow> (wp1\<lparr>wp_chan := ch\<rparr>, WpReturn (map_option WpStopTimeout wait)))"

definition wp_Submit :: "'t WorkerPool \<Rightarrow> 't option \<Rightarrow> ('t WorkerPool \<times> wp_result) list" where
  "wp_Submit wp task =
     (case task of
        None \<Rightarrow> [(wp, WpReturn (Some WpTaskNil))]
      | Some t \<Rightarrow>
          if \<not> wp_running wp then [(wp, WpReturn (Some WpNotRunning))]
          else map (\<lambda>r. case r of
                 Sent ch \<Rightarrow> (wp\<lparr>wp_chan := ch, wp_queued := wp_queued wp + 1\<rparr>, WpReturn None)
               | SentPanic \<Rightarrow> (wp, WpPanic ''send on closed channel'')
               | SentDone \<Rightarrow> (wp, WpReturn (map_option WpCtx (wp_ctx wp)))
               | SentDefault \<Rightarrow> (wp\<lparr>wp_rejected := wp_rejected wp + 1\<rparr>, WpReturn (Some WpFull)))
            (select_send True (wp_ctx wp \<noteq> None) (wp_chan wp) t))"

text \<open>The loop of \<^verbatim>\<open>SubmitBatch\<close> over the remaining tasks; \<open>n\<close> is the length of the batch.\<close>

fun wp_batch_loop :: "'t WorkerPool \<Rightarrow> 't option list \<Rightarrow> int \<Rightarrow> int \<Rightarrow> ('t WorkerPool \<times> wp_result) list" where
  "wp_batch_loop wp [] submitted n = [(wp, WpReturn None)]"
| "wp_batch_loop wp (None # rest) submitted n = wp_batch_loop wp rest submitted n"
| "wp_batch_loop wp (Some t # rest) submitted n =
     concat (map (\<lambda>r. case r of
        Sent ch \<Rightarrow> wp_batch_loop (wp\<lparr>wp_chan := ch, wp_queued := wp_queued wp + 1\<rparr>) rest (submitted + 1) n
      | SentPanic \<Rightarrow> [(wp, WpPanic ''send on closed channel'')]
      | SentDone \<Rightarrow> [(wp\<lparr>wp_rejected := wp_rejected wp + (n - submitted)\<rparr>, WpReturn (map_option WpCtx (wp_ctx wp)))]
      | SentDefault \<Rightarrow> [(wp\<lparr>wp_rejected := wp_rejected wp + (n - submitted)\<rparr>, WpReturn (Some WpFull))])
     (select_send True (wp_ctx wp \<noteq> None) (wp_chan wp) t))"

definition wp_SubmitBatch :: "'t WorkerPool \<Rightarrow> 't option list \<Rightarrow> ('t WorkerPool \<times> wp_result) list" where
  "wp_SubmitBatch wp tasks =
     (if tasks = [] then [(wp, WpReturn None)]
      else if \<not> wp_running wp then [(wp, WpReturn (Some WpNotRunning))]
      else wp_batch_loop wp tasks 0 (int (length tasks)))"

definition wp_Workers :: "'t WorkerPool \<Rightarrow> int" where
  "wp_Workers wp = wp_workers wp"

definition wp_IsRunning :: "'t WorkerPool \<Rightarrow> bool" where
  "wp_IsRunning wp = wp_running wp"

definition wp_Stats :: "'t WorkerPool \<Rightarrow> ExecutorStats" where
  "wp_Stats wp =
     (let u = of_int (wp_queued wp) / of_int (wp_queueSize wp) * 100; u' = (if u > 100 then 100 else u) in
      \<lparr>st_QueuedTasks = wp_queued wp, st_ActiveWorkers = wp_workers wp, st_CompletedTasks = wp_completed wp,
       st_RejectedTasks = wp_rejected wp, st_QueueCapacity = wp_queueSize wp, st_QueueUtilization = u'\<rparr>)"

subsection \<open>Batches\<close>

lemma batch_all_fit:
  assumes "\<not> chan_closed (wp_chan wp)" "wp_ctx wp = None"
    and "length (chan_buf (wp_chan wp)) + length (List.map_filter id tasks) \<le> chan_cap (wp_chan wp)"
  shows "wp_batch_loop wp tasks k n =
    [(wp\<lparr>wp_chan := (wp_chan wp)\<lparr>chan_buf := chan_buf (wp_chan wp) @ List.map_filter id tasks\<rparr>,
         wp_queued := wp_queued wp + int (length (List.map_filter id tasks))\<rparr>, WpReturn None)]"
  using assms
proof (induction wp tasks k n rule: wp_batch_loop.induct)
  case (3 wp t rest k n)
  let ?ch = "(wp_chan wp)\<lparr>chan_buf := chan_buf (wp_chan wp) @ [t]\<rparr>"
  have sel: "select_send True (wp_ctx wp \<noteq> None) (wp_chan wp) t = [Sent ?ch]"
    using 3(2-4) by (simp add: select_send_def send_ready_def chan_send_def map_filter_simps)
  show ?case
    using 3(1) [of "Sent ?ch" ?ch] 3(2-4) sel by (simp add: map_filter_simps)
qed (simp_all add: map_filter_simps)

subsection \<open>Properties\<close>

text \<open>
  C40. A batch that fits is accepted whole: on a running pool with a live context, when the tasks of the batch that
  are not \<^verbatim>\<open>nil\<close> fit into the free slots, \<^verbatim>\<open>SubmitBatch\<close> has one outcome, it returns no error and appends those
  tasks to the queue in order.
\<close>

theorem pool_batch_accepted:
  assumes "wp_running wp" "\<not> chan_closed (wp_chan wp)" "wp_ctx wp = None"
    and "length (chan_buf (wp_chan wp)) + length (List.map_filter id tasks) \<le> chan_cap (wp_chan wp)"
  shows "\<exists>wp'. wp_SubmitBatch wp tasks = [(wp', WpReturn None)] \<and>
     chan_buf (wp_chan wp') = chan_buf (wp_chan wp) @ List.map_filter id tasks \<and>
     wp_rejected wp' = wp_rejected wp \<and>
     wp_queued wp' = wp_queued wp + int (length (List.map_filter id tasks))"
  using batch_all_fit [OF assms(2-4)] assms(1) by (cases "tasks = []") (auto simp: wp_SubmitBatch_def map_filter_simps)

theorem pool_batch_accepted_witness:
  "\<exists>wp wp' :: nat WorkerPool. NewWorkerPool (Some None) \<lparr>ec_Workers = 1, ec_QueueSize = 2\<rparr> = Inr wp \<and>
     wp_SubmitBatch (fst (wp_Start wp)) [Some 1, None, Some 2] = [(wp', WpReturn None)] \<and> chan_buf (wp_chan wp') = [1, 2]"
proof -
  define wp :: "nat WorkerPool" where "wp = \<lparr>wp_workers = 1, wp_queueSize = 2, wp_chan = make_chan 2,
      wp_running = False, wp_ctx = None, wp_queued = 0, wp_completed = 0, wp_rejected = 0\<rparr>"
  have "NewWorkerPool (Some None) \<lparr>ec_Workers = 1, ec_QueueSize = 2\<rparr> = Inr wp"
    by (simp add: NewWorkerPool_def wp_def)
  then show ?thesis
    using pool_batch_accepted [of "fst (wp_Start wp)" "[Some 1, None, Some 2]"]
    by (auto simp: wp_def wp_Start_def make_chan_def map_filter_simps)
qed

text \<open>
  A pool that was stopped can be started again without an error, but its channel stays closed: the next
  \<^verbatim>\<open>Submit\<close> of a task can panic.
\<close>

lemma pool_restart_submit_panics:
  assumes "wp_running wp" "\<not> chan_closed (wp_chan wp)"
  shows "\<exists>wp1 wp2. wp_Stop False None wp = (wp1, WpReturn None) \<and> wp_Start wp1 = (wp2, Inr (wp_workers wp)) \<and>
     (wp2, WpPanic ''send on closed channel'') \<in> set (wp_Submit wp2 (Some t))"
  using assms by (auto simp: wp_Stop_def wp_Start_def wp_Submit_def chan_close_def select_send_def send_ready_def
      chan_send_def Let_def)

lemma pool_restart_submit_panics_witness:
  "\<exists>wp wp1 wp2 :: nat WorkerPool. NewWorkerPool (Some None) DefaultWorkerPoolConfig = Inr wp \<and>
     wp_Stop False None (fst (wp_Start wp)) = (wp1, WpReturn None) \<and> wp_Start wp1 = (wp2, Inr 10) \<and>
     (wp2, WpPanic ''send on closed channel'') \<in> set (wp_Submit wp2 (Some 7))"
proof -
  define wp :: "nat WorkerPool" where "wp = \<lparr>wp_workers = 10, wp_queueSize = 1000, wp_chan = make_chan 1000,
      wp_running = False, wp_ctx = None, wp_queued = 0, wp_completed = 0, wp_rejected = 0\<rparr>"
  have "NewWorkerPool (Some None) DefaultWorkerPoolConfig = Inr wp"
    by (simp add: NewWorkerPool_def DefaultWorkerPoolConfig_def wp_def)
  moreover have "wp_running (fst (wp_Start wp))" "\<not> chan_closed (wp_chan (fst (wp_Start wp)))"
    "wp_workers (fst (wp_Start wp)) = 10"
    by (simp_all add: wp_def wp_Start_def make_chan_def)
  ultimately show ?thesis
    using pool_restart_submit_panics [of "fst (wp_Start wp)" 7] by metis
qed

end
