(* ===== verification/Admission.thy ===== *)
theory Admission
  imports Complex_Main Prelude
begin

text \<open>
  Admission control by counting: the two backpressure controllers (\<^verbatim>\<open>pkg/core/concurrency/backpressure.go\<close> for connections and
  packets, \<^verbatim>\<open>pkg/web/backpressure.go\<close> for HTTP requests). \<^verbatim>\<open>TryAcquire\<close> is the sequence of its atomic actions, one constructor of
  \<open>acquire_pc\<close> each, so that the calls of several goroutines interleave action by action; a \<^verbatim>\<open>Release\<close> is one atomic addition. The clock
  (Unix seconds) shows an arbitrary value whenever a call reads it. The 64-bit counters are unbounded integers.

  The results: the load never exceeds the capacity by more than the number of goroutines that are inside \<^verbatim>\<open>TryAcquire\<close> at the same time,
  less one, and until a periodic reset it is the number of admitted requests that are still running; the excess does occur, because
  the load is compared and incremented in two separate actions. A periodic reset forgets the requests in flight, so afterwards twice the
  capacity can run and the load becomes negative when they finish.
\<close>

subsection \<open>The controller of the concurrency package\<close>

record BackpressureController =
  bc_normalCapacity :: int
  bc_currentLoad :: int
  bc_rejectedCount :: int
  bc_lastReset :: int
  bc_resetInterval :: int

definition NewBackpressureController :: "int \<Rightarrow> int \<Rightarrow> int \<Rightarrow> BackpressureController" where
  "NewBackpressureController now normalCapacity resetIntervalSeconds =
     \<lparr>bc_normalCapacity = (if normalCapacity < 1 then 1 else normalCapacity), bc_currentLoad = 0,
      bc_rejectedCount = 0, bc_lastReset = now,
      bc_resetInterval = (if resetIntervalSeconds < 1 then 60 else resetIntervalSeconds)\<rparr>"

text \<open>The next atomic action of a call of \<^verbatim>\<open>TryAcquire\<close>, with the local variables that are still needed: reading the clock, loading
  \<^verbatim>\<open>lastReset\<close>, the compare-and-swap, the two stores of the reset, loading \<^verbatim>\<open>currentLoad\<close>, and one of the two additions.\<close>

datatype acquire_pc =
    A_now
  | A_lastReset int
  | A_cas int int
  | A_zeroLoad
  | A_zeroRejected
  | A_load
  | A_reject
  | A_add
  | A_return bool

fun TryAcquire_step :: "int \<Rightarrow> acquire_pc \<Rightarrow> BackpressureController \<Rightarrow> acquire_pc \<times> BackpressureController" where
  "TryAcquire_step clock A_now bc = (A_lastReset clock, bc)"
| "TryAcquire_step clock (A_lastReset now) bc =
     (if now - bc_lastReset bc > bc_resetInterval bc then A_cas now (bc_lastReset bc) else A_load, bc)"
| "TryAcquire_step clock (A_cas now lastReset) bc =
     (if bc_lastReset bc = lastReset then (A_zeroLoad, bc\<lparr>bc_lastReset := now\<rparr>) else (A_load, bc))"
| "TryAcquire_step clock A_zeroLoad bc = (A_zeroRejected, bc\<lparr>bc_currentLoad := 0\<rparr>)"
| "TryAcquire_step clock A_zeroRejected bc = (A_load, bc\<lparr>bc_rejectedCount := 0\<rparr>)"
| "TryAcquire_step clock A_load bc = (if bc_currentLoad bc \<ge> bc_normalCapacity bc then A_reject else A_add, bc)"
| "TryAcquire_step clock A_reject bc = (A_return False, bc\<lparr>bc_rejectedCount := bc_rejectedCount bc + 1\<rparr>)"
| "TryAcquire_step clock A_add bc = (A_return True, bc\<lparr>bc_currentLoad := bc_currentLoad bc + 1\<rparr>)"
| "TryAcquire_step clock (A_return b) bc = (A_return b, bc)"

text \<open>A call that nobody disturbs: its at most seven actions in a row.\<close>

definition TryAcquire :: "int \<Rightarrow> BackpressureController \<Rightarrow> BackpressureController \<times> bool" where
  "TryAcquire now bc =
     (case ((\<lambda>(pc, c). TryAcquire_step now pc c) ^^ 7) (A_now, bc) of (pc, c) \<Rightarrow> (c, pc = A_return True))"

definition Release :: "BackpressureController \<Rightarrow> BackpressureController" where
  "Release bc = bc\<lparr>bc_currentLoad := bc_currentLoad bc - 1\<rparr>"

record BackpressureMetrics =
  bm_NormalCapacity :: int
  bm_CurrentLoad :: int
  bm_RejectedCount :: int
  bm_Utilization :: rat

text \<open>The load and the number of rejections are two loads: \<open>bc2\<close> is the controller at the second.\<close>

definition GetMetrics :: "BackpressureController \<Rightarrow> BackpressureController \<Rightarrow> BackpressureMetrics" where
  "GetMetrics bc bc2 =
     \<lparr>bm_NormalCapacity = bc_normalCapacity bc, bm_CurrentLoad = bc_currentLoad bc,
      bm_RejectedCount = bc_rejectedCount bc2,
      bm_Utilization = (if bc_normalCapacity bc > 0
                        then of_int (bc_currentLoad bc) / of_int (bc_normalCapacity bc) * 100 else 0)\<rparr>"

subsection \<open>The controller of the web package\<close>

text \<open>The source repeats the type and its methods; the model shares the record and the program counter and translates the methods again.\<close>

definition web_NewBackpressureController :: "int \<Rightarrow> int \<Rightarrow> int \<Rightarrow> BackpressureController" where
  "web_NewBackpressureController now normalCapacity resetIntervalSeconds =
     (let normal = (if normalCapacity < 1 then 1 else normalCapacity);
          interval = (if resetIntervalSeconds < 1 then 60 else resetIntervalSeconds)
      in \<lparr>bc_normalCapacity = normal, bc_currentLoad = 0, bc_rejectedCount = 0, bc_lastReset = now,
          bc_resetInterval = interval\<rparr>)"

definition web_TryAcquire_step :: "int \<Rightarrow> acquire_pc \<Rightarrow> BackpressureController \<Rightarrow> acquire_pc \<times> BackpressureController" where
  "web_TryAcquire_step clock pc bc =
     (case pc of
        A_now \<Rightarrow> (A_lastReset clock, bc)
      | A_lastReset now \<Rightarrow>
          (let lastReset = bc_lastReset bc
           in (if now - lastReset > bc_resetInterval bc then A_cas now lastReset else A_load, bc))
      | A_cas now lastReset \<Rightarrow>
          (if bc_lastReset bc = lastReset then (A_zeroLoad, bc\<lparr>bc_lastReset := now\<rparr>) else (A_load, bc))
      | A_zeroLoad \<Rightarrow> (A_zeroRejected, bc\<lparr>bc_currentLoad := 0\<rparr>)
      | A_zeroRejected \<Rightarrow> (A_load, bc\<lparr>bc_rejectedCount := 0\<rparr>)
      | A_load \<Rightarrow> (let current = bc_currentLoad bc in (if current \<ge> bc_normalCapacity bc then A_reject else A_add, bc))
      | A_reject \<Rightarrow> (A_return False, bc\<lparr>bc_rejectedCount := bc_rejectedCount bc + 1\<rparr>)
      | A_add \<Rightarrow> (A_return True, bc\<lparr>bc_currentLoad := bc_currentLoad bc + 1\<rparr>)
      | A_return b \<Rightarrow> (A_return b, bc))"

definition web_Release :: "BackpressureController \<Rightarrow> BackpressureController" where
  "web_Release bc = bc\<lparr>bc_currentLoad := bc_currentLoad bc + (-1)\<rparr>"

definition web_GetMetrics :: "BackpressureController \<Rightarrow> BackpressureController \<Rightarrow> BackpressureMetrics" where
  "web_GetMetrics bc bc2 =
     (let utilization = (if bc_normalCapacity bc > 0
                         then of_int (bc_currentLoad bc) / of_int (bc_normalCapacity bc) * 100 else 0)
      in \<lparr>bm_NormalCapacity = bc_normalCapacity bc, bm_CurrentLoad = bc_currentLoad bc,
          bm_RejectedCount = bc_rejectedCount bc2, bm_Utilization = utilization\<rparr>)"

subsection \<open>Goroutines that share a controller\<close>

text \<open>
  \<open>am_pcs\<close> are the goroutines that call \<^verbatim>\<open>TryAcquire\<close>, again and again; a call that returns hands its admission to the request, which
  some goroutine releases later. \<open>am_held\<close> counts the admissions not yet released and \<open>am_resets\<close> the resets of the load so far.
\<close>

record 's adm_sys =
  am_ctl :: 's
  am_pcs :: "acquire_pc list"
  am_held :: int
  am_resets :: nat

datatype adm_op = Act nat int | Rel

definition adm_start :: "'s \<Rightarrow> nat \<Rightarrow> 's adm_sys" where
  "adm_start c n = \<lparr>am_ctl = c, am_pcs = replicate n A_now, am_held = 0, am_resets = 0\<rparr>"

fun adm_do :: "(int \<Rightarrow> acquire_pc \<Rightarrow> 's \<Rightarrow> acquire_pc \<times> 's) \<Rightarrow> ('s \<Rightarrow> 's) \<Rightarrow> adm_op \<Rightarrow> 's adm_sys \<Rightarrow> 's adm_sys" where
  "adm_do nxt rel (Act i now) s =
     (if i < length (am_pcs s) then
        (case nxt now (am_pcs s ! i) (am_ctl s) of (pc, c) \<Rightarrow>
           s\<lparr>am_ctl := c,
             am_pcs := (am_pcs s)[i := case pc of A_return b \<Rightarrow> A_now | _ \<Rightarrow> pc],
             am_held := (if pc = A_return True then am_held s + 1 else am_held s),
             am_resets := (if am_pcs s ! i = A_zeroLoad then am_resets s + 1 else am_resets s)\<rparr>)
      else s)"
| "adm_do nxt rel Rel s =
     (if 0 < am_held s then s\<lparr>am_ctl := rel (am_ctl s), am_held := am_held s - 1\<rparr> else s)"

definition adm_run :: "(int \<Rightarrow> acquire_pc \<Rightarrow> 's \<Rightarrow> acquire_pc \<times> 's) \<Rightarrow> ('s \<Rightarrow> 's) \<Rightarrow> adm_op list \<Rightarrow> 's adm_sys \<Rightarrow> 's adm_sys" where
  "adm_run nxt rel ops s = fold (adm_do nxt rel) ops s"

subsection \<open>Interface: a counter with a capacity\<close>

definition adding :: "acquire_pc list \<Rightarrow> int" where
  "adding pcs = int (length (filter (\<lambda>pc. pc = A_add) pcs))"

lemma adding_le: "adding pcs \<le> int (length pcs)"
  by (simp add: adding_def)

lemma adding_simps: "adding [] = 0" "adding (pc # pcs) = (if pc = A_add then 1 else 0) + adding pcs"
  by (simp_all add: adding_def)

lemma adding_update:
  "i < length pcs \<Longrightarrow> adding (pcs[i := pc]) = adding pcs - (if pcs ! i = A_add then 1 else 0) + (if pc = A_add then 1 else 0)"
  by (induction pcs arbitrary: i) (auto simp: adding_simps nth_Cons split: nat.splits)

locale admission =
  fixes nxt :: "int \<Rightarrow> acquire_pc \<Rightarrow> 's \<Rightarrow> acquire_pc \<times> 's"
    and rel :: "'s \<Rightarrow> 's"
    and load :: "'s \<Rightarrow> int"
    and cap :: "'s \<Rightarrow> int"
  assumes nxt_load: "load (snd (nxt now pc c)) = (if pc = A_zeroLoad then 0 else if pc = A_add then load c + 1 else load c)"
    and nxt_cap: "cap (snd (nxt now pc c)) = cap c"
    and nxt_add: "fst (nxt now pc c) = A_add \<Longrightarrow> pc = A_load \<and> load c < cap c"
    and nxt_admit: "pc \<noteq> A_return True \<Longrightarrow> fst (nxt now pc c) = A_return True \<longleftrightarrow> pc = A_add"
    and rel_load: "load (rel c) = load c - 1"
    and rel_cap: "cap (rel c) = cap c"
begin

definition adm_inv :: "int \<Rightarrow> nat \<Rightarrow> 's adm_sys \<Rightarrow> bool" where
  "adm_inv k n s \<longleftrightarrow> length (am_pcs s) = n \<and> cap (am_ctl s) = k \<and> (\<forall>b. A_return b \<notin> set (am_pcs s)) \<and> 0 \<le> am_held s \<and>
     load (am_ctl s) + adding (am_pcs s) \<le> k - 1 + int n \<and> (am_resets s = 0 \<longrightarrow> load (am_ctl s) = am_held s)"

lemma adm_inv_start:
  assumes "load c = 0" "0 < cap c" "0 < n"
  shows "adm_inv (cap c) n (adm_start c n)"
  using assms by (simp add: adm_inv_def adm_start_def adding_def)

lemma adm_inv_act:
  assumes inv: "adm_inv k n s" and k: "0 < k" and i: "i < length (am_pcs s)"
  shows "adm_inv k n (adm_do nxt rel (Act i now) s)"
proof -
  let ?old = "am_pcs s ! i"
  obtain pc c where step: "nxt now ?old (am_ctl s) = (pc, c)" by fastforce
  define new where "new = (case pc of A_return b \<Rightarrow> A_now | _ \<Rightarrow> pc)"
  have new: "new = A_add \<longleftrightarrow> pc = A_add" "\<And>b. new \<noteq> A_return b" by (simp_all add: new_def split: acquire_pc.split)
  have old: "?old \<noteq> A_return b" for b using inv i nth_mem [OF i] by (metis adm_inv_def)
  have laws: "load c = (if ?old = A_zeroLoad then 0 else if ?old = A_add then load (am_ctl s) + 1 else load (am_ctl s))" "cap c = k"
      "pc = A_add \<Longrightarrow> ?old = A_load \<and> load (am_ctl s) < k" "pc = A_return True \<longleftrightarrow> ?old = A_add"
    using nxt_load [of now ?old "am_ctl s"] nxt_cap [of now ?old "am_ctl s"] nxt_add [of now ?old "am_ctl s"]
      nxt_admit [of ?old now "am_ctl s"] inv old by (simp_all add: step adm_inv_def)
  have pend: "adding ((am_pcs s)[i := new]) = adding (am_pcs s) - (if ?old = A_add then 1 else 0) + (if new = A_add then 1 else 0)"
      "adding ((am_pcs s)[i := new]) \<le> int n"
    using adding_update [OF i] adding_le [of "(am_pcs s)[i := new]"] inv by (simp_all add: adm_inv_def)
  have "load c + adding ((am_pcs s)[i := new]) \<le> k - 1 + int n"
    using laws pend inv k new(1) by (auto simp: adm_inv_def split: if_splits)
  moreover have "A_return b \<notin> set ((am_pcs s)[i := new])" for b
    using inv new(2) set_update_subset_insert [of "am_pcs s" i new] by (auto simp: adm_inv_def)
  ultimately show ?thesis
    using inv i laws by (simp add: step new_def [symmetric] adm_inv_def)
qed

lemma adm_inv_do: "adm_inv k n s \<Longrightarrow> 0 < k \<Longrightarrow> adm_inv k n (adm_do nxt rel op s)"
proof (cases op)
  case (Act i now)
  assume "adm_inv k n s" "0 < k"
  then show ?thesis using Act adm_inv_act by (cases "i < length (am_pcs s)") simp_all
qed (simp add: adm_inv_def rel_load rel_cap)

lemma run_bounded:
  assumes "load c = 0" "0 < cap c" "0 < n"
  shows "adm_inv (cap c) n (adm_run nxt rel ops (adm_start c n))"
proof -
  have "adm_inv (cap c) n s \<Longrightarrow> adm_inv (cap c) n (fold (adm_do nxt rel) ops s)" for s
    by (induction ops arbitrary: s) (simp_all add: adm_inv_do assms(2))
  then show ?thesis using adm_inv_start [OF assms] by (simp add: adm_run_def)
qed

end

subsection \<open>Both controllers are counters with a capacity\<close>

lemma web_step_eq: "web_TryAcquire_step = TryAcquire_step"
proof (intro ext)
  show "web_TryAcquire_step now pc bc = TryAcquire_step now pc bc" for now pc bc
    by (cases pc) (simp_all add: web_TryAcquire_step_def Let_def)
qed

lemma web_eq:
  "web_Release = Release" "web_GetMetrics = GetMetrics" "web_NewBackpressureController = NewBackpressureController"
  by (intro ext, simp add: web_Release_def Release_def web_GetMetrics_def GetMetrics_def
      web_NewBackpressureController_def NewBackpressureController_def Let_def)+

interpretation bp: admission TryAcquire_step Release bc_currentLoad bc_normalCapacity
proof unfold_locales
  show "bc_currentLoad (snd (TryAcquire_step now pc c)) =
      (if pc = A_zeroLoad then 0 else if pc = A_add then bc_currentLoad c + 1 else bc_currentLoad c)"
    "bc_normalCapacity (snd (TryAcquire_step now pc c)) = bc_normalCapacity c" for now pc c
    by (cases pc; simp)+
  show "pc = A_load \<and> bc_currentLoad c < bc_normalCapacity c" if "fst (TryAcquire_step now pc c) = A_add" for now pc c
    using that by (cases pc) (simp_all split: if_splits)
  show "fst (TryAcquire_step now pc c) = A_return True \<longleftrightarrow> pc = A_add" if "pc \<noteq> A_return True" for now pc c
    using that by (cases pc) simp_all
qed (simp_all add: Release_def)

interpretation web_bp: admission web_TryAcquire_step web_Release bc_currentLoad bc_normalCapacity
  unfolding web_step_eq web_eq by unfold_locales

lemma TryAcquire_eq:
  "TryAcquire now bc =
     (let bc1 = (if now - bc_lastReset bc > bc_resetInterval bc
                 then bc\<lparr>bc_lastReset := now, bc_currentLoad := 0, bc_rejectedCount := 0\<rparr> else bc)
      in if bc_currentLoad bc1 \<ge> bc_normalCapacity bc1
         then (bc1\<lparr>bc_rejectedCount := bc_rejectedCount bc1 + 1\<rparr>, False)
         else (bc1\<lparr>bc_currentLoad := bc_currentLoad bc1 + 1\<rparr>, True))"
  by (simp add: TryAcquire_def eval_nat_numeral Let_def)

subsection \<open>Properties\<close>

text \<open>
  C38. Any number \<open>n > 0\<close> of goroutines call \<^verbatim>\<open>TryAcquire\<close> on a new controller, their atomic actions interleaved in any order with each
  other and with releases of admitted requests, at any times. The load then exceeds the capacity by at most \<open>n - 1\<close>: never, when one
  goroutine admits. As long as no periodic reset has stored a load of zero, the load is the number of admitted requests that have not
  been released, which therefore has the same bound. A call that runs undisturbed and whose clock reading does not ask for a reset
  admits exactly when the load is below the capacity. The controller of the web package goes through the same states.
\<close>

theorem backpressure_bounded:
  assumes "0 < n" and s: "s = adm_run TryAcquire_step Release ops (adm_start (NewBackpressureController t0 normalCapacity interval) n)"
  shows "bc_currentLoad (am_ctl s) \<le> max 1 normalCapacity + int n - 1 \<and>
     (am_resets s = 0 \<longrightarrow> bc_currentLoad (am_ctl s) = am_held s \<and> 0 \<le> am_held s \<and> am_held s \<le> max 1 normalCapacity + int n - 1) \<and>
     (now - bc_lastReset (am_ctl s) \<le> bc_resetInterval (am_ctl s) \<longrightarrow>
        (snd (TryAcquire now (am_ctl s)) \<longleftrightarrow> bc_currentLoad (am_ctl s) < max 1 normalCapacity)) \<and>
     s = adm_run web_TryAcquire_step web_Release ops (adm_start (web_NewBackpressureController t0 normalCapacity interval) n)"
proof -
  have "bp.adm_inv (max 1 normalCapacity) n s"
    using bp.run_bounded [of "NewBackpressureController t0 normalCapacity interval" n ops] assms
    by (simp add: NewBackpressureController_def max_def split: if_splits)
  then have "bc_normalCapacity (am_ctl s) = max 1 normalCapacity \<and> 0 \<le> am_held s \<and>
      bc_currentLoad (am_ctl s) + adding (am_pcs s) \<le> max 1 normalCapacity - 1 + int n \<and>
      (am_resets s = 0 \<longrightarrow> bc_currentLoad (am_ctl s) = am_held s)"
    by (simp add: bp.adm_inv_def)
  moreover have "0 \<le> adding (am_pcs s)" by (simp add: adding_def)
  ultimately show ?thesis
    by (auto simp: TryAcquire_eq s web_step_eq web_eq Let_def)
qed

text \<open>Two goroutines: the first two calls are admitted, the third is rejected, one request is released.\<close>

theorem backpressure_bounded_witness:
  "\<exists>s. s = adm_run TryAcquire_step Release
        (concat (map (\<lambda>i. replicate 4 (Act i 130)) [0, 1, 0]) @ [Rel]) (adm_start (NewBackpressureController 100 2 60) 2) \<and>
     bc_currentLoad (am_ctl s) \<le> 3 \<and> bc_rejectedCount (am_ctl s) = 1 \<and> am_resets s = 0 \<and> bc_currentLoad (am_ctl s) = am_held s \<and>
     am_held s = 1 \<and> snd (TryAcquire 140 (am_ctl s))"
proof -
  define ops where "ops = concat (map (\<lambda>i. replicate 4 (Act i 130)) [0, 1, 0]) @ [Rel]"
  define s where "s = adm_run TryAcquire_step Release ops (adm_start (NewBackpressureController 100 2 60) 2)"
  have "am_resets s = 0 \<and> am_held s = 1 \<and> bc_rejectedCount (am_ctl s) = 1 \<and> bc_lastReset (am_ctl s) = 100 \<and>
      bc_resetInterval (am_ctl s) = 60"
    unfolding s_def ops_def by code_simp
  moreover have "bc_currentLoad (am_ctl s) \<le> max 1 2 + int 2 - 1 \<and>
      (am_resets s = 0 \<longrightarrow> bc_currentLoad (am_ctl s) = am_held s) \<and>
      (140 - bc_lastReset (am_ctl s) \<le> bc_resetInterval (am_ctl s) \<longrightarrow> snd (TryAcquire 140 (am_ctl s)) = (bc_currentLoad (am_ctl s) < max 1 2))"
    using backpressure_bounded [OF zero_less_numeral s_def, of 140] by blast
  ultimately show ?thesis
    unfolding ops_def [symmetric] by (intro exI [of _ s]) (simp add: s_def [symmetric])
qed

text \<open>The bound is reached: the load is compared with the capacity and incremented in two actions, and two goroutines that both compare
  first are both admitted by a controller of capacity one.\<close>

lemma backpressure_race:
  "am_held (adm_run TryAcquire_step Release (concat (replicate 4 [Act 0 130, Act 1 130]))
      (adm_start (NewBackpressureController 100 1 60) 2)) = 2"
  by code_simp

text \<open>
  The periodic reset forgets the requests in flight. A controller whose capacity is used up admits another
  request once the reset interval has passed, and when the earlier requests then finish the load becomes negative,
  after which more requests than the capacity are admitted.
\<close>

lemma backpressure_reset_overflows:
  assumes "bc_currentLoad bc = bc_normalCapacity bc" "0 < bc_normalCapacity bc"
    and "now - bc_lastReset bc > bc_resetInterval bc"
  shows "\<exists>bc'. TryAcquire now bc = (bc', True) \<and> bc_currentLoad bc' = 1 \<and>
     bc_currentLoad ((Release ^^ (nat (bc_normalCapacity bc) + 1)) bc') = - bc_normalCapacity bc"
proof -
  have rel: "bc_currentLoad ((Release ^^ k) b) = bc_currentLoad b - int k" for k b
    by (induction k) (auto simp: Release_def)
  show ?thesis
    using assms by (simp add: TryAcquire_eq Release_def rel)
qed

lemma backpressure_reset_overflows_witness:
  "\<exists>bc bc'. bc = \<lparr>bc_normalCapacity = 2, bc_currentLoad = 2, bc_rejectedCount = 0, bc_lastReset = 100, bc_resetInterval = 60\<rparr> \<and>
     TryAcquire 161 bc = (bc', True) \<and> bc_currentLoad ((Release ^^ 3) bc') = -2"
proof -
  let ?bc = "\<lparr>bc_normalCapacity = 2, bc_currentLoad = 2, bc_rejectedCount = 0, bc_lastReset = 100, bc_resetInterval = 60\<rparr>"
  show ?thesis
    using backpressure_reset_overflows [of ?bc 161] by (auto simp: numeral_3_eq_3 numeral_2_eq_2)
qed

end
