(* ===== verification/Breaker.thy ===== *)
theory Breaker
  imports Prelude "HOL-Library.Sublist"
begin

text \<open>
  The circuit breaker (\<^verbatim>\<open>pkg/core/resilience/breaker/breaker.go\<close>). In the properties an admission (\<^verbatim>\<open>allowExecution\<close>) is one action and so is
  the recording of a result; between the two actions of one execution any actions of others may come. What is lost by running an
  admission in one piece is stated separately: the half-open case is also given as its two atomic actions, and a lemma shows that two
  goroutines in it are both admitted where one is allowed. A callback field of the configuration is the flag that it is not \<^verbatim>\<open>nil\<close>, and
  the calls of callbacks are appended to a log. The zero \<^verbatim>\<open>time.Time\<close> is 0, and \<open>now\<close> is what an action reads from the clock.

  The results: the manager with its atomic counters implements a three-state specification without redundant
  counters; it opens at the first run of consecutive failures that reaches the threshold, not before, and then rejects until the
  timeout; after the timeout a healthy service closes the breaker again when enough probes are allowed; with a
  success threshold above the number of probes it never closes again.
\<close>

subsection \<open>Types\<close>

datatype breaker_state = StateClosed | StateOpen | StateHalfOpen

fun breaker_state_String :: "breaker_state \<Rightarrow> string" where
  "breaker_state_String StateClosed = ''CLOSED''"
| "breaker_state_String StateOpen = ''OPEN''"
| "breaker_state_String StateHalfOpen = ''HALF_OPEN''"

record breaker_Config =
  br_FailureThreshold :: int
  br_SuccessThreshold :: int
  br_Timeout :: int
  br_HalfOpenMaxRequests :: int
  br_OnStateChanged :: bool
  br_OnStateChangedAsync :: bool
  br_OnOpened :: bool
  br_OnOpenedAsync :: bool
  br_OnClosed :: bool
  br_OnClosedAsync :: bool
  br_OnHalfOpened :: bool
  br_OnHalfOpenedAsync :: bool
  br_OnExecutionRejected :: bool
  br_OnExecutionRejectedAsync :: bool
  br_EnableMetrics :: bool

datatype breaker_event =
    CbStateChanged breaker_state breaker_state | CbStateChangedAsync breaker_state breaker_state
  | CbOpened | CbOpenedAsync | CbClosed | CbClosedAsync | CbHalfOpened | CbHalfOpenedAsync
  | CbExecutionRejected | CbExecutionRejectedAsync

record breaker_Stats =
  bs_TotalExecutions :: int
  bs_TotalAllowed :: int
  bs_TotalRejected :: int
  bs_TotalSuccessful :: int
  bs_TotalFailed :: int
  bs_ConsecutiveFailures :: int
  bs_ConsecutiveSuccesses :: int
  bs_CurrentState :: breaker_state
  bs_LastFailureTime :: int
  bs_LastSuccessTime :: int
  bs_LastStateChangeTime :: int

record breakerManager =
  br_config :: breaker_Config
  br_state :: breaker_state
  br_consecutiveFailures :: int
  br_consecutiveSuccesses :: int
  br_halfOpenRequests :: int
  br_lastFailureTime :: int
  br_lastSuccessTime :: int
  br_lastStateChangeTime :: int
  br_totalExecutions :: int
  br_totalAllowed :: int
  br_totalRejected :: int
  br_totalSuccessful :: int
  br_totalFailed :: int
  br_log :: "breaker_event list"

datatype 'e breaker_error = BreakerErr string string | BreakerFnErr 'e

subsection \<open>Creation\<close>

definition breaker_DefaultConfig :: breaker_Config where
  "breaker_DefaultConfig =
     \<lparr>br_FailureThreshold = 5, br_SuccessThreshold = 1, br_Timeout = 60 * 1000000000, br_HalfOpenMaxRequests = 1,
      br_OnStateChanged = False, br_OnStateChangedAsync = False, br_OnOpened = False, br_OnOpenedAsync = False,
      br_OnClosed = False, br_OnClosedAsync = False, br_OnHalfOpened = False, br_OnHalfOpenedAsync = False,
      br_OnExecutionRejected = False, br_OnExecutionRejectedAsync = False, br_EnableMetrics = False\<rparr>"

text \<open>The four guards that replace a non-positive value by that of another configuration; the constructor uses the
  default configuration, the calls with a configuration use that of the manager.\<close>

definition breaker_normalize :: "breaker_Config \<Rightarrow> breaker_Config \<Rightarrow> breaker_Config" where
  "breaker_normalize base config =
     config\<lparr>br_FailureThreshold := (if br_FailureThreshold config \<le> 0 then br_FailureThreshold base else br_FailureThreshold config),
            br_SuccessThreshold := (if br_SuccessThreshold config \<le> 0 then br_SuccessThreshold base else br_SuccessThreshold config),
            br_Timeout := (if br_Timeout config \<le> 0 then br_Timeout base else br_Timeout config),
            br_HalfOpenMaxRequests := (if br_HalfOpenMaxRequests config \<le> 0 then br_HalfOpenMaxRequests base else br_HalfOpenMaxRequests config)\<rparr>"

definition breaker_NewManagerWithConfig :: "int \<Rightarrow> breaker_Config \<Rightarrow> breakerManager" where
  "breaker_NewManagerWithConfig now config =
     \<lparr>br_config = breaker_normalize breaker_DefaultConfig config, br_state = StateClosed,
      br_consecutiveFailures = 0, br_consecutiveSuccesses = 0, br_halfOpenRequests = 0,
      br_lastFailureTime = 0, br_lastSuccessTime = 0, br_lastStateChangeTime = now,
      br_totalExecutions = 0, br_totalAllowed = 0, br_totalRejected = 0, br_totalSuccessful = 0, br_totalFailed = 0,
      br_log = []\<rparr>"

definition breaker_NewManager :: "int \<Rightarrow> breakerManager" where
  "breaker_NewManager now = breaker_NewManagerWithConfig now breaker_DefaultConfig"

subsection \<open>Callbacks\<close>

definition breaker_onStateChanged :: "breaker_state \<Rightarrow> breaker_state \<Rightarrow> breaker_Config \<Rightarrow> breakerManager \<Rightarrow> breakerManager" where
  "breaker_onStateChanged from to config m =
     m\<lparr>br_log := br_log m @ (if br_OnStateChanged config then [CbStateChanged from to] else []) @
                  (if br_OnStateChangedAsync config then [CbStateChangedAsync from to] else [])\<rparr>"

definition breaker_onOpened :: "breaker_Config \<Rightarrow> breakerManager \<Rightarrow> breakerManager" where
  "breaker_onOpened config m =
     m\<lparr>br_log := br_log m @ (if br_OnOpened config then [CbOpened] else []) @
                  (if br_OnOpenedAsync config then [CbOpenedAsync] else [])\<rparr>"

definition breaker_onClosed :: "breaker_Config \<Rightarrow> breakerManager \<Rightarrow> breakerManager" where
  "breaker_onClosed config m =
     m\<lparr>br_log := br_log m @ (if br_OnClosed config then [CbClosed] else []) @
                  (if br_OnClosedAsync config then [CbClosedAsync] else [])\<rparr>"

definition breaker_onHalfOpened :: "breaker_Config \<Rightarrow> breakerManager \<Rightarrow> breakerManager" where
  "breaker_onHalfOpened config m =
     m\<lparr>br_log := br_log m @ (if br_OnHalfOpened config then [CbHalfOpened] else []) @
                  (if br_OnHalfOpenedAsync config then [CbHalfOpenedAsync] else [])\<rparr>"

definition breaker_onExecutionRejected :: "breaker_Config \<Rightarrow> breakerManager \<Rightarrow> breakerManager" where
  "breaker_onExecutionRejected config m =
     m\<lparr>br_log := br_log m @ (if br_OnExecutionRejected config then [CbExecutionRejected] else []) @
                  (if br_OnExecutionRejectedAsync config then [CbExecutionRejectedAsync] else [])\<rparr>"

subsection \<open>Admission and recording\<close>

text \<open>The case \<^verbatim>\<open>StateHalfOpen\<close>, into which the case \<^verbatim>\<open>StateOpen\<close> falls through, as its two atomic actions: the load of the counter,
  which is compared, and the addition. \<open>breaker_admitProbe\<close> performs them without another action in between.\<close>

datatype probe_pc = P_load | P_add | P_return bool

fun breaker_probe_step :: "breaker_Config \<Rightarrow> probe_pc \<Rightarrow> breakerManager \<Rightarrow> probe_pc \<times> breakerManager" where
  "breaker_probe_step config P_load m =
     (if br_halfOpenRequests m \<ge> int32 (br_HalfOpenMaxRequests config) then P_return False else P_add, m)"
| "breaker_probe_step config P_add m = (P_return True, m\<lparr>br_halfOpenRequests := int32 (br_halfOpenRequests m + 1)\<rparr>)"
| "breaker_probe_step config (P_return b) m = (P_return b, m)"

definition breaker_admitProbe :: "breaker_Config \<Rightarrow> breakerManager \<Rightarrow> breakerManager \<times> bool" where
  "breaker_admitProbe config m =
     (case breaker_probe_step config P_load m of
        (pc, m1) \<Rightarrow> (case breaker_probe_step config pc m1 of (pc2, m2) \<Rightarrow> (m2, pc2 = P_return True)))"

definition breaker_allowExecution :: "int \<Rightarrow> breaker_Config \<Rightarrow> breakerManager \<Rightarrow> breakerManager \<times> bool" where
  "breaker_allowExecution now config m =
     (case br_state m of
        StateClosed \<Rightarrow> (m, True)
      | StateOpen \<Rightarrow>
          (let transitionTime = (if br_lastStateChangeTime m > br_lastFailureTime m
                                 then br_lastStateChangeTime m else br_lastFailureTime m)
           in if transitionTime \<noteq> 0 \<and> now - transitionTime \<ge> br_Timeout config
              then breaker_admitProbe config
                     (breaker_onHalfOpened config (breaker_onStateChanged StateOpen StateHalfOpen config
                       (m\<lparr>br_state := StateHalfOpen, br_lastStateChangeTime := now, br_consecutiveSuccesses := 0,
                          br_consecutiveFailures := 0, br_halfOpenRequests := 0\<rparr>)))
              else (m, False))
      | StateHalfOpen \<Rightarrow> breaker_admitProbe config m)"

definition breaker_recordSuccess :: "int \<Rightarrow> breaker_Config \<Rightarrow> breakerManager \<Rightarrow> breakerManager" where
  "breaker_recordSuccess now config m =
     (let m1 = m\<lparr>br_totalSuccessful := int64 (br_totalSuccessful m + 1), br_consecutiveFailures := 0,
                 br_consecutiveSuccesses := int32 (br_consecutiveSuccesses m + 1), br_lastSuccessTime := now\<rparr>
      in case br_state m1 of
           StateClosed \<Rightarrow> m1\<lparr>br_consecutiveFailures := 0\<rparr>
         | StateHalfOpen \<Rightarrow>
             (if br_consecutiveSuccesses m1 \<ge> int32 (br_SuccessThreshold config)
              then breaker_onClosed config (breaker_onStateChanged StateHalfOpen StateClosed config
                     (m1\<lparr>br_state := StateClosed, br_lastStateChangeTime := now, br_consecutiveFailures := 0,
                         br_consecutiveSuccesses := 0, br_halfOpenRequests := 0\<rparr>))
              else m1)
         | StateOpen \<Rightarrow> m1)"

definition breaker_recordFailure :: "int \<Rightarrow> breaker_Config \<Rightarrow> breakerManager \<Rightarrow> breakerManager" where
  "breaker_recordFailure now config m =
     (let m1 = m\<lparr>br_totalFailed := int64 (br_totalFailed m + 1), br_consecutiveSuccesses := 0,
                 br_consecutiveFailures := int32 (br_consecutiveFailures m + 1), br_lastFailureTime := now\<rparr>
      in case br_state m1 of
           StateClosed \<Rightarrow>
             (if br_consecutiveFailures m1 \<ge> int32 (br_FailureThreshold config)
              then breaker_onOpened config (breaker_onStateChanged StateClosed StateOpen config
                     (m1\<lparr>br_state := StateOpen, br_lastStateChangeTime := now\<rparr>))
              else m1)
         | StateHalfOpen \<Rightarrow>
             breaker_onOpened config (breaker_onStateChanged StateHalfOpen StateOpen config
               (m1\<lparr>br_state := StateOpen, br_lastStateChangeTime := now, br_consecutiveSuccesses := 0,
                   br_halfOpenRequests := 0\<rparr>))
         | StateOpen \<Rightarrow> m1)"

subsection \<open>The operations of the manager\<close>

definition breaker_State :: "breakerManager \<Rightarrow> breaker_state" where
  "breaker_State m = br_state m"

text \<open>An execution, up to the call of the function: \<open>Inl\<close> is an error returned at once. \<open>ctx_nil\<close> and \<open>fn_nil\<close> say that
  the argument is \<^verbatim>\<open>nil\<close>.\<close>

definition breaker_begin :: "int \<Rightarrow> bool \<Rightarrow> bool \<Rightarrow> breaker_Config \<Rightarrow> breakerManager \<Rightarrow> breakerManager \<times> ('e breaker_error + unit)" where
  "breaker_begin now ctx_nil fn_nil config m =
     (if ctx_nil then (m, Inl (BreakerErr ''NIL_CONTEXT'' ''context cannot be nil''))
      else if fn_nil then (m, Inl (BreakerErr ''NIL_FUNCTION'' ''function cannot be nil''))
      else
        (let config = breaker_normalize (br_config m) config;
             m1 = m\<lparr>br_totalExecutions := int64 (br_totalExecutions m + 1)\<rparr>
         in case breaker_allowExecution now config m1 of
              (m2, False) \<Rightarrow>
                (let m3 = breaker_onExecutionRejected config (m2\<lparr>br_totalRejected := int64 (br_totalRejected m2 + 1)\<rparr>)
                 in (m3, Inl (BreakerErr ''CIRCUIT_OPEN'' (''circuit breaker is '' @ breaker_state_String (breaker_State m3)))))
            | (m2, True) \<Rightarrow> (m2\<lparr>br_totalAllowed := int64 (br_totalAllowed m2 + 1)\<rparr>, Inr ())))"

text \<open>The end of an execution whose function returned \<open>err\<close>.\<close>

definition breaker_finish :: "int \<Rightarrow> breaker_Config \<Rightarrow> 'e option \<Rightarrow> breakerManager \<Rightarrow> breakerManager \<times> 'e breaker_error option" where
  "breaker_finish now config err m =
     (let config = breaker_normalize (br_config m) config
      in case err of
           None \<Rightarrow> (breaker_recordSuccess now config m, None)
         | Some e \<Rightarrow> (breaker_recordFailure now config m, Some (BreakerFnErr e)))"

text \<open>The whole call when no other execution comes in between; the function returns at \<open>now'\<close>.\<close>

definition breaker_ExecuteWithConfig ::
  "int \<Rightarrow> int \<Rightarrow> bool \<Rightarrow> bool \<Rightarrow> 'e option \<Rightarrow> breaker_Config \<Rightarrow> breakerManager \<Rightarrow> breakerManager \<times> 'e breaker_error option" where
  "breaker_ExecuteWithConfig now now' ctx_nil fn_nil err config m =
     (case breaker_begin now ctx_nil fn_nil config m of
        (m1, Inl e) \<Rightarrow> (m1, Some e)
      | (m1, Inr _) \<Rightarrow> breaker_finish now' config err m1)"

definition breaker_Execute :: "int \<Rightarrow> int \<Rightarrow> 'e option \<Rightarrow> breakerManager \<Rightarrow> breakerManager \<times> 'e breaker_error option" where
  "breaker_Execute now now' err m = breaker_ExecuteWithConfig now now' False False err (br_config m) m"

definition breaker_AllowWithConfig :: "int \<Rightarrow> bool \<Rightarrow> breaker_Config \<Rightarrow> breakerManager \<Rightarrow> breakerManager \<times> bool" where
  "breaker_AllowWithConfig now ctx_nil config m =
     (if ctx_nil then (m, False) else breaker_allowExecution now (breaker_normalize (br_config m) config) m)"

definition breaker_Allow :: "int \<Rightarrow> bool \<Rightarrow> breakerManager \<Rightarrow> breakerManager \<times> bool" where
  "breaker_Allow now ctx_nil m = breaker_AllowWithConfig now ctx_nil (br_config m) m"

definition breaker_Success :: "int \<Rightarrow> breakerManager \<Rightarrow> breakerManager" where
  "breaker_Success now m = breaker_recordSuccess now (br_config m) m"

definition breaker_Failure :: "int \<Rightarrow> breakerManager \<Rightarrow> breakerManager" where
  "breaker_Failure now m = breaker_recordFailure now (br_config m) m"

definition breaker_Reset :: "int \<Rightarrow> breakerManager \<Rightarrow> breakerManager" where
  "breaker_Reset now m =
     (let currentState = breaker_State m
      in if currentState = StateClosed then m
         else breaker_onClosed (br_config m) (breaker_onStateChanged currentState StateClosed (br_config m)
                (m\<lparr>br_state := StateClosed, br_lastStateChangeTime := now, br_consecutiveFailures := 0,
                   br_consecutiveSuccesses := 0, br_halfOpenRequests := 0\<rparr>)))"

definition breaker_StatsOf :: "breakerManager \<Rightarrow> breaker_Stats" where
  "breaker_StatsOf m =
     \<lparr>bs_TotalExecutions = br_totalExecutions m, bs_TotalAllowed = br_totalAllowed m, bs_TotalRejected = br_totalRejected m,
      bs_TotalSuccessful = br_totalSuccessful m, bs_TotalFailed = br_totalFailed m,
      bs_ConsecutiveFailures = br_consecutiveFailures m, bs_ConsecutiveSuccesses = br_consecutiveSuccesses m,
      bs_CurrentState = breaker_State m, bs_LastFailureTime = br_lastFailureTime m,
      bs_LastSuccessTime = br_lastSuccessTime m, bs_LastStateChangeTime = br_lastStateChangeTime m\<rparr>"

subsection \<open>Specification\<close>

text \<open>What a breaker promises: three states, with the consecutive failures while closed, the time since which it is
  open, and the admitted and the successful probes while it is half open.\<close>

datatype breaker_spec = SpecClosed int | SpecOpen int | SpecHalfOpen int int

datatype breaker_op = BrBegin | BrSucceed | BrFail | BrReset

fun breaker_spec_op :: "breaker_Config \<Rightarrow> int \<Rightarrow> breaker_op \<Rightarrow> breaker_spec \<Rightarrow> breaker_spec \<times> bool" where
  "breaker_spec_op c now BrBegin (SpecClosed f) = (SpecClosed f, True)"
| "breaker_spec_op c now BrBegin (SpecOpen t) =
     (if now - t \<ge> br_Timeout c then (SpecHalfOpen 1 0, True) else (SpecOpen t, False))"
| "breaker_spec_op c now BrBegin (SpecHalfOpen a k) =
     (if a < br_HalfOpenMaxRequests c then (SpecHalfOpen (a + 1) k, True) else (SpecHalfOpen a k, False))"
| "breaker_spec_op c now BrSucceed (SpecClosed f) = (SpecClosed 0, True)"
| "breaker_spec_op c now BrSucceed (SpecOpen t) = (SpecOpen t, True)"
| "breaker_spec_op c now BrSucceed (SpecHalfOpen a k) =
     (if k + 1 \<ge> br_SuccessThreshold c then SpecClosed 0 else SpecHalfOpen a (k + 1), True)"
| "breaker_spec_op c now BrFail (SpecClosed f) =
     (if f + 1 \<ge> br_FailureThreshold c then SpecOpen now else SpecClosed (f + 1), True)"
| "breaker_spec_op c now BrFail (SpecOpen t) = (SpecOpen now, True)"
| "breaker_spec_op c now BrFail (SpecHalfOpen a k) = (SpecOpen now, True)"
| "breaker_spec_op c now BrReset (SpecClosed f) = (SpecClosed f, True)"
| "breaker_spec_op c now BrReset (SpecOpen t) = (SpecClosed 0, True)"
| "breaker_spec_op c now BrReset (SpecHalfOpen a k) = (SpecClosed 0, True)"

text \<open>Operations come with the time that has passed since the one before; the clock is part of the state.\<close>

definition breaker_spec_step :: "breaker_Config \<Rightarrow> nat \<times> breaker_op \<Rightarrow> int \<times> breaker_spec \<Rightarrow> (int \<times> breaker_spec) \<times> bool" where
  "breaker_spec_step c dop s =
     (let now = fst s + int (fst dop); r = breaker_spec_op c now (snd dop) (snd s) in ((now, fst r), snd r))"

fun breaker_op_apply :: "int \<Rightarrow> breaker_op \<Rightarrow> breakerManager \<Rightarrow> breakerManager \<times> bool" where
  "breaker_op_apply now BrBegin m =
     (case breaker_begin now False False (br_config m) m of (m', r) \<Rightarrow> (m', r = (Inr () :: unit breaker_error + unit)))"
| "breaker_op_apply now BrSucceed m = (fst (breaker_finish now (br_config m) (None :: unit option) m), True)"
| "breaker_op_apply now BrFail m = (fst (breaker_finish now (br_config m) (Some ()) m), True)"
| "breaker_op_apply now BrReset m = (breaker_Reset now m, True)"

definition breaker_step :: "nat \<times> breaker_op \<Rightarrow> int \<times> breakerManager \<Rightarrow> (int \<times> breakerManager) \<times> bool" where
  "breaker_step dop s =
     (let now = fst s + int (fst dop); r = breaker_op_apply now (snd dop) (snd s) in ((now, fst r), snd r))"

definition breaker_abs :: "breakerManager \<Rightarrow> breaker_spec" where
  "breaker_abs m =
     (case br_state m of
        StateClosed \<Rightarrow> SpecClosed (br_consecutiveFailures m)
      | StateOpen \<Rightarrow> SpecOpen (max (br_lastFailureTime m) (br_lastStateChangeTime m))
      | StateHalfOpen \<Rightarrow> SpecHalfOpen (br_halfOpenRequests m) (br_consecutiveSuccesses m))"

definition breaker_config_ok :: "breaker_Config \<Rightarrow> bool" where
  "breaker_config_ok c \<longleftrightarrow>
     0 < br_FailureThreshold c \<and> in_int32 (br_FailureThreshold c) \<and>
     0 < br_SuccessThreshold c \<and> in_int32 (br_SuccessThreshold c) \<and>
     0 < br_Timeout c \<and> 0 < br_HalfOpenMaxRequests c \<and> in_int32 (br_HalfOpenMaxRequests c)"

fun breaker_state_ok :: "breaker_Config \<Rightarrow> breaker_state \<Rightarrow> breakerManager \<Rightarrow> bool" where
  "breaker_state_ok c StateClosed m \<longleftrightarrow> 0 \<le> br_consecutiveFailures m \<and> br_consecutiveFailures m < br_FailureThreshold c"
| "breaker_state_ok c StateOpen m \<longleftrightarrow> True"
| "breaker_state_ok c StateHalfOpen m \<longleftrightarrow>
     0 \<le> br_consecutiveSuccesses m \<and> br_consecutiveSuccesses m < br_SuccessThreshold c \<and>
     0 \<le> br_halfOpenRequests m \<and> br_halfOpenRequests m \<le> br_HalfOpenMaxRequests c"

definition breaker_wf :: "breaker_Config \<Rightarrow> int \<times> breakerManager \<Rightarrow> bool" where
  "breaker_wf c s \<longleftrightarrow>
     (case s of (now, m) \<Rightarrow>
        br_config m = c \<and> breaker_config_ok c \<and> breaker_state_ok c (br_state m) m \<and>
        0 < br_lastStateChangeTime m \<and> br_lastStateChangeTime m \<le> now \<and> br_lastFailureTime m \<le> now)"

subsection \<open>The manager implements the specification\<close>

lemmas breaker_cb_defs [op_defs] =
  breaker_onStateChanged_def breaker_onOpened_def breaker_onClosed_def breaker_onHalfOpened_def breaker_onExecutionRejected_def

lemmas breaker_wf_defs = breaker_wf_def breaker_config_ok_def breaker_abs_def breaker_State_def

lemma breaker_normalize_self: "breaker_normalize c c = c"
  by (simp add: breaker_normalize_def)

lemma breaker_admitProbe_eq:
  "breaker_admitProbe config m =
     (if br_halfOpenRequests m \<ge> int32 (br_HalfOpenMaxRequests config) then (m, False)
      else (m\<lparr>br_halfOpenRequests := int32 (br_halfOpenRequests m + 1)\<rparr>, True))"
  by (simp add: breaker_admitProbe_def)

lemma int32_add_one: "0 \<le> x \<Longrightarrow> x < y \<Longrightarrow> in_int32 y \<Longrightarrow> int32 (x + 1) = x + 1"
  by (rule int32_id) (simp add: in_int32_def)

lemma breaker_begin_refines:
  assumes "breaker_wf c (t, m)" "t \<le> now"
  shows "breaker_wf c (now, fst (breaker_op_apply now BrBegin m)) \<and>
     breaker_spec_op c now BrBegin (breaker_abs m) =
       (breaker_abs (fst (breaker_op_apply now BrBegin m)), snd (breaker_op_apply now BrBegin m))"
  using assms int32_add_one [of 0 "br_HalfOpenMaxRequests c"]
    int32_add_one [of "br_halfOpenRequests m" "br_HalfOpenMaxRequests c"]
  by (cases "br_state m")
    (simp_all add: breaker_wf_defs op_defs breaker_begin_def breaker_allowExecution_def breaker_admitProbe_eq
      breaker_normalize_self Let_def max_def)

lemma breaker_succeed_refines:
  assumes "breaker_wf c (t, m)" "t \<le> now"
  shows "breaker_wf c (now, fst (breaker_op_apply now BrSucceed m)) \<and>
     breaker_spec_op c now BrSucceed (breaker_abs m) =
       (breaker_abs (fst (breaker_op_apply now BrSucceed m)), snd (breaker_op_apply now BrSucceed m))"
  using assms int32_add_one [of "br_consecutiveSuccesses m" "br_SuccessThreshold c"]
  by (cases "br_state m")
    (simp_all add: breaker_wf_defs op_defs breaker_finish_def breaker_recordSuccess_def breaker_normalize_self Let_def)

lemma breaker_fail_refines:
  assumes "breaker_wf c (t, m)" "t \<le> now"
  shows "breaker_wf c (now, fst (breaker_op_apply now BrFail m)) \<and>
     breaker_spec_op c now BrFail (breaker_abs m) =
       (breaker_abs (fst (breaker_op_apply now BrFail m)), snd (breaker_op_apply now BrFail m))"
  using assms int32_add_one [of "br_consecutiveFailures m" "br_FailureThreshold c"]
  by (cases "br_state m")
    (simp_all add: breaker_wf_defs op_defs breaker_finish_def breaker_recordFailure_def breaker_normalize_self Let_def max_def)

lemma breaker_reset_refines:
  assumes "breaker_wf c (t, m)" "t \<le> now"
  shows "breaker_wf c (now, fst (breaker_op_apply now BrReset m)) \<and>
     breaker_spec_op c now BrReset (breaker_abs m) =
       (breaker_abs (fst (breaker_op_apply now BrReset m)), snd (breaker_op_apply now BrReset m))"
  using assms
  by (cases "br_state m") (simp_all add: breaker_wf_defs op_defs breaker_Reset_def Let_def)

lemma breaker_op_refines:
  assumes "breaker_wf c (t, m)" "t \<le> now"
  shows "breaker_wf c (now, fst (breaker_op_apply now op m)) \<and>
     breaker_spec_op c now op (breaker_abs m) =
       (breaker_abs (fst (breaker_op_apply now op m)), snd (breaker_op_apply now op m))"
  using breaker_begin_refines [OF assms] breaker_succeed_refines [OF assms] breaker_fail_refines [OF assms]
    breaker_reset_refines [OF assms]
  by (cases op) simp_all

declare breaker_op_apply.simps [simp del]

interpretation br: op_refinement breaker_step "breaker_spec_step c" "map_prod id breaker_abs" "breaker_wf c" for c
proof
  fix s :: "int \<times> breakerManager" and dop :: "nat \<times> breaker_op"
  assume wf: "breaker_wf c s"
  have "breaker_wf c (fst s, snd s)" "fst s \<le> fst s + int (fst dop)"
    using wf by simp_all
  note ref = breaker_op_refines [OF this, of "snd dop"]
  show "breaker_wf c (fst (breaker_step dop s))"
    using ref by (simp add: breaker_step_def Let_def)
  show "breaker_spec_step c dop (map_prod id breaker_abs s) =
      (map_prod id breaker_abs (fst (breaker_step dop s)), snd (breaker_step dop s))"
    using ref by (simp add: breaker_step_def breaker_spec_step_def Let_def)
qed

lemma breaker_new_wf:
  assumes "0 < now" "breaker_config_ok (breaker_normalize breaker_DefaultConfig cfg)"
  shows "breaker_wf (breaker_normalize breaker_DefaultConfig cfg) (now, breaker_NewManagerWithConfig now cfg)"
    and "breaker_abs (breaker_NewManagerWithConfig now cfg) = SpecClosed 0"
  using assms by (simp_all add: breaker_wf_defs breaker_NewManagerWithConfig_def)

subsection \<open>Sequences of whole executions\<close>

text \<open>An execution starts \<open>d\<close> after the one before, its function runs for \<open>d'\<close> and returns \<open>err\<close>.\<close>

definition breaker_exec_step :: "nat \<times> nat \<times> 'e option \<Rightarrow> int \<times> breakerManager \<Rightarrow> (int \<times> breakerManager) \<times> 'e breaker_error option" where
  "breaker_exec_step x s =
     (case x of (d, d', err) \<Rightarrow>
        (let now = fst s + int d; now' = now + int d'; r = breaker_Execute now now' err (snd s)
         in ((now', fst r), snd r)))"

definition breaker_rejection :: "breaker_state \<Rightarrow> 'e breaker_error" where
  "breaker_rejection st = BreakerErr ''CIRCUIT_OPEN'' (''circuit breaker is '' @ breaker_state_String st)"

lemma breaker_begin_cases:
  "breaker_begin now False False (br_config m) m =
     (fst (breaker_op_apply now BrBegin m),
      if snd (breaker_op_apply now BrBegin m) then Inr ()
      else Inl (breaker_rejection (br_state (fst (breaker_op_apply now BrBegin m)))))"
  by (simp add: breaker_op_apply.simps breaker_begin_def Let_def breaker_rejection_def breaker_State_def split: prod.split bool.split)

lemma breaker_finish_op:
  "breaker_finish now (br_config m) err m =
     (fst (breaker_op_apply now (if err = None then BrSucceed else BrFail) m), map_option BreakerFnErr err)"
  by (cases err) (simp_all add: breaker_op_apply.simps breaker_finish_def Let_def)

lemma breaker_Execute_ops:
  assumes "breaker_wf c (t, m)" "t \<le> now"
  shows "breaker_Execute now now' err m =
     (let b = breaker_op_apply now BrBegin m
      in if snd b
         then (fst (breaker_op_apply now' (if err = None then BrSucceed else BrFail) (fst b)), map_option BreakerFnErr err)
         else (fst b, Some (breaker_rejection (br_state (fst b)))))"
proof -
  have "br_config (fst (breaker_op_apply now BrBegin m)) = br_config m"
    using breaker_op_refines [OF assms, of BrBegin] assms(1) by (simp add: breaker_wf_def)
  then show ?thesis
    using breaker_finish_op [of now' "fst (breaker_op_apply now BrBegin m)" err]
    by (simp add: breaker_Execute_def breaker_ExecuteWithConfig_def breaker_begin_cases Let_def)
qed

lemma breaker_exec_admitted:
  assumes wf: "breaker_wf c (t, m)" and adm: "breaker_spec_op c (t + int d) BrBegin (breaker_abs m) = (s1, True)"
    and fin: "breaker_spec_op c (t + int d + int d') (if err = None then BrSucceed else BrFail) s1 = (s2, r)"
  obtains m' where "breaker_exec_step (d, d', err) (t, m) = ((t + int d + int d', m'), map_option BreakerFnErr err)"
    and "breaker_wf c (t + int d + int d', m')" and "breaker_abs m' = s2"
proof -
  let ?now = "t + int d" and ?now' = "t + int d + int d'" and ?op = "if err = None then BrSucceed else BrFail"
  have now: "t \<le> ?now" "?now \<le> ?now'" by simp_all
  note b = breaker_op_refines [OF wf now(1), of BrBegin]
  define m1 where "m1 = fst (breaker_op_apply ?now BrBegin m)"
  have m1: "breaker_wf c (?now, m1)" "breaker_abs m1 = s1" "snd (breaker_op_apply ?now BrBegin m)"
    using b adm by (simp_all add: m1_def)
  note f = breaker_op_refines [OF m1(1) now(2), of ?op]
  show ?thesis
    by (rule that [of "fst (breaker_op_apply ?now' ?op m1)"])
      (use m1 f fin in \<open>simp_all add: breaker_exec_step_def breaker_Execute_ops [OF wf now(1)] m1_def [symmetric] Let_def\<close>)
qed

lemma breaker_exec_rejected:
  assumes wf: "breaker_wf c (t, m)" and rej: "breaker_spec_op c (t + int d) BrBegin (breaker_abs m) = (s1, False)"
  obtains m' where "breaker_exec_step (d, d', err) (t, m) = ((t + int d + int d', m'), Some (breaker_rejection (br_state m')))"
    and "breaker_wf c (t + int d + int d', m')" and "breaker_abs m' = s1"
proof -
  have now: "t \<le> t + int d" by simp
  note b = breaker_op_refines [OF wf now, of BrBegin]
  show ?thesis
    by (rule that [of "fst (breaker_op_apply (t + int d) BrBegin m)"])
      (use b rej in \<open>simp_all add: breaker_exec_step_def breaker_Execute_ops [OF wf now] Let_def breaker_wf_def\<close>)
qed

text \<open>Successful probes of a half-open breaker, one after the other.\<close>

lemma breaker_probes:
  assumes "breaker_wf c (t, m)" "breaker_abs m = SpecHalfOpen a k"
    and "a + int (length ds) \<le> br_HalfOpenMaxRequests c" "k + int (length ds) < br_SuccessThreshold c"
  shows "\<exists>t' m'. op_run breaker_exec_step (t, m) (map (\<lambda>(d, d'). (d, d', None :: 'e option)) ds) = ((t', m'), replicate (length ds) None) \<and>
     breaker_wf c (t', m') \<and> breaker_abs m' = SpecHalfOpen (a + int (length ds)) (k + int (length ds))"
  using assms
proof (induction ds arbitrary: t m a k)
  case (Cons x ds)
  obtain d d' where x: "x = (d, d')" by fastforce
  have adm: "breaker_spec_op c (t + int d) BrBegin (breaker_abs m) = (SpecHalfOpen (a + 1) k, True)"
    using Cons.prems by simp
  have fin: "breaker_spec_op c (t + int d + int d') (if (None :: 'e option) = None then BrSucceed else BrFail) (SpecHalfOpen (a + 1) k) =
      (SpecHalfOpen (a + 1) (k + 1), True)"
    using Cons.prems(4) by simp
  obtain m' where m': "breaker_exec_step (d, d', None :: 'e option) (t, m) = ((t + int d + int d', m'), None)"
    "breaker_wf c (t + int d + int d', m')" "breaker_abs m' = SpecHalfOpen (a + 1) (k + 1)"
    using breaker_exec_admitted [OF Cons.prems(1) adm fin] by (metis option.map(1))
  show ?case
    using Cons.IH [OF m'(2,3)] Cons.prems(3,4) m'(1) by (auto simp: x)
qed simp

lemma breaker_stuck_rejects:
  assumes "breaker_wf c (t, m)" "breaker_abs m = SpecHalfOpen (br_HalfOpenMaxRequests c) k"
  shows "\<exists>t' m'. op_run breaker_exec_step (t, m) xs = ((t', m'), replicate (length xs) (Some (breaker_rejection StateHalfOpen))) \<and>
     br_state m' = StateHalfOpen"
  using assms
proof (induction xs arbitrary: t m)
  case Nil
  then show ?case
    by (auto simp: breaker_abs_def split: breaker_state.splits)
next
  case (Cons x xs)
  obtain d d' err where x: "x = (d, d', err)" by (cases x)
  have "breaker_spec_op c (t + int d) BrBegin (breaker_abs m) = (SpecHalfOpen (br_HalfOpenMaxRequests c) k, False)"
    using Cons.prems by simp
  from breaker_exec_rejected [OF Cons.prems(1) this]
  obtain m' where m': "breaker_exec_step x (t, m) = ((t + int d + int d', m'), Some (breaker_rejection (br_state m')))"
    "breaker_wf c (t + int d + int d', m')" "breaker_abs m' = SpecHalfOpen (br_HalfOpenMaxRequests c) k"
    unfolding x by metis
  then have "br_state m' = StateHalfOpen"
    by (auto simp: breaker_abs_def split: breaker_state.splits)
  then show ?case
    using Cons.IH [OF m'(2,3)] m'(1) by auto
qed

lemma breaker_abs_closed: "breaker_abs m = SpecClosed 0 \<longleftrightarrow> br_state m = StateClosed \<and> br_consecutiveFailures m = 0"
  by (simp add: breaker_abs_def split: breaker_state.splits)

lemma op_run_append:
  "op_run f s (xs @ ys) = (let r = op_run f s xs; r' = op_run f (fst r) ys in (fst r', snd r @ snd r'))"
  by (induction xs arbitrary: s) (auto simp: Let_def split: prod.splits)

text \<open>The first probe, which also makes the breaker half open.\<close>

lemma breaker_first_probe:
  assumes "breaker_wf c (t, m)" "breaker_abs m = SpecOpen t0" "t + int d - t0 \<ge> br_Timeout c" "1 < br_SuccessThreshold c"
  obtains m' where "breaker_exec_step (d, d', None :: 'e option) (t, m) = ((t + int d + int d', m'), None)"
    and "breaker_wf c (t + int d + int d', m')" and "breaker_abs m' = SpecHalfOpen 1 1"
proof -
  have "breaker_spec_op c (t + int d) BrBegin (breaker_abs m) = (SpecHalfOpen 1 0, True)"
    "breaker_spec_op c (t + int d + int d') (if (None :: 'e option) = None then BrSucceed else BrFail) (SpecHalfOpen 1 0) = (SpecHalfOpen 1 1, True)"
    using assms by simp_all
  from breaker_exec_admitted [OF assms(1) this] show ?thesis
    using that by (metis option.map(1))
qed

lemma breaker_open_probes:
  assumes "breaker_wf c (t, m)" "breaker_abs m = SpecOpen t0" "br_Timeout c \<le> t - t0"
    and "ds \<noteq> []" "int (length ds) \<le> br_HalfOpenMaxRequests c" "int (length ds) < br_SuccessThreshold c"
  shows "\<exists>t' m'. op_run breaker_exec_step (t, m) (map (\<lambda>(d, d'). (d, d', None :: 'e option)) ds) = ((t', m'), replicate (length ds) None) \<and>
     breaker_wf c (t', m') \<and> breaker_abs m' = SpecHalfOpen (int (length ds)) (int (length ds))"
proof -
  obtain d d' fs where ds: "ds = (d, d') # fs"
    using assms(4) by (metis list.exhaust surj_pair)
  have prem: "br_Timeout c \<le> t + int d - t0" "1 < br_SuccessThreshold c"
    using assms(3,6) ds by simp_all
  obtain m1 where m1: "breaker_exec_step (d, d', None :: 'e option) (t, m) = ((t + int d + int d', m1), None)"
    "breaker_wf c (t + int d + int d', m1)" "breaker_abs m1 = SpecHalfOpen 1 1"
    using breaker_first_probe [OF assms(1,2) prem] by metis
  show ?thesis
    using breaker_probes [OF m1(2,3), of fs, where 'e = 'e] assms(5,6) ds m1(1) by auto
qed

text \<open>The last successful probe closes the breaker, also when it is the first.\<close>

lemma breaker_last_probe:
  assumes "breaker_wf c (t, m)"
    and "breaker_abs m = SpecHalfOpen k k \<or> (k = 0 \<and> breaker_abs m = SpecOpen t0 \<and> br_Timeout c \<le> t - t0)"
    and "k + 1 = br_SuccessThreshold c" "br_SuccessThreshold c \<le> br_HalfOpenMaxRequests c"
  obtains m' where "breaker_exec_step (d, d', None :: 'e option) (t, m) = ((t + int d + int d', m'), None)"
    and "breaker_abs m' = SpecClosed 0"
proof -
  have "breaker_spec_op c (t + int d) BrBegin (breaker_abs m) = (SpecHalfOpen (k + 1) k, True)"
    "breaker_spec_op c (t + int d + int d') (if (None :: 'e option) = None then BrSucceed else BrFail) (SpecHalfOpen (k + 1) k) = (SpecClosed 0, True)"
    using assms(2-4) by auto
  from breaker_exec_admitted [OF assms(1) this] show ?thesis
    using that by (metis option.map(1))
qed

subsection \<open>Properties\<close>

text \<open>The outcomes of a history of actions, in order: \<open>True\<close> for a success and \<open>False\<close> for a failure.\<close>

definition breaker_outcomes :: "(nat \<times> breaker_op) list \<Rightarrow> bool list" where
  "breaker_outcomes ops = map (\<lambda>x. snd x = BrSucceed) (filter (\<lambda>x. snd x = BrSucceed \<or> snd x = BrFail) ops)"

lemma breaker_outcomes_simps [simp]:
  "breaker_outcomes [] = []"
  "breaker_outcomes ((d, BrBegin) # ops) = breaker_outcomes ops" "breaker_outcomes ((d, BrReset) # ops) = breaker_outcomes ops"
  "breaker_outcomes ((d, BrSucceed) # ops) = True # breaker_outcomes ops"
  "breaker_outcomes ((d, BrFail) # ops) = False # breaker_outcomes ops"
  by (simp_all add: breaker_outcomes_def)

lemma breaker_spec_step_eq:
  "breaker_spec_step c (d, op) (t, s) =
     ((t + int d, fst (breaker_spec_op c (t + int d) op s)), snd (breaker_spec_op c (t + int d) op s))"
  by (simp add: breaker_spec_step_def Let_def)

text \<open>While no run of failures reaches the threshold the specification stays closed, admits everything and counts the failures at the
  end of the history.\<close>

lemma breaker_spec_closed:
  assumes "\<not> sublist (replicate (nat (br_FailureThreshold c)) False) (replicate f False @ breaker_outcomes ops)"
  shows "\<exists>t'. op_run (breaker_spec_step c) (t, SpecClosed (int f)) ops =
     ((t', SpecClosed (int (length (takeWhile Not (rev (replicate f False @ breaker_outcomes ops)))))), replicate (length ops) True)"
  using assms
proof (induction ops arbitrary: t f)
  case Nil
  show ?case by (simp add: takeWhile_replicate)
next
  case (Cons x ops)
  obtain d op where x: "x = (d, op)" by fastforce
  show ?case
  proof (cases op)
    case BrSucceed
    have "\<not> sublist (replicate (nat (br_FailureThreshold c)) False) (replicate 0 False @ breaker_outcomes ops)"
      using Cons.prems x BrSucceed sublist_appendI [of "breaker_outcomes ops" "replicate f False @ [True]" "[]"]
      by (auto dest: sublist_order.order_trans)
    from Cons.IH [OF this, of "t + int d"] show ?thesis
      by (auto simp: x BrSucceed breaker_spec_step_eq takeWhile_tail)
  next
    case BrFail
    have run: "replicate f False @ False # os = replicate (Suc f) False @ os" for os
      by (simp add: replicate_app_Cons_same)
    have "\<not> nat (br_FailureThreshold c) \<le> Suc f"
      using Cons.prems x BrFail run by (auto simp del: replicate.simps dest!: le_Suc_ex simp: replicate_add)
    moreover have "\<exists>t'. op_run (breaker_spec_step c) (t + int d, SpecClosed (int (Suc f))) ops =
       ((t', SpecClosed (int (length (takeWhile Not (rev (replicate (Suc f) False @ breaker_outcomes ops)))))), replicate (length ops) True)"
      using Cons.IH [of "Suc f" "t + int d"] Cons.prems by (simp only: x BrFail breaker_outcomes_simps run simp_thms)
    ultimately show ?thesis
      by (auto simp: x BrFail breaker_spec_step_eq run add.commute simp del: replicate.simps) simp
  qed (use Cons.prems Cons.IH [of f "t + int d"] x in \<open>auto simp: breaker_spec_step_eq\<close>)
qed

lemma breaker_spec_open:
  assumes "t0 \<le> t" "t + int (sum_list (map fst ops)) - t0 < br_Timeout c" "\<forall>x \<in> set ops. snd x \<noteq> BrReset"
  shows "\<exists>t' t1. op_run (breaker_spec_step c) (t, SpecOpen t0) ops = ((t', SpecOpen t1), map (\<lambda>x. snd x \<noteq> BrBegin) ops)"
  using assms
proof (induction ops arbitrary: t t0)
  case (Cons x ops)
  obtain d op where x: "x = (d, op)" by fastforce
  show ?case
    using Cons.prems Cons.IH [of t0 "t + int d"] Cons.IH [of "t + int d" "t + int d"]
    by (cases op) (auto simp: x breaker_spec_step_eq)
qed simp

lemma breaker_abs_state:
  "breaker_abs m = SpecClosed f \<Longrightarrow> br_state m = StateClosed" "breaker_abs m = SpecOpen t0 \<Longrightarrow> br_state m = StateOpen"
  by (simp_all add: breaker_abs_def split: breaker_state.splits)

text \<open>The manager implements the three-state specification.\<close>

lemma breaker_refines_spec:
  assumes "0 < now" "breaker_config_ok (breaker_normalize breaker_DefaultConfig cfg)"
    and "op_run breaker_step (now, breaker_NewManagerWithConfig now cfg) ops = ((now', m), rs)"
  shows "op_run (breaker_spec_step (br_config m)) (now, SpecClosed 0) ops = ((now', breaker_abs m), rs)"
    and "breaker_wf (breaker_normalize breaker_DefaultConfig cfg) (now', m)"
proof -
  note new = breaker_new_wf [OF assms(1,2)]
  show "breaker_wf (breaker_normalize breaker_DefaultConfig cfg) (now', m)"
    using br.run_refines [OF new(1) assms(3)] by simp
  then show "op_run (breaker_spec_step (br_config m)) (now, SpecClosed 0) ops = ((now', breaker_abs m), rs)"
    using br.run_refines [OF new(1) assms(3)] new(2) by (simp add: breaker_wf_def)
qed

text \<open>
  C8. When the breaker trips. A new manager, with a configuration whose thresholds and timeout are positive and fit their fields, is
  given any history of admissions, successes, failures and resets, at any times, where each admission and each recording of a result
  is one uninterrupted action. As long as the outcomes contain no \<^verbatim>\<open>FailureThreshold\<close> consecutive failures, the breaker is closed and has
  admitted every execution. The failure that completes the first such run opens it, and then, for less than \<^verbatim>\<open>Timeout\<close> and until a
  reset, it stays open and rejects every execution, whatever results arrive in the meantime.
\<close>

theorem breaker_trips:
  assumes "0 < now" "breaker_config_ok c" "c = breaker_normalize breaker_DefaultConfig cfg" "k = nat (br_FailureThreshold c)"
    and "op_run breaker_step (now, breaker_NewManagerWithConfig now cfg) ops = ((t, m), rs)"
    and "\<not> sublist (replicate k False) (breaker_outcomes ops)"
  shows "br_state m = StateClosed \<and> rs = replicate (length ops) True \<and>
     (\<forall>d post. suffix (replicate k False) (breaker_outcomes ops @ [False]) \<and> int (sum_list (map fst post)) < br_Timeout c \<and>
        (\<forall>x \<in> set post. snd x \<noteq> BrReset) \<longrightarrow>
        (\<exists>t' m'. op_run breaker_step (t, m) ((d, BrFail) # post) = ((t', m'), True # map (\<lambda>x. snd x \<noteq> BrBegin) post) \<and>
           br_state m' = StateOpen))"
proof -
  define f where "f = length (takeWhile Not (rev (breaker_outcomes ops)))"
  note run = breaker_refines_spec [OF assms(1) _ assms(5), folded assms(3), OF assms(2)]
  have cfg: "br_config m = c" using run(2) by (simp add: breaker_wf_def)
  have closed: "breaker_abs m = SpecClosed (int f)" "rs = replicate (length ops) True"
    using breaker_spec_closed [of c 0 ops now] run(1) assms(4,6) by (auto simp: f_def cfg)
  have trip: "\<exists>t' m'. op_run breaker_step (t, m) ((d, BrFail) # post) = ((t', m'), True # map (\<lambda>x. snd x \<noteq> BrBegin) post) \<and>
        br_state m' = StateOpen"
    if suf: "suffix (replicate k False) (breaker_outcomes ops @ [False])" and post: "int (sum_list (map fst post)) < br_Timeout c"
      "\<forall>x \<in> set post. snd x \<noteq> BrReset" for d post
  proof -
    have "0 < k" using assms(2,4) by (simp add: breaker_config_ok_def)
    then obtain j where j: "k = Suc j" using gr0_implies_Suc by blast
    obtain xs where "breaker_outcomes ops @ [False] = xs @ replicate (Suc j) False" using suf j by (auto simp: suffix_def)
    then have "breaker_outcomes ops = xs @ replicate j False" by (simp add: replicate_append_same [symmetric])
    then have "j \<le> f" by (simp add: f_def takeWhile_append)
    then have "br_FailureThreshold c \<le> int f + 1" using j assms(4) by simp
    then have step: "breaker_spec_step c (d, BrFail) (t, breaker_abs m) = ((t + int d, SpecOpen (t + int d)), True)"
      by (simp add: breaker_spec_step_eq closed)
    obtain t' m' rs' where impl: "op_run breaker_step (t, m) ((d, BrFail) # post) = ((t', m'), rs')" by (metis surj_pair)
    have "op_run (breaker_spec_step c) (t, breaker_abs m) ((d, BrFail) # post) = ((t', breaker_abs m'), rs')"
      using br.run_refines [OF run(2) impl] by simp
    then show ?thesis
      using breaker_spec_open [of "t + int d" "t + int d" post c] post step impl by (auto dest: breaker_abs_state(2) [OF sym])
  qed
  show ?thesis using closed breaker_abs_state(1) [OF closed(1)] trip by blast
qed

text \<open>A failure, a success, a failure; then the second failure in a row opens a breaker of threshold 2, which rejects the next
  execution.\<close>

theorem breaker_trips_witness:
  "\<exists>t m t' m'. op_run breaker_step (1, breaker_NewManagerWithConfig 1 (breaker_DefaultConfig\<lparr>br_FailureThreshold := 2\<rparr>))
       [(0, BrBegin), (1, BrFail), (0, BrBegin), (1, BrSucceed), (5, BrBegin), (5, BrBegin), (2, BrFail)] =
       ((t, m), [True, True, True, True, True, True, True]) \<and>
     br_state m = StateClosed \<and>
     op_run breaker_step (t, m) [(3, BrFail), (59000000000, BrBegin)] = ((t', m'), [True, False]) \<and> br_state m' = StateOpen"
proof -
  let ?cfg = "breaker_DefaultConfig\<lparr>br_FailureThreshold := 2\<rparr>"
  let ?ops = "[(0, BrBegin), (1, BrFail), (0, BrBegin), (1, BrSucceed), (5, BrBegin), (5, BrBegin), (2, BrFail)]"
  obtain t m rs where run: "op_run breaker_step (1, breaker_NewManagerWithConfig 1 ?cfg) ?ops = ((t, m), rs)" by (metis surj_pair)
  have ok: "breaker_config_ok ?cfg" "?cfg = breaker_normalize breaker_DefaultConfig ?cfg" "2 = nat (br_FailureThreshold ?cfg)"
    "br_Timeout ?cfg = 60000000000"
    by (simp_all add: breaker_config_ok_def breaker_normalize_def breaker_DefaultConfig_def in_int32_def)
  have no: "\<not> sublist (replicate 2 False) (breaker_outcomes ?ops)"
    by (auto simp: numeral_2_eq_2 sublist_Cons_right)
  have "suffix (replicate 2 False) (breaker_outcomes ?ops @ [False])"
    by (auto simp: numeral_2_eq_2 suffix_def)
  then have "\<exists>t' m'. op_run breaker_step (t, m) ((3, BrFail) # [(59000000000, BrBegin)]) =
      ((t', m'), True # map (\<lambda>x. snd x \<noteq> BrBegin) [(59000000000 :: nat, BrBegin)]) \<and> br_state m' = StateOpen"
    using breaker_trips [OF zero_less_one ok(1-3) run no, THEN conjunct2, THEN conjunct2, rule_format, of "[(59000000000, BrBegin)]" 3]
    by (simp add: ok(4) del: op_run.simps)
  moreover have "br_state m = StateClosed" "rs = [True, True, True, True, True, True, True]"
    using breaker_trips [OF zero_less_one ok(1-3) run no] by (simp_all del: op_run.simps)
  ultimately show ?thesis
    using run by (auto simp del: op_run.simps)
qed

text \<open>The load and the addition of the half-open case are two actions: two goroutines that are both in it are admitted although one
  probe is allowed.\<close>

lemma breaker_probe_race:
  assumes "br_HalfOpenMaxRequests config = 1" "br_halfOpenRequests m = 0"
  shows "\<exists>m'. breaker_probe_step config P_load m = (P_add, m) \<and>
     breaker_probe_step config P_add m = (P_return True, m') \<and> fst (breaker_probe_step config P_add m') = P_return True \<and>
     br_halfOpenRequests (snd (breaker_probe_step config P_add m')) = 2"
  using assms by (simp add: in_int32_def)

text \<open>
  C23. Recovery. When the success threshold is at most the number of probes that the half-open state allows, a breaker
  that is open and whose timeout has passed closes again after that many successful executions: each of them is
  admitted and returns no error, and afterwards the breaker is closed with no failure counted.
\<close>

theorem breaker_recovers:
  assumes "breaker_wf c (t, m)" "br_state m = StateOpen"
    and "br_SuccessThreshold c \<le> br_HalfOpenMaxRequests c"
    and "t \<ge> max (br_lastFailureTime m) (br_lastStateChangeTime m) + br_Timeout c"
    and "int (length ds) = br_SuccessThreshold c"
  shows "\<exists>t' m'. op_run breaker_exec_step (t, m) (map (\<lambda>(d, d'). (d, d', None :: 'e option)) ds) =
       ((t', m'), replicate (length ds) None) \<and> br_state m' = StateClosed \<and> br_consecutiveFailures m' = 0"
proof -
  define t0 where "t0 = max (br_lastFailureTime m) (br_lastStateChangeTime m)"
  have abs: "breaker_abs m = SpecOpen t0" and late: "br_Timeout c \<le> t - t0"
    using assms(2,4) by (simp_all add: breaker_abs_def t0_def)
  have "ds \<noteq> []" using assms(1,5) by (auto simp: breaker_wf_def breaker_config_ok_def)
  then obtain es d d' where ds: "ds = es @ [(d, d')]"
    by (metis append_butlast_last_id surj_pair)
  have n: "int (length es) + 1 = br_SuccessThreshold c" using assms(5) ds by simp
  have "\<exists>t1 m1. op_run breaker_exec_step (t, m) (map (\<lambda>(d, d'). (d, d', None :: 'e option)) es) = ((t1, m1), replicate (length es) None) \<and>
      breaker_wf c (t1, m1) \<and> (breaker_abs m1 = SpecHalfOpen (int (length es)) (int (length es)) \<or>
        (int (length es) = 0 \<and> breaker_abs m1 = SpecOpen t0 \<and> br_Timeout c \<le> t1 - t0))"
    using breaker_open_probes [OF assms(1) abs late, of es, where 'e = 'e] assms(1,3) abs late n
    by (cases "es = []") auto
  then obtain t1 m1 where m1:
    "op_run breaker_exec_step (t, m) (map (\<lambda>(d, d'). (d, d', None :: 'e option)) es) = ((t1, m1), replicate (length es) None)"
    "breaker_wf c (t1, m1)" "breaker_abs m1 = SpecHalfOpen (int (length es)) (int (length es)) \<or>
        (int (length es) = 0 \<and> breaker_abs m1 = SpecOpen t0 \<and> br_Timeout c \<le> t1 - t0)"
    by blast
  obtain m' where "breaker_exec_step (d, d', None :: 'e option) (t1, m1) = ((t1 + int d + int d', m'), None)"
    "breaker_abs m' = SpecClosed 0"
    using breaker_last_probe [OF m1(2,3) n assms(3)] by metis
  then show ?thesis
    using m1(1) ds by (simp add: op_run_append Let_def breaker_abs_closed replicate_append_same)
qed

text \<open>
  C39. A success threshold above the number of probes is never reached. Probes are counted on admission and the count
  is not lowered when they finish; so after that many successful probes the breaker stays half open and rejects
  every later execution, at any time and although the service is healthy, until \<^verbatim>\<open>Reset\<close> is called.
\<close>

theorem breaker_stuck_half_open:
  assumes "breaker_wf c (t, m)" "br_state m = StateOpen"
    and "br_HalfOpenMaxRequests c < br_SuccessThreshold c"
    and "t \<ge> max (br_lastFailureTime m) (br_lastStateChangeTime m) + br_Timeout c"
    and "int (length ds) = br_HalfOpenMaxRequests c"
  shows "\<exists>t' m'. op_run breaker_exec_step (t, m) (map (\<lambda>(d, d'). (d, d', None :: 'e option)) ds @ xs) =
       ((t', m'), replicate (length ds) None @ replicate (length xs) (Some (breaker_rejection StateHalfOpen))) \<and>
     br_state m' = StateHalfOpen"
proof -
  define t0 where "t0 = max (br_lastFailureTime m) (br_lastStateChangeTime m)"
  have abs: "breaker_abs m = SpecOpen t0" and late: "br_Timeout c \<le> t - t0"
    using assms(2,4) by (simp_all add: breaker_abs_def t0_def)
  have "ds \<noteq> []" using assms(1,5) by (auto simp: breaker_wf_def breaker_config_ok_def)
  then obtain t1 m1 where m1:
    "op_run breaker_exec_step (t, m) (map (\<lambda>(d, d'). (d, d', None :: 'e option)) ds) = ((t1, m1), replicate (length ds) None)"
    "breaker_wf c (t1, m1)" "breaker_abs m1 = SpecHalfOpen (br_HalfOpenMaxRequests c) (br_HalfOpenMaxRequests c)"
    using breaker_open_probes [OF assms(1) abs late, of ds, where 'e = 'e] assms(3,5) by auto
  show ?thesis
    using breaker_stuck_rejects [OF m1(2,3), of xs] m1(1) by (auto simp: op_run_append Let_def)
qed

text \<open>An open breaker, for the examples: two failures opened it at time 10 and the timeout is 100.\<close>

definition breaker_demo_config :: "int \<Rightarrow> int \<Rightarrow> breaker_Config" where
  "breaker_demo_config st mx =
     breaker_DefaultConfig\<lparr>br_FailureThreshold := 2, br_SuccessThreshold := st, br_HalfOpenMaxRequests := mx, br_Timeout := 100\<rparr>"

definition breaker_demo_open :: "int \<Rightarrow> int \<Rightarrow> breakerManager" where
  "breaker_demo_open st mx = breaker_Failure 10 (breaker_Failure 9 (breaker_NewManagerWithConfig 1 (breaker_demo_config st mx)))"

lemma breaker_demo_open_eval:
  assumes "0 < st" "in_int32 st" "0 < mx" "in_int32 mx"
  shows "breaker_wf (breaker_demo_config st mx) (110, breaker_demo_open st mx)"
    and "br_state (breaker_demo_open st mx) = StateOpen"
    and "br_lastFailureTime (breaker_demo_open st mx) = 10" "br_lastStateChangeTime (breaker_demo_open st mx) = 10"
  using assms
  by (simp_all add: breaker_demo_open_def breaker_demo_config_def breaker_wf_defs breaker_Failure_def breaker_recordFailure_def
      breaker_NewManagerWithConfig_def breaker_normalize_def breaker_DefaultConfig_def op_defs Let_def in_int32_def)

theorem breaker_recovers_witness:
  "\<exists>t' m'. op_run breaker_exec_step (110, breaker_demo_open 2 3) [(0, 1, None :: unit option), (0, 1, None)] = ((t', m'), [None, None]) \<and>
     br_state m' = StateClosed"
proof -
  have "in_int32 2" "in_int32 3" by (simp_all add: in_int32_def)
  note demo = breaker_demo_open_eval [of 2 3, OF _ this(1) _ this(2), simplified]
  have "\<exists>t' m'. op_run breaker_exec_step (110, breaker_demo_open 2 3)
      (map (\<lambda>(d, d'). (d, d', None :: unit option)) [(0, 1), (0, 1)]) = ((t', m'), replicate (length [(0 :: nat, 1 :: nat), (0, 1)]) None) \<and>
      br_state m' = StateClosed \<and> br_consecutiveFailures m' = 0"
    by (rule breaker_recovers [OF demo(1,2)]) (simp_all add: demo breaker_demo_config_def)
  then show ?thesis
    by (auto simp del: op_run.simps)
qed

theorem breaker_stuck_half_open_witness:
  "\<exists>t' m'. op_run breaker_exec_step (110, breaker_demo_open 2 1) [(0, 1, None :: unit option), (1000, 0, None), (1000000, 0, None)] =
     ((t', m'), [None, Some (breaker_rejection StateHalfOpen), Some (breaker_rejection StateHalfOpen)])"
proof -
  have "in_int32 2" "in_int32 1" by (simp_all add: in_int32_def)
  note demo = breaker_demo_open_eval [of 2 1, OF _ this(1) _ this(2), simplified]
  let ?xs = "[(1000 :: nat, 0 :: nat, None), (1000000, 0, None :: unit option)]"
  have "\<exists>t' m'. op_run breaker_exec_step (110, breaker_demo_open 2 1)
      (map (\<lambda>(d, d'). (d, d', None :: unit option)) [(0, 1)] @ ?xs) =
        ((t', m'), replicate (length [(0 :: nat, 1 :: nat)]) None @ replicate (length ?xs) (Some (breaker_rejection StateHalfOpen))) \<and>
      br_state m' = StateHalfOpen"
    by (rule breaker_stuck_half_open [OF demo(1,2)]) (simp_all add: demo breaker_demo_config_def)
  then show ?thesis
    by (auto simp del: op_run.simps)
qed

end
