(* ===== verification/Limiter.thy ===== *)
theory Limiter
  imports Prelude
begin

text \<open>
  The token-bucket rate limiter (\<^verbatim>\<open>pkg/core/resilience/limiter/limiter.go\<close>), for calls that do not interleave: a refill runs under a lock,
  but it stores the number of tokens it loaded plus the new ones, and a token that another goroutine takes in between is forgotten;
  such interleavings are not covered. A callback field of the configuration is the flag that it is not \<^verbatim>\<open>nil\<close>; the calls of callbacks are
  appended to a log. \<open>now\<close> is what a refill reads from the clock. The waiting loop takes one round per iteration from a list: what
  \<^verbatim>\<open>ctx.Done()\<close> showed before the attempt, the clock of the attempt, and what \<^verbatim>\<open>ctx.Done()\<close> showed instead of the timer; it
  is \<open>None\<close> when the rounds are used up and the call is still waiting.

  The results: the number of admitted calls never exceeds the burst plus what the elapsed time refills; the waiting
  loop of the only caller backs off exponentially and, when it is not cancelled, returns after logarithmically many rounds.
\<close>

subsection \<open>Types\<close>

record limiter_Config =
  li_Rate :: int
  li_Interval :: int
  li_Burst :: int
  li_OnRateLimitExceeded :: bool
  li_OnRateLimitExceededAsync :: bool
  li_OnAllowed :: bool
  li_OnAllowedAsync :: bool
  li_OnCompleted :: bool
  li_OnCompletedAsync :: bool
  li_EnableMetrics :: bool

datatype 'e limiter_event =
    LiExceeded int int | LiExceededAsync int int | LiAllowed | LiAllowedAsync
  | LiCompleted "'e option" | LiCompletedAsync "'e option"

record limiter_Stats =
  ls_TotalExecutions :: int
  ls_TotalAllowed :: int
  ls_TotalRateLimited :: int
  ls_TotalSuccessful :: int
  ls_TotalFailed :: int
  ls_LastExecutionTime :: int
  ls_CurrentTokens :: int
  ls_CurrentRate :: int
  ls_CurrentInterval :: int

record 'e limiterManager =
  li_config :: limiter_Config
  li_tokens :: int
  li_lastRefill :: int
  li_totalExecutions :: int
  li_totalAllowed :: int
  li_totalRateLimited :: int
  li_totalSuccessful :: int
  li_totalFailed :: int
  li_lastExecutionTime :: int
  li_log :: "'e limiter_event list"

datatype 'e limiter_error = LimiterErr string string | LimiterCtxErr ctx_err | LimiterFnErr 'e

subsection \<open>Creation\<close>

definition limiter_DefaultConfig :: limiter_Config where
  "limiter_DefaultConfig =
     \<lparr>li_Rate = 10, li_Interval = 1000000000, li_Burst = 0, li_OnRateLimitExceeded = False,
      li_OnRateLimitExceededAsync = False, li_OnAllowed = False, li_OnAllowedAsync = False, li_OnCompleted = False,
      li_OnCompletedAsync = False, li_EnableMetrics = False\<rparr>"

text \<open>The guards on a configuration: rate and interval come from another one when they are not positive, and the burst is
  the rate then.\<close>

definition limiter_normalize :: "limiter_Config \<Rightarrow> limiter_Config \<Rightarrow> limiter_Config" where
  "limiter_normalize base config =
     (let config = (if li_Rate config \<le> 0 then config\<lparr>li_Rate := li_Rate base\<rparr> else config);
          config = (if li_Interval config \<le> 0 then config\<lparr>li_Interval := li_Interval base\<rparr> else config)
      in if li_Burst config \<le> 0 then config\<lparr>li_Burst := li_Rate config\<rparr> else config)"

definition limiter_NewManagerWithConfig :: "int \<Rightarrow> limiter_Config \<Rightarrow> 'e limiterManager" where
  "limiter_NewManagerWithConfig now config =
     (let config = limiter_normalize limiter_DefaultConfig config
      in \<lparr>li_config = config, li_tokens = li_Burst config, li_lastRefill = now, li_totalExecutions = 0,
          li_totalAllowed = 0, li_totalRateLimited = 0, li_totalSuccessful = 0, li_totalFailed = 0,
          li_lastExecutionTime = 0, li_log = []\<rparr>)"

definition limiter_NewManager :: "int \<Rightarrow> 'e limiterManager" where
  "limiter_NewManager now = limiter_NewManagerWithConfig now limiter_DefaultConfig"

subsection \<open>The token bucket\<close>

definition limiter_refillRate :: "limiter_Config \<Rightarrow> int" where
  "limiter_refillRate config =
     (let refillRate = go_div (li_Interval config) (li_Rate config) in if refillRate \<le> 0 then 1000000 else refillRate)"

definition limiter_refillTokens :: "int \<Rightarrow> limiter_Config \<Rightarrow> 'e limiterManager \<Rightarrow> 'e limiterManager" where
  "limiter_refillTokens now config m =
     (let elapsed = now - li_lastRefill m
      in if elapsed < li_Interval config then m
         else
           (let tokensToAdd = go_div elapsed (limiter_refillRate config)
            in if tokensToAdd \<le> 0 then m
               else
                 (let newTokens = int64 (li_tokens m + tokensToAdd);
                      burst = li_Burst config
                  in m\<lparr>li_tokens := (if newTokens > burst then burst else newTokens), li_lastRefill := now\<rparr>)))"

text \<open>Without interference the compare-and-swap of \<^verbatim>\<open>consumeToken\<close> succeeds in the first iteration.\<close>

definition limiter_consumeToken :: "int \<Rightarrow> limiter_Config \<Rightarrow> 'e limiterManager \<Rightarrow> 'e limiterManager \<times> bool" where
  "limiter_consumeToken now config m =
     (let m1 = limiter_refillTokens now config m; current = li_tokens m1
      in if current \<le> 0 then (m1, False) else (m1\<lparr>li_tokens := current - 1\<rparr>, True))"

subsection \<open>Waiting for a token\<close>

type_synonym wait_round = "ctx_err option \<times> int \<times> ctx_err option"

fun limiter_waitLoop ::
  "limiter_Config \<Rightarrow> int \<Rightarrow> wait_round list \<Rightarrow> 'e limiterManager \<Rightarrow> ('e limiterManager \<times> int list \<times> ctx_err option) option" where
  "limiter_waitLoop config waitTime [] m = None"
| "limiter_waitLoop config waitTime ((done1, now, done2) # rounds) m =
     (case done1 of
        Some e \<Rightarrow> Some (m, [], Some e)
      | None \<Rightarrow>
          (case limiter_consumeToken now config m of
             (m1, True) \<Rightarrow> Some (m1, [], None)
           | (m1, False) \<Rightarrow>
               (case done2 of
                  Some e \<Rightarrow> Some (m1, [waitTime], Some e)
                | None \<Rightarrow>
                    (let waitTime' = int64 (waitTime * 2);
                         waitTime' = (if waitTime' > li_Interval config then li_Interval config else waitTime')
                     in map_option (\<lambda>(m2, ws, r). (m2, waitTime # ws, r)) (limiter_waitLoop config waitTime' rounds m1)))))"

text \<open>The second component of the result lists the waits, for the statements on the backoff.\<close>

definition limiter_waitForToken ::
  "int \<Rightarrow> wait_round list \<Rightarrow> limiter_Config \<Rightarrow> 'e limiterManager \<Rightarrow> ('e limiterManager \<times> int list \<times> ctx_err option) option" where
  "limiter_waitForToken now rounds config m =
     (case limiter_consumeToken now config m of
        (m1, True) \<Rightarrow> Some (m1, [], None)
      | (m1, False) \<Rightarrow> limiter_waitLoop config (limiter_refillRate config) rounds m1)"

subsection \<open>Callbacks\<close>

definition limiter_onRateLimitExceeded :: "int \<Rightarrow> int \<Rightarrow> limiter_Config \<Rightarrow> 'e limiterManager \<Rightarrow> 'e limiterManager" where
  "limiter_onRateLimitExceeded rate interval config m =
     m\<lparr>li_log := li_log m @ (if li_OnRateLimitExceeded config then [LiExceeded rate interval] else []) @
                  (if li_OnRateLimitExceededAsync config then [LiExceededAsync rate interval] else [])\<rparr>"

definition limiter_onAllowed :: "limiter_Config \<Rightarrow> 'e limiterManager \<Rightarrow> 'e limiterManager" where
  "limiter_onAllowed config m =
     m\<lparr>li_log := li_log m @ (if li_OnAllowed config then [LiAllowed] else []) @
                  (if li_OnAllowedAsync config then [LiAllowedAsync] else [])\<rparr>"

definition limiter_onCompleted :: "'e option \<Rightarrow> limiter_Config \<Rightarrow> 'e limiterManager \<Rightarrow> 'e limiterManager" where
  "limiter_onCompleted err config m =
     m\<lparr>li_log := li_log m @ (if li_OnCompleted config then [LiCompleted err] else []) @
                  (if li_OnCompletedAsync config then [LiCompletedAsync err] else [])\<rparr>"

subsection \<open>The operations of the manager\<close>

text \<open>What the caller sees when waiting failed. \<^verbatim>\<open>ctx.Err()\<close> is one of two values, so the third error of the code, for any
  other, is not reachable.\<close>

fun limiter_wait_error :: "ctx_err \<Rightarrow> 'e limiter_error" where
  "limiter_wait_error DeadlineExceeded =
     LimiterErr ''CONTEXT_TIMEOUT'' (''context timeout while waiting for rate limit: '' @ ctx_err_String DeadlineExceeded)"
| "limiter_wait_error Canceled =
     LimiterErr ''CONTEXT_CANCELED'' (''context cancelled while waiting for rate limit: '' @ ctx_err_String Canceled)"

text \<open>The part after admission: the function returns \<open>err\<close> and the clock then shows \<open>now\<close>.\<close>

definition limiter_run :: "int \<Rightarrow> 'e option \<Rightarrow> limiter_Config \<Rightarrow> 'e limiterManager \<Rightarrow> 'e limiterManager \<times> 'e limiter_error option" where
  "limiter_run now err config m =
     (let m1 = limiter_onAllowed config (m\<lparr>li_totalAllowed := int64 (li_totalAllowed m + 1)\<rparr>);
          m2 = m1\<lparr>li_lastExecutionTime := now\<rparr>;
          m3 = (if err = None then m2\<lparr>li_totalSuccessful := int64 (li_totalSuccessful m2 + 1)\<rparr>
                else m2\<lparr>li_totalFailed := int64 (li_totalFailed m2 + 1)\<rparr>)
      in (limiter_onCompleted err config m3, map_option LimiterFnErr err))"

definition limiter_ExecuteWithConfig ::
  "int \<Rightarrow> int \<Rightarrow> wait_round list \<Rightarrow> int \<Rightarrow> bool \<Rightarrow> bool \<Rightarrow> 'e option \<Rightarrow> limiter_Config \<Rightarrow> 'e limiterManager \<Rightarrow>
     ('e limiterManager \<times> 'e limiter_error option) option" where
  "limiter_ExecuteWithConfig now0 now1 rounds now2 ctx_nil fn_nil err config m =
     (if ctx_nil then Some (m, Some (LimiterErr ''NIL_CONTEXT'' ''context cannot be nil''))
      else if fn_nil then Some (m, Some (LimiterErr ''NIL_FUNCTION'' ''function cannot be nil''))
      else
        (let config = limiter_normalize (li_config m) config;
             m1 = m\<lparr>li_totalExecutions := int64 (li_totalExecutions m + 1)\<rparr>
         in case limiter_consumeToken now0 config m1 of
              (m2, True) \<Rightarrow> Some (limiter_run now2 err config m2)
            | (m2, False) \<Rightarrow>
                (case limiter_waitForToken now1 rounds config m2 of
                   None \<Rightarrow> None
                 | Some (m3, ws, None) \<Rightarrow> Some (limiter_run now2 err config m3)
                 | Some (m3, ws, Some e) \<Rightarrow>
                     Some (limiter_onRateLimitExceeded (li_Rate config) (li_Interval config) config
                             (m3\<lparr>li_totalRateLimited := int64 (li_totalRateLimited m3 + 1)\<rparr>),
                           Some (limiter_wait_error e)))))"

definition limiter_Execute ::
  "int \<Rightarrow> int \<Rightarrow> wait_round list \<Rightarrow> int \<Rightarrow> bool \<Rightarrow> bool \<Rightarrow> 'e option \<Rightarrow> 'e limiterManager \<Rightarrow>
     ('e limiterManager \<times> 'e limiter_error option) option" where
  "limiter_Execute now0 now1 rounds now2 ctx_nil fn_nil err m =
     limiter_ExecuteWithConfig now0 now1 rounds now2 ctx_nil fn_nil err (li_config m) m"

definition limiter_AllowWithConfig :: "int \<Rightarrow> bool \<Rightarrow> limiter_Config \<Rightarrow> 'e limiterManager \<Rightarrow> 'e limiterManager \<times> bool" where
  "limiter_AllowWithConfig now ctx_nil config m =
     (if ctx_nil then (m, False) else limiter_consumeToken now (limiter_normalize (li_config m) config) m)"

definition limiter_Allow :: "int \<Rightarrow> bool \<Rightarrow> 'e limiterManager \<Rightarrow> 'e limiterManager \<times> bool" where
  "limiter_Allow now ctx_nil m = limiter_AllowWithConfig now ctx_nil (li_config m) m"

definition limiter_WaitWithConfig ::
  "int \<Rightarrow> wait_round list \<Rightarrow> bool \<Rightarrow> limiter_Config \<Rightarrow> 'e limiterManager \<Rightarrow> ('e limiterManager \<times> 'e limiter_error option) option" where
  "limiter_WaitWithConfig now rounds ctx_nil config m =
     (if ctx_nil then Some (m, Some (LimiterErr ''NIL_CONTEXT'' ''context cannot be nil''))
      else map_option (\<lambda>(m1, ws, e). (m1, map_option LimiterCtxErr e))
             (limiter_waitForToken now rounds (limiter_normalize (li_config m) config) m))"

definition limiter_Wait ::
  "int \<Rightarrow> wait_round list \<Rightarrow> bool \<Rightarrow> 'e limiterManager \<Rightarrow> ('e limiterManager \<times> 'e limiter_error option) option" where
  "limiter_Wait now rounds ctx_nil m = limiter_WaitWithConfig now rounds ctx_nil (li_config m) m"

definition limiter_StatsOf :: "int \<Rightarrow> 'e limiterManager \<Rightarrow> 'e limiterManager \<times> limiter_Stats" where
  "limiter_StatsOf now m =
     (let m1 = limiter_refillTokens now (li_config m) m
      in (m1, \<lparr>ls_TotalExecutions = li_totalExecutions m1, ls_TotalAllowed = li_totalAllowed m1,
               ls_TotalRateLimited = li_totalRateLimited m1, ls_TotalSuccessful = li_totalSuccessful m1,
               ls_TotalFailed = li_totalFailed m1, ls_LastExecutionTime = li_lastExecutionTime m1,
               ls_CurrentTokens = li_tokens m1, ls_CurrentRate = li_Rate (li_config m1),
               ls_CurrentInterval = li_Interval (li_config m1)\<rparr>))"

subsection \<open>The bucket stays between empty and the burst\<close>

definition limiter_config_ok :: "limiter_Config \<Rightarrow> bool" where
  "limiter_config_ok c \<longleftrightarrow>
     0 < li_Rate c \<and> 0 < li_Interval c \<and> li_Interval c < 2 ^ 62 \<and> 0 < li_Burst c \<and> li_Burst c < 2 ^ 62"

definition limiter_bucket_ok :: "limiter_Config \<Rightarrow> 'e limiterManager \<Rightarrow> bool" where
  "limiter_bucket_ok c m \<longleftrightarrow> 0 \<le> li_tokens m \<and> li_tokens m \<le> li_Burst c"

lemma limiter_normalize_idem:
  "limiter_config_ok c \<Longrightarrow> limiter_normalize b c = c"
  by (simp add: limiter_normalize_def limiter_config_ok_def)

lemma limiter_refillRate_pos: "0 < limiter_refillRate c"
  by (simp add: limiter_refillRate_def Let_def)

lemma limiter_refillRate_less:
  assumes "limiter_config_ok c"
  shows "limiter_refillRate c < 2 ^ 62"
proof -
  have "li_Interval c div li_Rate c \<le> li_Interval c"
    using assms by (simp add: limiter_config_ok_def div_le_dividend_int)
  then show ?thesis
    using assms by (simp add: limiter_refillRate_def Let_def go_div_nonneg limiter_config_ok_def)
qed

text \<open>A refill at \<open>now\<close> adds at most what the time since the last one pays for, and nothing within one interval.\<close>

lemma limiter_refill_bounds:
  assumes "limiter_config_ok c" "limiter_bucket_ok c m" "li_lastRefill m \<le> now" "now - li_lastRefill m < 2 ^ 62"
  defines "m1 \<equiv> limiter_refillTokens now c m"
  shows "limiter_bucket_ok c m1" "li_lastRefill m \<le> li_lastRefill m1" "li_lastRefill m1 \<le> now"
    "li_tokens m1 \<le> li_tokens m + (li_lastRefill m1 - li_lastRefill m) div limiter_refillRate c"
    "li_config m1 = li_config m"
    "li_lastRefill m1 \<noteq> li_lastRefill m \<Longrightarrow> li_Interval c \<le> li_lastRefill m1 - li_lastRefill m"
    "li_tokens m1 = 0 \<Longrightarrow> m1 = m"
proof -
  let ?add = "(now - li_lastRefill m) div limiter_refillRate c"
  have r: "0 < limiter_refillRate c" by (rule limiter_refillRate_pos)
  have add: "go_div (now - li_lastRefill m) (limiter_refillRate c) = ?add"
    using assms(3) r by (simp add: go_div_nonneg)
  have "0 \<le> ?add" "?add \<le> now - li_lastRefill m"
    using assms(3) r by (simp_all add: pos_imp_zdiv_nonneg_iff div_le_dividend_int)
  then have "in_int64 (li_tokens m + ?add)"
    using assms(1,2,4) by (simp add: in_int64_def limiter_config_ok_def limiter_bucket_ok_def)
  then have m1: "m1 = (if now - li_lastRefill m < li_Interval c \<or> ?add \<le> 0 then m
      else m\<lparr>li_tokens := min (li_Burst c) (li_tokens m + ?add), li_lastRefill := now\<rparr>)"
    by (auto simp: m1_def limiter_refillTokens_def Let_def add)
  show "limiter_bucket_ok c m1" "li_lastRefill m \<le> li_lastRefill m1" "li_lastRefill m1 \<le> now"
    "li_tokens m1 \<le> li_tokens m + (li_lastRefill m1 - li_lastRefill m) div limiter_refillRate c"
    "li_config m1 = li_config m"
    using assms(1-3) by (simp_all add: m1 limiter_bucket_ok_def limiter_config_ok_def)
  show "li_Interval c \<le> li_lastRefill m1 - li_lastRefill m" if "li_lastRefill m1 \<noteq> li_lastRefill m"
    using that by (simp add: m1 split: if_splits)
  show "m1 = m" if "li_tokens m1 = 0"
    using that assms(1,2)
    by (cases "now - li_lastRefill m < li_Interval c \<or> ?add \<le> 0")
      (simp_all add: m1 limiter_bucket_ok_def limiter_config_ok_def min_def split: if_splits)
qed

lemma limiter_refill_after:
  assumes "limiter_config_ok c" "limiter_bucket_ok c m"
    and "li_lastRefill m + li_Interval c \<le> now" "li_lastRefill m + limiter_refillRate c \<le> now" "now - li_lastRefill m < 2 ^ 62"
  shows "0 < li_tokens (limiter_refillTokens now c m)"
proof -
  let ?add = "(now - li_lastRefill m) div limiter_refillRate c"
  have r: "0 < limiter_refillRate c" by (rule limiter_refillRate_pos)
  have nonneg: "0 \<le> now - li_lastRefill m" "limiter_refillRate c \<le> now - li_lastRefill m"
    using assms(4) r by auto
  have add: "go_div (now - li_lastRefill m) (limiter_refillRate c) = ?add"
    using r nonneg(1) by (simp add: go_div_nonneg)
  have "0 < ?add" "?add \<le> now - li_lastRefill m"
    using r nonneg by (simp_all add: pos_imp_zdiv_pos_iff div_le_dividend_int)
  moreover from this have "in_int64 (li_tokens m + ?add)"
    using assms(1,2,5) by (simp add: in_int64_def limiter_config_ok_def limiter_bucket_ok_def)
  ultimately show ?thesis
    using assms(1-3) by (simp add: limiter_refillTokens_def Let_def add limiter_bucket_ok_def limiter_config_ok_def)
qed

lemma limiter_consume_cases:
  "limiter_consumeToken now c m =
     (let m1 = limiter_refillTokens now c m
      in if 0 < li_tokens m1 then (m1\<lparr>li_tokens := li_tokens m1 - 1\<rparr>, True) else (m1, False))"
  by (simp add: limiter_consumeToken_def Let_def)

subsection \<open>A sequence of attempts\<close>

definition limiter_allow_step :: "nat \<Rightarrow> int \<times> 'e limiterManager \<Rightarrow> (int \<times> 'e limiterManager) \<times> bool" where
  "limiter_allow_step d s =
     (let now = fst s + int d; r = limiter_Allow now False (snd s) in ((now, fst r), snd r))"

text \<open>The accounting behind the bound: tokens in the bucket and granted ones are paid for by the burst and by the time
  up to the last refill.\<close>

definition limiter_account :: "limiter_Config \<Rightarrow> int \<Rightarrow> int \<Rightarrow> int \<times> 'e limiterManager \<Rightarrow> bool" where
  "limiter_account c t0 granted s \<longleftrightarrow>
     (case s of (now, m) \<Rightarrow>
        li_config m = c \<and> limiter_bucket_ok c m \<and> t0 \<le> li_lastRefill m \<and> li_lastRefill m \<le> now \<and>
        li_tokens m + granted \<le> li_Burst c + (li_lastRefill m - t0) div limiter_refillRate c \<and>
        (li_lastRefill m \<noteq> t0 \<longrightarrow> li_Interval c \<le> li_lastRefill m - t0))"

lemma limiter_account_step:
  assumes c: "limiter_config_ok c" and acc: "limiter_account c t0 g (now, m)" and lt: "now + int d - t0 < 2 ^ 62"
  shows "limiter_account c t0 (g + of_bool (snd (limiter_allow_step d (now, m)))) (fst (limiter_allow_step d (now, m)))"
proof -
  define m1 where "m1 = limiter_refillTokens (now + int d) c m"
  have m: "li_config m = c" "limiter_bucket_ok c m" "li_lastRefill m \<le> now + int d" "now + int d - li_lastRefill m < 2 ^ 62"
    using acc lt by (simp_all add: limiter_account_def)
  note ref = limiter_refill_bounds [OF c m(2,3,4), folded m1_def]
  have "(li_lastRefill m - t0) div limiter_refillRate c + (li_lastRefill m1 - li_lastRefill m) div limiter_refillRate c
      \<le> (li_lastRefill m1 - t0) div limiter_refillRate c"
    using floor_div_superadditive [OF limiter_refillRate_pos, of "li_lastRefill m - t0" c "li_lastRefill m1 - li_lastRefill m"] by simp
  then have "limiter_account c t0 g (now + int d, m1)"
    using ref(1-6) acc m(1) by (auto simp: limiter_account_def)
  then show ?thesis
    by (auto simp: limiter_allow_step_def limiter_Allow_def limiter_AllowWithConfig_def m(1) limiter_normalize_idem [OF c]
        limiter_consume_cases m1_def [symmetric] Let_def limiter_account_def limiter_bucket_ok_def)
qed

lemma limiter_account_run:
  assumes "limiter_config_ok c" "limiter_account c t0 g (now, m)" "now + int (sum_list ds) - t0 < 2 ^ 62"
    and "op_run limiter_allow_step (now, m) ds = (s', rs)"
  shows "limiter_account c t0 (g + int (length (filter id rs))) s' \<and> fst s' = now + int (sum_list ds)"
  using assms(2-)
proof (induction ds arbitrary: g now m rs)
  case (Cons d ds)
  obtain now1 m1 r where st: "limiter_allow_step d (now, m) = ((now1, m1), r)" by (metis surj_pair)
  obtain rs1 where run: "op_run limiter_allow_step (now1, m1) ds = (s', rs1)" "rs = r # rs1"
    using Cons.prems(3) st by (auto split: prod.splits)
  have now1: "now1 = now + int d"
    using st by (simp add: limiter_allow_step_def Let_def)
  have "limiter_account c t0 (g + of_bool r) (now1, m1)"
    using limiter_account_step [OF assms(1) Cons.prems(1), of d] Cons.prems(2) st by simp
  then show ?case
    using Cons.IH [of "g + of_bool r", OF _ _ run(1)] Cons.prems(2) now1 run(2) by (cases r) (simp_all add: algebra_simps)
qed auto

subsection \<open>The waiting loop\<close>

text \<open>The clock of the rounds: each attempt after the first comes at least the wait after the one before, which is what
  \<^verbatim>\<open>time.After\<close> promises.\<close>

fun limiter_timed :: "limiter_Config \<Rightarrow> int \<Rightarrow> int \<Rightarrow> wait_round list \<Rightarrow> bool" where
  "limiter_timed c w t [] \<longleftrightarrow> True"
| "limiter_timed c w t ((d1, now, d2) # rounds) \<longleftrightarrow> t \<le> now \<and> limiter_timed c (min (2 * w) (li_Interval c)) (now + w) rounds"

definition limiter_undisturbed :: "int \<Rightarrow> wait_round list \<Rightarrow> bool" where
  "limiter_undisturbed hi rounds \<longleftrightarrow> (\<forall>(d1, now, d2) \<in> set rounds. d1 = None \<and> d2 = None \<and> now < hi)"

lemma limiter_loop_step:
  assumes c: "limiter_config_ok c" and m: "limiter_bucket_ok c m" "li_lastRefill m \<le> now" "now - li_lastRefill m < 2 ^ 62"
    and w: "0 < w" "w < 2 ^ 62"
  shows "limiter_waitLoop c w ((None, now, None) # rounds) m =
     (if snd (limiter_consumeToken now c m) then Some (fst (limiter_consumeToken now c m), [], None)
      else map_option (\<lambda>(m2, ws, r). (m2, w # ws, r)) (limiter_waitLoop c (min (2 * w) (li_Interval c)) rounds m))"
proof -
  have "in_int64 (w * 2)" using w by (simp add: in_int64_def)
  moreover have "\<not> snd (limiter_consumeToken now c m) \<Longrightarrow> fst (limiter_consumeToken now c m) = m"
    using limiter_refill_bounds(1,7) [OF c m] by (auto simp: limiter_consume_cases Let_def limiter_bucket_ok_def)
  ultimately show ?thesis
    by (auto simp: min_def mult.commute split: prod.splits bool.splits)
qed

declare limiter_waitLoop.simps(2) [simp del]

lemma limiter_loop_returns:
  assumes c: "limiter_config_ok c" "limiter_refillRate c \<le> li_Interval c" and m: "limiter_bucket_ok c m" "li_lastRefill m \<le> t"
    and "0 < w" "w \<le> li_Interval c" "li_Interval c \<le> 2 ^ n * w" "n + 2 \<le> length rounds"
    and "limiter_timed c w t rounds" "limiter_undisturbed (li_lastRefill m + 2 ^ 62) rounds"
  shows "\<exists>m' ws. limiter_waitLoop c w rounds m = Some (m', ws, None) \<and> length ws \<le> n + 1 \<and> (\<forall>x \<in> set ws. 0 < x \<and> x \<le> li_Interval c)"
  using assms(4-)
proof (induction n arbitrary: w t rounds)
  case 0
  obtain now1 now2 rest where rounds: "rounds = (None, now1, None) # (None, now2, None) # rest"
    using 0(5,7) by (cases rounds; cases "tl rounds") (auto simp: limiter_undisturbed_def)
  have w: "w = li_Interval c" using 0(3,4) by simp
  have t: "li_lastRefill m \<le> now1" "now1 - li_lastRefill m < 2 ^ 62" "now1 + w \<le> now2" "now2 - li_lastRefill m < 2 ^ 62"
    using 0(1,6,7) by (auto simp: rounds limiter_undisturbed_def)
  have "snd (limiter_consumeToken now2 c m)"
    using limiter_refill_after [OF c(1) m(1), of now2] c(2) t w by (simp add: limiter_consume_cases Let_def)
  moreover have w62: "w < 2 ^ 62" using w c(1) by (simp add: limiter_config_ok_def)
  moreover have "min (2 * w) (li_Interval c) = w"
    using 0(2) w by simp
  ultimately show ?case
    using limiter_loop_step [OF c(1) m(1) t(1,2) 0(2) w62] limiter_loop_step [OF c(1) m(1) _ t(4) 0(2) w62] t 0(2,3)
    by (auto simp: rounds)
next
  case (Suc n)
  obtain now1 rest where rounds: "rounds = (None, now1, None) # rest"
    using Suc.prems(5,7) by (cases rounds) (auto simp: limiter_undisturbed_def)
  have t: "li_lastRefill m \<le> now1" "now1 - li_lastRefill m < 2 ^ 62"
    using Suc.prems(1,6,7) by (auto simp: rounds limiter_undisturbed_def)
  let ?w = "min (2 * w) (li_Interval c)"
  have "li_Interval c \<le> 2 ^ n * li_Interval c" using c(1) by (simp add: limiter_config_ok_def)
  then have w: "0 < ?w" "?w \<le> li_Interval c" "li_Interval c \<le> 2 ^ n * ?w"
    using Suc.prems(2,4) c(1) by (auto simp: min_def limiter_config_ok_def)
  have rest: "li_lastRefill m \<le> now1 + w" "n + 2 \<le> length rest" "limiter_timed c ?w (now1 + w) rest"
    "limiter_undisturbed (li_lastRefill m + 2 ^ 62) rest"
    using Suc.prems t by (auto simp: rounds limiter_undisturbed_def)
  have "w < 2 ^ 62" using Suc.prems(3) c(1) by (simp add: limiter_config_ok_def)
  then show ?case
    using Suc.IH [OF rest(1) w rest(2-4)] limiter_loop_step [OF c(1) m(1) t Suc.prems(2), of rest] Suc.prems(2,3)
    by (auto simp: rounds)
qed

text \<open>With more tokens per interval than nanoseconds the refill period is a millisecond and may exceed the interval; then the first wait is
  enough.\<close>

lemma limiter_loop_returns_long:
  assumes c: "limiter_config_ok c" "li_Interval c \<le> limiter_refillRate c" and m: "limiter_bucket_ok c m" "li_lastRefill m \<le> t"
    and "2 \<le> length rounds" "limiter_timed c (limiter_refillRate c) t rounds" "limiter_undisturbed (li_lastRefill m + 2 ^ 62) rounds"
  shows "\<exists>m' ws. limiter_waitLoop c (limiter_refillRate c) rounds m = Some (m', ws, None) \<and> length ws \<le> 1 \<and> set ws \<subseteq> {limiter_refillRate c}"
proof -
  let ?w = "limiter_refillRate c"
  obtain now1 now2 rest where rounds: "rounds = (None, now1, None) # (None, now2, None) # rest"
    using assms(5,7) by (cases rounds; cases "tl rounds") (auto simp: limiter_undisturbed_def)
  have t: "li_lastRefill m \<le> now1" "now1 - li_lastRefill m < 2 ^ 62" "now1 + ?w \<le> now2" "now2 - li_lastRefill m < 2 ^ 62"
    using m(2) assms(6,7) by (auto simp: rounds limiter_undisturbed_def)
  have w: "0 < ?w" "?w < 2 ^ 62" using limiter_refillRate_pos limiter_refillRate_less [OF c(1)] by auto
  have nx: "0 < min (2 * ?w) (li_Interval c)" "min (2 * ?w) (li_Interval c) < 2 ^ 62" "li_lastRefill m \<le> now2"
    using w c t by (auto simp: limiter_config_ok_def)
  have "snd (limiter_consumeToken now2 c m)"
    using limiter_refill_after [OF c(1) m(1), of now2] c(2) t by (simp add: limiter_consume_cases Let_def)
  then show ?thesis
    using limiter_loop_step [OF c(1) m(1) t(1,2) w, of "(None, now2, None) # rest"]
      limiter_loop_step [OF c(1) m(1) nx(3) t(4) nx(1,2), of rest]
    by (auto simp: rounds)
qed

subsection \<open>Properties\<close>

text \<open>
  C25. The limiter keeps its rate. For every sequence of attempts that do not interleave, at any times, a new manager grants at most the
  burst plus one execution per refill period of the elapsed time, and at most the burst within its first interval;
  the bucket stays between empty and the burst. Interval, burst and elapsed time are below \<open>2 ^ 62\<close>.
\<close>

theorem limiter_rate_bound:
  fixes m :: "'e limiterManager"
  assumes "limiter_config_ok (limiter_normalize limiter_DefaultConfig cfg)"
    and "op_run limiter_allow_step (t0, limiter_NewManagerWithConfig t0 cfg) ds = ((now, m), rs)"
    and "sum_list ds < 2 ^ 62"
  shows "let c = limiter_normalize limiter_DefaultConfig cfg; granted = int (length (filter id rs))
     in granted \<le> li_Burst c + (now - t0) div limiter_refillRate c \<and>
        (now - t0 < li_Interval c \<longrightarrow> granted \<le> li_Burst c) \<and> 0 \<le> li_tokens m \<and> li_tokens m \<le> li_Burst c"
proof -
  let ?c = "limiter_normalize limiter_DefaultConfig cfg"
  have "limiter_account ?c t0 0 (t0, limiter_NewManagerWithConfig t0 cfg :: 'e limiterManager)"
    using assms(1)
    by (simp add: limiter_account_def limiter_NewManagerWithConfig_def Let_def limiter_bucket_ok_def limiter_config_ok_def)
  moreover have "int (sum_list ds) < 2 ^ 62"
    using assms(3) by (metis of_nat_less_iff of_nat_numeral of_nat_power)
  ultimately have acc: "limiter_account ?c t0 (int (length (filter id rs))) (now, m)"
    using limiter_account_run [OF assms(1) _ _ assms(2), of t0 0] by auto
  moreover have "(li_lastRefill m - t0) div limiter_refillRate ?c \<le> (now - t0) div limiter_refillRate ?c"
    using acc by (intro zdiv_mono1 limiter_refillRate_pos) (simp add: limiter_account_def)
  ultimately show ?thesis
    by (auto simp: Let_def limiter_account_def limiter_bucket_ok_def)
qed

theorem limiter_rate_bound_witness:
  "\<exists>m. op_run limiter_allow_step (0, limiter_NewManagerWithConfig 0 (limiter_DefaultConfig\<lparr>li_Rate := 2, li_Interval := 10\<rparr>))
         [0, 0, 0, 5, 5] = ((10, m :: unit limiterManager), [True, True, False, False, True]) \<and> li_tokens m = 1"
proof -
  let ?cfg = "limiter_DefaultConfig\<lparr>li_Rate := 2, li_Interval := 10\<rparr>"
  define m0 :: "unit limiterManager" where "m0 = limiter_NewManagerWithConfig 0 ?cfg"
  define c where "c = ?cfg\<lparr>li_Burst := 2\<rparr>"
  have m0: "li_config m0 = c" "m0 = m0\<lparr>li_tokens := 2, li_lastRefill := 0\<rparr>"
    by (simp_all add: m0_def c_def limiter_NewManagerWithConfig_def limiter_normalize_def limiter_DefaultConfig_def)
  have c: "limiter_normalize c c = c" "li_Interval c = 10" "li_Burst c = 2" "limiter_refillRate c = 5"
    by (simp_all add: c_def limiter_normalize_def limiter_DefaultConfig_def limiter_refillRate_def go_div_nonneg)
  let ?m = "\<lambda>k t. m0\<lparr>li_tokens := k, li_lastRefill := t\<rparr>"
  note step = limiter_allow_step_def limiter_Allow_def limiter_AllowWithConfig_def m0(1) c limiter_consumeToken_def
    limiter_refillTokens_def go_div_nonneg in_int64_def Let_def
  have "limiter_allow_step 0 (0, ?m 2 0) = ((0, ?m 1 0), True)" "limiter_allow_step 0 (0, ?m 1 0) = ((0, ?m 0 0), True)"
    "limiter_allow_step 0 (0, ?m 0 0) = ((0, ?m 0 0), False)" "limiter_allow_step 5 (0, ?m 0 0) = ((5, ?m 0 0), False)"
    "limiter_allow_step 5 (5, ?m 0 0) = ((10, ?m 1 10), True)"
    by (simp_all add: step)
  then have "op_run limiter_allow_step (0, ?m 2 0) [0, 0, 0, 5, 5] = ((10, ?m 1 10), [True, True, False, False, True])"
    by simp
  then have run: "op_run limiter_allow_step (0, limiter_NewManagerWithConfig 0 ?cfg) [0, 0, 0, 5, 5] =
      ((10, ?m 1 10), [True, True, False, False, True])"
    by (metis m0(2) m0_def)
  have "limiter_config_ok (limiter_normalize limiter_DefaultConfig ?cfg)"
    by (simp add: limiter_config_ok_def limiter_normalize_def limiter_DefaultConfig_def Let_def)
  from limiter_rate_bound [OF this run] show ?thesis
    using run by (intro exI [of _ "?m 1 10"]) simp
qed

text \<open>
  C26. Waiting ends for a caller that nobody competes with. When no other call uses the manager meanwhile, the context is not done and
  every retry comes no earlier than the timer allows, the waiting loop of a manager whose bucket is between empty and the burst returns
  without an error once it has had \<open>n + 2\<close> rounds, for any \<open>n\<close> with \<^verbatim>\<open>Interval\<close> at most \<open>2 ^ n\<close> refill periods: it sleeps at most \<open>n + 1\<close>
  times and never longer than the interval or, if that is longer, one refill period. Interval, burst and the time since the last refill are
  below \<open>2 ^ 62\<close>.
\<close>

theorem limiter_wait_returns:
  assumes "limiter_config_ok (li_config m)"
    and "limiter_bucket_ok (li_config m) m" "li_lastRefill m \<le> now" "now - li_lastRefill m < 2 ^ 62"
    and "li_Interval (li_config m) \<le> 2 ^ n * limiter_refillRate (li_config m)" "n + 2 \<le> length rounds"
    and "limiter_timed (li_config m) (limiter_refillRate (li_config m)) now rounds"
    and "limiter_undisturbed (li_lastRefill m + 2 ^ 62) rounds"
  shows "(\<exists>m'. limiter_Wait now rounds False m = Some (m', None)) \<and>
     (\<exists>m' ws. limiter_waitForToken now rounds (li_config m) m = Some (m', ws, None) \<and> length ws \<le> n + 1 \<and>
        (\<forall>w \<in> set ws. 0 < w \<and> w \<le> max (li_Interval (li_config m)) (limiter_refillRate (li_config m))))"
proof -
  let ?c = "li_config m" and ?r = "limiter_refillRate (li_config m)"
  have "\<exists>m' ws. limiter_waitLoop ?c ?r rounds m = Some (m', ws, None) \<and> length ws \<le> n + 1 \<and> (\<forall>w \<in> set ws. 0 < w \<and> w \<le> max (li_Interval ?c) ?r)"
  proof (cases "?r \<le> li_Interval ?c")
    case True
    then show ?thesis
      using limiter_loop_returns [OF assms(1) True assms(2,3) limiter_refillRate_pos True assms(5-8)] by (fastforce simp: le_max_iff_disj)
  next
    case False
    then show ?thesis
      using limiter_loop_returns_long [OF assms(1) _ assms(2,3) _ assms(7,8)] assms(6) limiter_refillRate_pos [of ?c] by fastforce
  qed
  moreover have "\<not> snd (limiter_consumeToken now ?c m) \<Longrightarrow> fst (limiter_consumeToken now ?c m) = m"
    using limiter_refill_bounds(1,7) [OF assms(1-4)] by (auto simp: limiter_consume_cases Let_def limiter_bucket_ok_def)
  ultimately have "\<exists>m' ws. limiter_waitForToken now rounds ?c m = Some (m', ws, None) \<and> length ws \<le> n + 1 \<and>
      (\<forall>w \<in> set ws. 0 < w \<and> w \<le> max (li_Interval ?c) ?r)"
    by (auto simp: limiter_waitForToken_def split: prod.splits bool.splits)
  then show ?thesis
    by (auto simp: limiter_Wait_def limiter_WaitWithConfig_def limiter_normalize_idem [OF assms(1)])
qed

theorem limiter_wait_returns_witness:
  "\<exists>m :: unit limiterManager. li_tokens m = 0 \<and>
     (\<exists>m'. limiter_Wait 0 [(None, 0, None), (None, 5, None), (None, 15, None)] False m = Some (m', None))"
proof -
  define m :: "unit limiterManager" where
    "m = (limiter_NewManagerWithConfig 0 (limiter_DefaultConfig\<lparr>li_Rate := 2, li_Interval := 10\<rparr>))\<lparr>li_tokens := 0\<rparr>"
  have m: "li_config m = limiter_DefaultConfig\<lparr>li_Rate := 2, li_Interval := 10, li_Burst := 2\<rparr>" "li_lastRefill m = 0" "li_tokens m = 0"
    by (simp_all add: m_def limiter_NewManagerWithConfig_def limiter_normalize_def limiter_DefaultConfig_def)
  have rate: "limiter_refillRate (li_config m) = 5"
    by (simp add: m limiter_refillRate_def limiter_DefaultConfig_def go_div_nonneg)
  have "\<exists>m'. limiter_Wait 0 [(None, 0, None), (None, 5, None), (None, 15, None)] False m = Some (m', None)"
    by (rule limiter_wait_returns [of m 0 1, THEN conjunct1])
      (simp_all add: rate, simp_all add: m limiter_config_ok_def limiter_DefaultConfig_def limiter_bucket_ok_def limiter_undisturbed_def)
  then show ?thesis
    using m(3) by blast
qed

end
