(* ===== verification/Bulkhead.thy ===== *)
theory Bulkhead
  imports Chan
begin

text \<open>
  The bulkhead (\<^verbatim>\<open>pkg/core/resilience/bulkhead/bulkhead.go\<close>) with its callers, its queue processor and the goroutines
  of queued executions running concurrently. Each goroutine is a program counter and the successor functions list the
  atomic steps it can take; an execution context may be done at any moment and a function may return any error at any
  time, so these are arguments of the steps. The result channel of call \<open>i\<close>, which has capacity one, is \<open>bh_results i\<close>. The
  calls of callbacks are appended to a log.

  The results: at most \<^verbatim>\<open>MaxConcurrency\<close> functions execute at a time and at most \<^verbatim>\<open>MaxQueueSize\<close> calls wait in the queue,
  whatever is cancelled or stopped; the configuration passed to \<^verbatim>\<open>ExecuteWithConfig\<close> has no effect.
\<close>

subsection \<open>Types\<close>

record bulkhead_Config =
  bh_MaxConcurrency :: int
  bh_MaxQueueSize :: int
  bh_QueueTimeout :: int
  bh_OnRejected :: bool
  bh_OnRejectedAsync :: bool
  bh_OnExecuting :: bool
  bh_OnExecutingAsync :: bool
  bh_OnCompleted :: bool
  bh_OnCompletedAsync :: bool
  bh_EnableMetrics :: bool

datatype 'e bulkhead_event =
    BhRejected string | BhRejectedAsync string | BhExecuting | BhExecutingAsync
  | BhCompleted "'e option" | BhCompletedAsync "'e option"

datatype 'e bulkhead_error =
    BhErr string string | BhErrFull int | BhErrQueueFull int int | BhFnErr 'e

record bulkhead_Stats =
  hs_TotalExecutions :: int
  hs_TotalAccepted :: int
  hs_TotalRejected :: int
  hs_TotalSuccessful :: int
  hs_TotalFailed :: int
  hs_CurrentConcurrency :: int
  hs_CurrentQueueSize :: int
  hs_LastExecutionTime :: int

record 'e bulkheadManager =
  bh_config :: bulkhead_Config
  bh_semaphore :: "unit chan"
  bh_queue :: "nat chan option"
  bh_currentConcurrency :: int
  bh_totalExecutions :: int
  bh_totalAccepted :: int
  bh_totalRejected :: int
  bh_totalSuccessful :: int
  bh_totalFailed :: int
  bh_currentQueueSize :: int
  bh_lastExecutionTime :: int
  bh_stopChan :: "unit chan"
  bh_doneChan :: "unit chan"
  bh_results :: "nat \<Rightarrow> 'e bulkhead_error option option"
  bh_log :: "'e bulkhead_event list"

definition bulkhead_DefaultConfig :: bulkhead_Config where
  "bulkhead_DefaultConfig =
     \<lparr>bh_MaxConcurrency = 10, bh_MaxQueueSize = 0, bh_QueueTimeout = 0, bh_OnRejected = False, bh_OnRejectedAsync = False,
      bh_OnExecuting = False, bh_OnExecutingAsync = False, bh_OnCompleted = False, bh_OnCompletedAsync = False,
      bh_EnableMetrics = False\<rparr>"

definition bulkhead_NewManagerWithConfig :: "bulkhead_Config \<Rightarrow> 'e bulkheadManager" where
  "bulkhead_NewManagerWithConfig config =
     (let config = (if bh_MaxConcurrency config \<le> 0
                    then config\<lparr>bh_MaxConcurrency := bh_MaxConcurrency bulkhead_DefaultConfig\<rparr> else config);
          config = (if bh_MaxQueueSize config < 0 then config\<lparr>bh_MaxQueueSize := 0\<rparr> else config)
      in \<lparr>bh_config = config, bh_semaphore = make_chan (nat (bh_MaxConcurrency config)),
          bh_queue = (if bh_MaxQueueSize config > 0 then Some (make_chan (nat (bh_MaxQueueSize config))) else None),
          bh_currentConcurrency = 0, bh_totalExecutions = 0, bh_totalAccepted = 0, bh_totalRejected = 0,
          bh_totalSuccessful = 0, bh_totalFailed = 0, bh_currentQueueSize = 0, bh_lastExecutionTime = 0,
          bh_stopChan = make_chan 0, bh_doneChan = (make_chan 0)\<lparr>chan_closed := \<not> bh_MaxQueueSize config > 0\<rparr>,
          bh_results = (\<lambda>_. None), bh_log = []\<rparr>)"

definition bulkhead_NewManager :: "'e bulkheadManager" where
  "bulkhead_NewManager = bulkhead_NewManagerWithConfig bulkhead_DefaultConfig"

subsection \<open>Callbacks\<close>

definition bulkhead_onRejected :: "string \<Rightarrow> 'e bulkheadManager \<Rightarrow> 'e bulkheadManager" where
  "bulkhead_onRejected reason m =
     m\<lparr>bh_log := bh_log m @ (if bh_OnRejected (bh_config m) then [BhRejected reason] else []) @
                  (if bh_OnRejectedAsync (bh_config m) then [BhRejectedAsync reason] else [])\<rparr>"

definition bulkhead_onExecuting :: "'e bulkheadManager \<Rightarrow> 'e bulkheadManager" where
  "bulkhead_onExecuting m =
     m\<lparr>bh_log := bh_log m @ (if bh_OnExecuting (bh_config m) then [BhExecuting] else []) @
                  (if bh_OnExecutingAsync (bh_config m) then [BhExecutingAsync] else [])\<rparr>"

definition bulkhead_onCompleted :: "'e option \<Rightarrow> 'e bulkheadManager \<Rightarrow> 'e bulkheadManager" where
  "bulkhead_onCompleted err m =
     m\<lparr>bh_log := bh_log m @ (if bh_OnCompleted (bh_config m) then [BhCompleted err] else []) @
                  (if bh_OnCompletedAsync (bh_config m) then [BhCompletedAsync err] else [])\<rparr>"

text \<open>A rejection counts and calls the callbacks; a result is dropped when the result channel is full.\<close>

definition bulkhead_reject :: "string \<Rightarrow> 'e bulkheadManager \<Rightarrow> 'e bulkheadManager" where
  "bulkhead_reject reason m = bulkhead_onRejected reason (m\<lparr>bh_totalRejected := int64 (bh_totalRejected m + 1)\<rparr>)"

definition bulkhead_result :: "nat \<Rightarrow> 'e bulkhead_error option \<Rightarrow> 'e bulkheadManager \<Rightarrow> 'e bulkheadManager" where
  "bulkhead_result i r m =
     (if bh_results m i = None then m\<lparr>bh_results := (bh_results m)(i := Some r)\<rparr> else m)"

subsection \<open>Executing with the semaphore\<close>

text \<open>What follows the return of the function; \<open>err\<close> is what it returned and \<open>now\<close> the clock after it. \<open>ch\<close> is the call whose
  result channel was passed, when there is one.\<close>

definition bulkhead_complete :: "'e option \<Rightarrow> int \<Rightarrow> nat option \<Rightarrow> 'e bulkheadManager \<Rightarrow> 'e bulkheadManager" where
  "bulkhead_complete err now ch m =
     (let m1 = m\<lparr>bh_lastExecutionTime := now\<rparr>;
          m2 = (if err = None then m1\<lparr>bh_totalSuccessful := int64 (bh_totalSuccessful m1 + 1)\<rparr>
                else m1\<lparr>bh_totalFailed := int64 (bh_totalFailed m1 + 1)\<rparr>);
          m3 = bulkhead_onCompleted err m2
      in case ch of None \<Rightarrow> m3 | Some i \<Rightarrow> bulkhead_result i (map_option BhFnErr err) m3)"

datatype 'e exec_pc = XStart | XRunning | XRelease "'e option" | XDecrement "'e option" | XEnd "'e option"

text \<open>The deferred release receives from the semaphore and then lowers the counter.\<close>

fun bulkhead_exec_next :: "'e option \<Rightarrow> int \<Rightarrow> nat option \<Rightarrow> 'e bulkheadManager \<Rightarrow> 'e exec_pc \<Rightarrow> ('e bulkheadManager \<times> 'e exec_pc) list" where
  "bulkhead_exec_next err now ch m XStart =
     [(bulkhead_onExecuting (m\<lparr>bh_currentConcurrency := int32 (bh_currentConcurrency m + 1),
                               bh_totalAccepted := int64 (bh_totalAccepted m + 1)\<rparr>), XRunning)]"
| "bulkhead_exec_next err now ch m XRunning =
     [(bulkhead_complete err now ch m, XRelease err)]"
| "bulkhead_exec_next err now ch m (XRelease e) =
     concat (map (\<lambda>r. case r of Received _ sem \<Rightarrow> [(m\<lparr>bh_semaphore := sem\<rparr>, XDecrement e)] | _ \<Rightarrow> [])
                 (select_recv False False (bh_semaphore m)))"
| "bulkhead_exec_next err now ch m (XDecrement e) =
     [(m\<lparr>bh_currentConcurrency := int32 (bh_currentConcurrency m - 1)\<rparr>, XEnd e)]"
| "bulkhead_exec_next err now ch m (XEnd e) = []"

subsection \<open>Callers\<close>

datatype 'e bulkhead_pc =
    HCall bool bool bulkhead_Config | HQueueSelect bulkhead_Config | HTryQueue bulkhead_Config | HEnqueued | HWaiting
  | HDirect bulkhead_Config | HExec "'e exec_pc" | HDone "'e bulkhead_error option"

text \<open>\<^verbatim>\<open>ExecuteWithConfig\<close> up to the choice between the two modes.\<close>

definition bulkhead_execConfig :: "bulkhead_Config \<Rightarrow> bulkhead_Config \<Rightarrow> bulkhead_Config" where
  "bulkhead_execConfig own config =
     (let c = own;
          c = (if bh_OnRejected config then c\<lparr>bh_OnRejected := bh_OnRejected config\<rparr> else c);
          c = (if bh_OnRejectedAsync config then c\<lparr>bh_OnRejectedAsync := bh_OnRejectedAsync config\<rparr> else c);
          c = (if bh_OnExecuting config then c\<lparr>bh_OnExecuting := bh_OnExecuting config\<rparr> else c);
          c = (if bh_OnExecutingAsync config then c\<lparr>bh_OnExecutingAsync := bh_OnExecutingAsync config\<rparr> else c);
          c = (if bh_OnCompleted config then c\<lparr>bh_OnCompleted := bh_OnCompleted config\<rparr> else c)
      in if bh_OnCompletedAsync config then c\<lparr>bh_OnCompletedAsync := bh_OnCompletedAsync config\<rparr> else c)"

definition bulkhead_ExecuteWithConfig :: "bool \<Rightarrow> bool \<Rightarrow> bulkhead_Config \<Rightarrow> 'e bulkheadManager \<Rightarrow> 'e bulkheadManager \<times> 'e bulkhead_pc" where
  "bulkhead_ExecuteWithConfig ctx_nil fn_nil config m =
     (if ctx_nil then (m, HDone (Some (BhErr ''NIL_CONTEXT'' ''context cannot be nil'')))
      else if fn_nil then (m, HDone (Some (BhErr ''NIL_FUNCTION'' ''function cannot be nil'')))
      else
        (let m1 = m\<lparr>bh_totalExecutions := int64 (bh_totalExecutions m + 1)\<rparr>;
             execConfig = bulkhead_execConfig (bh_config m1) config
         in (m1, if bh_MaxQueueSize execConfig > 0 \<and> bh_queue m1 \<noteq> None then HQueueSelect execConfig else HDirect execConfig)))"

definition bulkhead_Execute :: "bool \<Rightarrow> bool \<Rightarrow> 'e bulkheadManager \<Rightarrow> 'e bulkhead_pc" where
  "bulkhead_Execute ctx_nil fn_nil m = HCall ctx_nil fn_nil (bh_config m)"

text \<open>What the caller gets when its context is done, with the text for each of the two errors.\<close>

fun bulkhead_ctx_error :: "string \<Rightarrow> ctx_err \<Rightarrow> 'e bulkhead_error" where
  "bulkhead_ctx_error s DeadlineExceeded = BhErr ''CONTEXT_TIMEOUT'' (''context timeout'' @ s @ '': '' @ ctx_err_String DeadlineExceeded)"
| "bulkhead_ctx_error s Canceled = BhErr ''CONTEXT_CANCELED'' (''context cancelled'' @ s @ '': '' @ ctx_err_String Canceled)"

text \<open>The select over the semaphore and the context, which both modes start with. \<open>dn\<close> is the error of the context, when it is
  done; \<open>dflt\<close> is the default case.\<close>

definition bulkhead_acquire ::
  "ctx_err option \<Rightarrow> 'e bulkheadManager \<Rightarrow> ('e bulkheadManager \<times> 'e bulkhead_pc) \<Rightarrow> ('e bulkheadManager \<times> 'e bulkhead_pc) list" where
  "bulkhead_acquire dn m dflt =
     concat (map (\<lambda>r. case r of
          Sent sem \<Rightarrow> [(m\<lparr>bh_semaphore := sem\<rparr>, HExec XStart)]
        | SentDone \<Rightarrow>
            (case dn of
               None \<Rightarrow> []
             | Some e \<Rightarrow> [(bulkhead_reject ''context cancelled'' m, HDone (Some (bulkhead_ctx_error '''' e)))])
        | SentDefault \<Rightarrow> [dflt]
        | SentPanic \<Rightarrow> [])
       (select_send True (dn \<noteq> None) (bh_semaphore m) ()))"

definition bulkhead_executeWithoutQueue ::
  "ctx_err option \<Rightarrow> bulkhead_Config \<Rightarrow> 'e bulkheadManager \<Rightarrow> ('e bulkheadManager \<times> 'e bulkhead_pc) list" where
  "bulkhead_executeWithoutQueue dn config m =
     bulkhead_acquire dn m (bulkhead_reject ''bulkhead full'' m, HDone (Some (BhErrFull (bh_MaxConcurrency config))))"

text \<open>\<^verbatim>\<open>executeWithQueue\<close>: the attempt on the semaphore, the attempt on the queue, and the wait for the result.\<close>

fun bulkhead_executeWithQueue ::
  "nat \<Rightarrow> ctx_err option \<Rightarrow> 'e bulkheadManager \<Rightarrow> 'e bulkhead_pc \<Rightarrow> ('e bulkheadManager \<times> 'e bulkhead_pc) list" where
  "bulkhead_executeWithQueue i dn m (HQueueSelect config) = bulkhead_acquire dn m (m, HTryQueue config)"
| "bulkhead_executeWithQueue i dn m (HTryQueue config) =
     (case bh_queue m of
        None \<Rightarrow> []
      | Some q \<Rightarrow>
          concat (map (\<lambda>r. case r of
               Sent q' \<Rightarrow> [(m\<lparr>bh_queue := Some q'\<rparr>, HEnqueued)]
             | SentDefault \<Rightarrow>
                 [(bulkhead_reject ''bulkhead and queue full'' m,
                   HDone (Some (BhErrQueueFull (bh_MaxConcurrency config) (bh_MaxQueueSize config))))]
             | _ \<Rightarrow> [])
            (select_send True False q i)))"
| "bulkhead_executeWithQueue i dn m HEnqueued = [(m\<lparr>bh_currentQueueSize := bh_currentQueueSize m + 1\<rparr>, HWaiting)]"
| "bulkhead_executeWithQueue i dn m HWaiting =
     (case bh_results m i of
        None \<Rightarrow> []
      | Some r \<Rightarrow> [(m\<lparr>bh_currentQueueSize := bh_currentQueueSize m - 1\<rparr>, HDone r)]) @
     (case dn of
        None \<Rightarrow> []
      | Some e \<Rightarrow>
          [(bulkhead_reject ''context cancelled while queued'' (m\<lparr>bh_currentQueueSize := bh_currentQueueSize m - 1\<rparr>),
            HDone (Some (bulkhead_ctx_error '' while queued'' e)))])"
| "bulkhead_executeWithQueue i dn m _ = []"

text \<open>The caller that executes itself returns what its function returned.\<close>

definition after_exec :: "'e exec_pc \<Rightarrow> 'e bulkhead_pc" where
  "after_exec x = (case x of XEnd e \<Rightarrow> HDone (map_option BhFnErr e) | _ \<Rightarrow> HExec x)"

fun bulkhead_call_next ::
  "nat \<Rightarrow> ctx_err option \<Rightarrow> 'e option \<Rightarrow> int \<Rightarrow> 'e bulkheadManager \<Rightarrow> 'e bulkhead_pc \<Rightarrow> ('e bulkheadManager \<times> 'e bulkhead_pc) list" where
  "bulkhead_call_next i dn err now m (HCall ctx_nil fn_nil config) = [bulkhead_ExecuteWithConfig ctx_nil fn_nil config m]"
| "bulkhead_call_next i dn err now m (HDirect config) = bulkhead_executeWithoutQueue dn config m"
| "bulkhead_call_next i dn err now m (HExec x) = map (map_prod id after_exec) (bulkhead_exec_next err now None m x)"
| "bulkhead_call_next i dn err now m pc = bulkhead_executeWithQueue i dn m pc"

subsection \<open>The queue processor\<close>

datatype proc_pc = PSelect | PHold nat | PStopped

text \<open>The processor takes a call from the queue and waits for the semaphore; \<open>fired\<close> says whether the timer of the queue
  timeout has fired. The last component is the call whose execution it starts, if any.\<close>

definition bulkhead_drop :: "nat \<Rightarrow> string \<Rightarrow> 'e bulkhead_error \<Rightarrow> 'e bulkheadManager \<Rightarrow> 'e bulkheadManager" where
  "bulkhead_drop i reason e m = bulkhead_result i (Some e) (bulkhead_reject reason m)"

fun bulkhead_proc_next ::
  "bool \<Rightarrow> bool \<Rightarrow> 'e bulkheadManager \<Rightarrow> proc_pc \<Rightarrow> ('e bulkheadManager \<times> proc_pc \<times> nat option) list" where
  "bulkhead_proc_next fired dn m PSelect =
     (case bh_queue m of
        None \<Rightarrow> []
      | Some q \<Rightarrow>
          concat (map (\<lambda>r. case r of
               Received (Some i) q' \<Rightarrow> [(m\<lparr>bh_queue := Some q'\<rparr>, PHold i, None)]
             | ReceivedDone \<Rightarrow> [(m\<lparr>bh_doneChan := (bh_doneChan m)\<lparr>chan_closed := True\<rparr>\<rparr>, PStopped, None)]
             | _ \<Rightarrow> [])
            (select_recv False (chan_closed (bh_stopChan m)) q)))"
| "bulkhead_proc_next fired dn m (PHold i) =
     concat (map (\<lambda>r. case r of Sent sem \<Rightarrow> [(m\<lparr>bh_semaphore := sem\<rparr>, PSelect, Some i)] | _ \<Rightarrow> [])
       (select_send False False (bh_semaphore m) ())) @
     (if bh_QueueTimeout (bh_config m) > 0 \<and> fired
      then [(bulkhead_drop i ''queue timeout'' (BhErr ''CONTEXT_TIMEOUT'' ''queue timeout while waiting for bulkhead slot'') m, PSelect, None)]
      else []) @
     (if dn
      then [(bulkhead_drop i ''context cancelled'' (BhErr ''CONTEXT_CANCELED'' ''context cancelled while waiting for bulkhead slot'') m, PSelect, None)]
      else []) @
     (if chan_closed (bh_stopChan m)
      then [(let m1 = bulkhead_drop i ''bulkhead stopped'' (BhErr ''BULKHEAD_FULL'' ''bulkhead stopped'') m
             in m1\<lparr>bh_doneChan := (bh_doneChan m1)\<lparr>chan_closed := True\<rparr>\<rparr>, PStopped, None)]
      else [])"
| "bulkhead_proc_next fired dn m PStopped = []"

subsection \<open>Stop and Stats\<close>

datatype stop_pc = SCheck | SClose | SWait | SRet | SPanic

fun bulkhead_Stop_next :: "'e bulkheadManager \<Rightarrow> stop_pc \<Rightarrow> ('e bulkheadManager \<times> stop_pc) list" where
  "bulkhead_Stop_next m SCheck = [(m, if chan_closed (bh_stopChan m) then SRet else SClose)]"
| "bulkhead_Stop_next m SClose =
     [case chan_close (bh_stopChan m) of None \<Rightarrow> (m, SPanic) | Some ch \<Rightarrow> (m\<lparr>bh_stopChan := ch\<rparr>, SWait)]"
| "bulkhead_Stop_next m SWait = (if chan_closed (bh_doneChan m) then [(m, SRet)] else [])"
| "bulkhead_Stop_next m SRet = []"
| "bulkhead_Stop_next m SPanic = []"

definition bulkhead_StatsOf :: "'e bulkheadManager \<Rightarrow> bulkhead_Stats" where
  "bulkhead_StatsOf m =
     \<lparr>hs_TotalExecutions = bh_totalExecutions m, hs_TotalAccepted = bh_totalAccepted m, hs_TotalRejected = bh_totalRejected m,
      hs_TotalSuccessful = bh_totalSuccessful m, hs_TotalFailed = bh_totalFailed m,
      hs_CurrentConcurrency = bh_currentConcurrency m, hs_CurrentQueueSize = bh_currentQueueSize m,
      hs_LastExecutionTime = bh_lastExecutionTime m\<rparr>"

subsection \<open>The whole system\<close>

record 'e bulkhead_sys =
  sys_m :: "'e bulkheadManager"
  sys_calls :: "(nat \<times> 'e bulkhead_pc) multiset"
  sys_execs :: "(nat \<times> 'e exec_pc) multiset"
  sys_proc :: proc_pc
  sys_stops :: "stop_pc multiset"

definition bulkhead_init :: "bulkhead_Config \<Rightarrow> 'e bulkhead_sys \<Rightarrow> bool" where
  "bulkhead_init config s \<longleftrightarrow>
     sys_m s = bulkhead_NewManagerWithConfig config \<and>
     (\<forall>(i, pc) \<in># sys_calls s. \<exists>cn fn c. pc = HCall cn fn c) \<and> sys_execs s = {#} \<and> sys_proc s = PSelect \<and>
     (\<forall>pc \<in># sys_stops s. pc = SCheck)"

inductive bulkhead_step :: "'e bulkhead_sys \<Rightarrow> 'e bulkhead_sys \<Rightarrow> bool" where
  step_call: "sys_calls s = add_mset (i, pc) C \<Longrightarrow> (m', pc') \<in> set (bulkhead_call_next i dn err now (sys_m s) pc) \<Longrightarrow>
     bulkhead_step s (s\<lparr>sys_m := m', sys_calls := add_mset (i, pc') C\<rparr>)"
| step_exec: "sys_execs s = add_mset (i, x) X \<Longrightarrow> (m', x') \<in> set (bulkhead_exec_next err now (Some i) (sys_m s) x) \<Longrightarrow>
     bulkhead_step s (s\<lparr>sys_m := m', sys_execs := add_mset (i, x') X\<rparr>)"
| step_proc: "(m', p', started) \<in> set (bulkhead_proc_next fired dn (sys_m s) (sys_proc s)) \<Longrightarrow>
     bulkhead_step s (s\<lparr>sys_m := m', sys_proc := p',
       sys_execs := (case started of None \<Rightarrow> sys_execs s | Some i \<Rightarrow> add_mset (i, XStart) (sys_execs s))\<rparr>)"
| step_stop: "sys_stops s = add_mset pc C \<Longrightarrow> (m', pc') \<in> set (bulkhead_Stop_next (sys_m s) pc) \<Longrightarrow>
     bulkhead_step s (s\<lparr>sys_m := m', sys_stops := add_mset pc' C\<rparr>)"

subsection \<open>The semaphore counts the executions\<close>

text \<open>Between sending to the semaphore and receiving from it, and between the two updates of the counter.\<close>

fun exec_holds :: "'e exec_pc \<Rightarrow> bool" where
  "exec_holds XStart = True"
| "exec_holds XRunning = True"
| "exec_holds (XRelease e) = True"
| "exec_holds (XDecrement e) = False"
| "exec_holds (XEnd e) = False"

fun exec_counted :: "'e exec_pc \<Rightarrow> bool" where
  "exec_counted XStart = False"
| "exec_counted XRunning = True"
| "exec_counted (XRelease e) = True"
| "exec_counted (XDecrement e) = True"
| "exec_counted (XEnd e) = False"

fun call_holds :: "'e bulkhead_pc \<Rightarrow> bool" where
  "call_holds (HExec x) = exec_holds x"
| "call_holds _ = False"

fun call_counted :: "'e bulkhead_pc \<Rightarrow> bool" where
  "call_counted (HExec x) = exec_counted x"
| "call_counted _ = False"

definition bulkhead_ok :: "'e bulkheadManager \<Rightarrow> bool" where
  "bulkhead_ok m \<longleftrightarrow>
     chan_cap (bh_semaphore m) = nat (bh_MaxConcurrency (bh_config m)) \<and> \<not> chan_closed (bh_semaphore m) \<and>
     length (chan_buf (bh_semaphore m)) \<le> chan_cap (bh_semaphore m) \<and>
     (\<forall>q. bh_queue m = Some q \<longrightarrow>
        \<not> chan_closed q \<and> chan_cap q = nat (bh_MaxQueueSize (bh_config m)) \<and> length (chan_buf q) \<le> chan_cap q)"

abbreviation sem_len :: "'e bulkheadManager \<Rightarrow> nat" where
  "sem_len m \<equiv> length (chan_buf (bh_semaphore m))"

lemmas bulkhead_op_defs =
  bulkhead_onRejected_def bulkhead_onExecuting_def bulkhead_onCompleted_def bulkhead_reject_def bulkhead_result_def bulkhead_drop_def

text \<open>Callbacks, rejections and results leave everything but the log, the counters and the results.\<close>

lemma bulkhead_reject_keeps [simp]:
  "bh_config (bulkhead_reject r m) = bh_config m" "bh_semaphore (bulkhead_reject r m) = bh_semaphore m"
  "bh_queue (bulkhead_reject r m) = bh_queue m" "bh_currentConcurrency (bulkhead_reject r m) = bh_currentConcurrency m"
  by (simp_all add: bulkhead_op_defs)

lemma bulkhead_drop_keeps [simp]:
  "bh_config (bulkhead_drop i r e m) = bh_config m" "bh_semaphore (bulkhead_drop i r e m) = bh_semaphore m"
  "bh_queue (bulkhead_drop i r e m) = bh_queue m" "bh_currentConcurrency (bulkhead_drop i r e m) = bh_currentConcurrency m"
  by (simp_all add: bulkhead_op_defs)

lemma bulkhead_ok_cong:
  "bh_config m' = bh_config m \<Longrightarrow> bh_semaphore m' = bh_semaphore m \<Longrightarrow> bh_queue m' = bh_queue m \<Longrightarrow> bulkhead_ok m' = bulkhead_ok m"
  by (simp add: bulkhead_ok_def)

lemma bulkhead_result_keeps [simp]:
  "bh_config (bulkhead_result i r m) = bh_config m" "bh_semaphore (bulkhead_result i r m) = bh_semaphore m"
  "bh_queue (bulkhead_result i r m) = bh_queue m" "bh_currentConcurrency (bulkhead_result i r m) = bh_currentConcurrency m"
  by (simp_all add: bulkhead_op_defs)

lemma bulkhead_complete_keeps [simp]:
  "bh_config (bulkhead_complete err now ch m) = bh_config m" "bh_semaphore (bulkhead_complete err now ch m) = bh_semaphore m"
  "bh_queue (bulkhead_complete err now ch m) = bh_queue m"
  "bh_currentConcurrency (bulkhead_complete err now ch m) = bh_currentConcurrency m"
  by (cases ch; simp add: bulkhead_complete_def bulkhead_onCompleted_def Let_def)+

lemma bulkhead_onExecuting_keeps [simp]:
  "bh_config (bulkhead_onExecuting m) = bh_config m" "bh_semaphore (bulkhead_onExecuting m) = bh_semaphore m"
  "bh_queue (bulkhead_onExecuting m) = bh_queue m" "bh_currentConcurrency (bulkhead_onExecuting m) = bh_currentConcurrency m"
  by (simp_all add: bulkhead_onExecuting_def)

lemma exec_cases:
  assumes "bulkhead_ok m" "(m', x') \<in> set (bulkhead_exec_next err now ch m x)"
  obtains
    (start) "x = XStart" "x' = XRunning" "bh_config m' = bh_config m" "bh_queue m' = bh_queue m"
      "bh_semaphore m' = bh_semaphore m" "bh_currentConcurrency m' = int32 (bh_currentConcurrency m + 1)"
  | (complete) "x = XRunning" "x' = XRelease err" "bh_config m' = bh_config m" "bh_queue m' = bh_queue m"
      "bh_semaphore m' = bh_semaphore m" "bh_currentConcurrency m' = bh_currentConcurrency m"
  | (release) e u sem where "x = XRelease e" "x' = XDecrement e" "chan_buf (bh_semaphore m) = u # sem"
      "m' = m\<lparr>bh_semaphore := (bh_semaphore m)\<lparr>chan_buf := sem\<rparr>\<rparr>"
  | (decrement) e where "x = XDecrement e" "x' = XEnd e" "m' = m\<lparr>bh_currentConcurrency := int32 (bh_currentConcurrency m - 1)\<rparr>"
proof (cases x)
  case (XRelease e)
  show ?thesis
  proof (cases "chan_buf (bh_semaphore m)")
    case Nil
    then show ?thesis
      using assms XRelease by (simp add: set_select_recv bulkhead_ok_def)
  next
    case (Cons u sem)
    then show ?thesis
      using assms(2) XRelease by (intro release [OF XRelease _ Cons]) (simp_all add: set_select_recv)
  qed
qed (use assms(2) start complete decrement in simp_all)

declare bulkhead_exec_next.simps [simp del]

lemma exec_keeps:
  assumes "bulkhead_ok m" "(m', x') \<in> set (bulkhead_exec_next err now ch m x)"
  shows "bulkhead_ok m' \<and> bh_config m' = bh_config m \<and>
     sem_len m' + of_bool (exec_holds x) = sem_len m + of_bool (exec_holds x')"
    and "bh_currentConcurrency m = int32 n \<Longrightarrow>
        bh_currentConcurrency m' = int32 (n + of_bool (exec_counted x') - of_bool (exec_counted x))"
  by (use assms(1) in \<open>cases rule: exec_cases [OF assms]; simp add: bulkhead_ok_def\<close>)+

lemma acquire_keeps:
  assumes "bulkhead_ok m" "(m', pc') \<in> set (bulkhead_acquire dn m dflt)" "dflt = (m1, pc1)" "\<not> call_holds pc1" "\<not> call_counted pc1"
    and "bh_config m1 = bh_config m" "bh_semaphore m1 = bh_semaphore m" "bh_queue m1 = bh_queue m" "bh_currentConcurrency m1 = bh_currentConcurrency m"
  shows "bulkhead_ok m' \<and> bh_config m' = bh_config m \<and> sem_len m' = sem_len m + of_bool (call_holds pc') \<and>
     bh_currentConcurrency m' = bh_currentConcurrency m \<and> \<not> call_counted pc'"
  using assms bulkhead_ok_cong [OF assms(6-8)]
  by (auto simp: bulkhead_acquire_def set_select_send bulkhead_ok_def split: if_splits option.splits)

lemma with_queue_keeps:
  assumes "bulkhead_ok m" "(m', pc') \<in> set (bulkhead_executeWithQueue i dn m pc)"
  shows "bulkhead_ok m' \<and> bh_config m' = bh_config m \<and> sem_len m' = sem_len m + of_bool (call_holds pc') \<and>
     bh_currentConcurrency m' = bh_currentConcurrency m \<and> \<not> call_counted pc' \<and> \<not> call_holds pc \<and> \<not> call_counted pc"
proof (cases pc)
  case (HQueueSelect c)
  then show ?thesis
    using acquire_keeps [OF assms(1) _ refl, of m' pc' dn m "HTryQueue c"] assms(2) by simp
next
  case (HTryQueue c)
  then show ?thesis
    using assms by (auto simp: set_select_send bulkhead_ok_def split: option.splits if_splits)
qed (use assms in \<open>auto simp: bulkhead_ok_def split: option.splits\<close>)

lemma execute_keeps:
  assumes "bulkhead_ok m" "bulkhead_ExecuteWithConfig cn fn c m = (m', pc')"
  shows "bulkhead_ok m' \<and> bh_config m' = bh_config m \<and> bh_semaphore m' = bh_semaphore m \<and>
     bh_currentConcurrency m' = bh_currentConcurrency m \<and> \<not> call_holds pc' \<and> \<not> call_counted pc'"
  using assms by (auto simp: bulkhead_ExecuteWithConfig_def Let_def bulkhead_ok_def split: if_splits)

lemma after_exec_holds [simp]: "call_holds (after_exec x) = exec_holds x" "call_counted (after_exec x) = exec_counted x"
  by (cases x; simp add: after_exec_def)+

lemma call_keeps:
  assumes ok: "bulkhead_ok m" and step: "(m', pc') \<in> set (bulkhead_call_next i dn err now m pc)"
  shows "bulkhead_ok m' \<and> bh_config m' = bh_config m \<and>
     sem_len m' + of_bool (call_holds pc) = sem_len m + of_bool (call_holds pc')" (is ?A)
    and "bh_currentConcurrency m = int32 n \<Longrightarrow>
        bh_currentConcurrency m' = int32 (n + of_bool (call_counted pc') - of_bool (call_counted pc))" (is "_ \<Longrightarrow> ?B")
proof -
  have "?A \<and> (bh_currentConcurrency m = int32 n \<longrightarrow> ?B)"
  proof (cases pc)
    case (HCall cn fn c)
    then show ?thesis
      using execute_keeps [OF ok, of cn fn c m' pc'] step by simp
  next
    case (HDirect c)
    then show ?thesis
      using acquire_keeps [OF ok _ refl, of m' pc' dn "bulkhead_reject ''bulkhead full'' m" "HDone (Some (BhErrFull (bh_MaxConcurrency c)))"] step
      by (simp add: bulkhead_executeWithoutQueue_def)
  next
    case (HExec x)
    with step obtain x' where x': "pc' = after_exec x'" "(m', x') \<in> set (bulkhead_exec_next err now None m x)"
      by auto
    show ?thesis
      using exec_keeps(1) [OF ok x'(2)] exec_keeps(2) [OF ok x'(2), of n] by (simp add: HExec x'(1))
  qed (use with_queue_keeps [OF ok, of m' pc' i dn pc] step in \<open>simp_all del: bulkhead_executeWithQueue.simps\<close>)
  then show ?A "bh_currentConcurrency m = int32 n \<Longrightarrow> ?B" by simp_all
qed

lemma proc_keeps:
  assumes "bulkhead_ok m" "(m', p', started) \<in> set (bulkhead_proc_next fired dn m p)"
  shows "bulkhead_ok m' \<and> bh_config m' = bh_config m \<and> sem_len m' = sem_len m + of_bool (started \<noteq> None) \<and>
     bh_currentConcurrency m' = bh_currentConcurrency m"
proof (cases p)
  case PSelect
  then obtain q where q: "bh_queue m = Some q" using assms(2) by (cases "bh_queue m") auto
  show ?thesis
    using assms PSelect q by (cases "chan_buf q") (auto simp: set_select_recv bulkhead_ok_def split: if_splits)
next
  case (PHold i)
  then show ?thesis
    using assms by (auto simp: set_select_send bulkhead_ok_def Let_def split: if_splits)
qed (use assms in simp)

lemma stop_keeps:
  assumes "bulkhead_ok m" "(m', pc') \<in> set (bulkhead_Stop_next m pc)"
  shows "bulkhead_ok m' \<and> bh_config m' = bh_config m \<and> bh_semaphore m' = bh_semaphore m \<and>
     bh_currentConcurrency m' = bh_currentConcurrency m"
  using assms by (cases pc) (auto simp: bulkhead_ok_def split: option.splits if_splits)

text \<open>The invariant of the system: the semaphore holds one token per execution that has it, and the counter is the number of
  executions between its two updates.\<close>

definition bulkhead_inv :: "bulkhead_Config \<Rightarrow> 'e bulkhead_sys \<Rightarrow> bool" where
  "bulkhead_inv c s \<longleftrightarrow>
     bulkhead_ok (sys_m s) \<and> bh_config (sys_m s) = c \<and>
     sem_len (sys_m s) = count_if (\<lambda>(i, pc). call_holds pc) (sys_calls s) + count_if (\<lambda>(i, x). exec_holds x) (sys_execs s) \<and>
     bh_currentConcurrency (sys_m s) =
       int32 (int (count_if (\<lambda>(i, pc). call_counted pc) (sys_calls s)) + int (count_if (\<lambda>(i, x). exec_counted x) (sys_execs s)))"

lemma bulkhead_inv_init:
  assumes "bulkhead_init config s"
  shows "bulkhead_inv (bh_config (sys_m s)) s"
proof -
  have "count_if (\<lambda>(i, pc). call_holds pc) (sys_calls s) = 0" "count_if (\<lambda>(i, pc). call_counted pc) (sys_calls s) = 0"
    using assms by (auto simp: count_if_zero_iff bulkhead_init_def)
  moreover have "int32 0 = 0" by (simp add: in_int32_def)
  ultimately show ?thesis
    using assms by (simp add: bulkhead_init_def bulkhead_inv_def bulkhead_NewManagerWithConfig_def bulkhead_ok_def make_chan_def Let_def)
qed

lemma bulkhead_inv_step:
  assumes inv: "bulkhead_inv c s" and "bulkhead_step s t"
  shows "bulkhead_inv c t"
  using assms(2)
proof cases
  case (step_call i pc C m' pc' dn err now)
  then show ?thesis
    using call_keeps(1) [OF _ step_call(3)] call_keeps(2) [OF _ step_call(3)] inv
    by (simp add: bulkhead_inv_def algebra_simps)
next
  case (step_exec i x X m' x' err now)
  then show ?thesis
    using exec_keeps(1) [OF _ step_exec(3)] exec_keeps(2) [OF _ step_exec(3)] inv
    by (simp add: bulkhead_inv_def algebra_simps)
next
  case (step_proc m' p' started fired dn)
  then show ?thesis
    using proc_keeps [OF _ step_proc(2)] inv by (cases started) (simp_all add: bulkhead_inv_def)
next
  case (step_stop pc C m' pc')
  then show ?thesis
    using stop_keeps [OF _ step_stop(3)] inv by (simp add: bulkhead_inv_def)
qed

definition bulkhead_config_of :: "bulkhead_Config \<Rightarrow> bulkhead_Config" where
  "bulkhead_config_of config = bh_config (bulkhead_NewManagerWithConfig config :: unit bulkheadManager)"

lemma bulkhead_config_init: "bulkhead_init config s \<Longrightarrow> bh_config (sys_m s) = bulkhead_config_of config"
  by (simp add: bulkhead_init_def bulkhead_config_of_def bulkhead_NewManagerWithConfig_def Let_def)

interpretation bulkhead: inductive_invariant "bulkhead_init config" bulkhead_step "bulkhead_inv (bulkhead_config_of config)" for config
proof
  fix s :: "'e bulkhead_sys"
  assume "bulkhead_init config s"
  then show "bulkhead_inv (bulkhead_config_of config) s"
    using bulkhead_inv_init [of config s] bulkhead_config_init [of config s] by simp
qed (rule bulkhead_inv_step)

subsection \<open>Properties\<close>

definition executing :: "'e bulkhead_sys \<Rightarrow> nat" where
  "executing s = count_if (\<lambda>(i, pc). pc = HExec XRunning) (sys_calls s) + count_if (\<lambda>(i, x). x = XRunning) (sys_execs s)"

lemma count_if_mono: "(\<And>x. P x \<Longrightarrow> Q x) \<Longrightarrow> count_if P M \<le> count_if Q M"
  by (induction M) (auto simp: of_bool_def)

lemma executing_le: "executing s \<le> count_if (\<lambda>(i, pc). call_holds pc) (sys_calls s) + count_if (\<lambda>(i, x). exec_holds x) (sys_execs s)"
  unfolding executing_def by (intro add_mono count_if_mono) auto

text \<open>
  C10. Isolation. However its callers, its queue processor, the executions, cancellations, timeouts and \<^verbatim>\<open>Stop\<close> interleave, a
  bulkhead runs at most \<^verbatim>\<open>MaxConcurrency\<close> functions at a time and keeps at most \<^verbatim>\<open>MaxQueueSize\<close> calls in its queue; a value
  that is not positive counts as the default 10 and as no queue.
\<close>

theorem bulkhead_bounded:
  assumes "reach (bulkhead_init config) bulkhead_step s"
  shows "int (executing s) \<le> (if bh_MaxConcurrency config \<le> 0 then 10 else bh_MaxConcurrency config) \<and>
     (case bh_queue (sys_m s) of None \<Rightarrow> True | Some q \<Rightarrow> int (length (chan_buf q)) \<le> max 0 (bh_MaxQueueSize config))"
proof -
  have inv: "bulkhead_inv (bulkhead_config_of config) s"
    by (rule bulkhead.reach_inv [OF assms])
  have mc: "bh_MaxConcurrency (bulkhead_config_of config) = (if bh_MaxConcurrency config \<le> 0 then 10 else bh_MaxConcurrency config)"
    and mq: "bh_MaxQueueSize (bulkhead_config_of config) = max 0 (bh_MaxQueueSize config)"
    by (simp_all add: bulkhead_config_of_def bulkhead_NewManagerWithConfig_def bulkhead_DefaultConfig_def Let_def)
  have "executing s \<le> nat (bh_MaxConcurrency (bulkhead_config_of config))"
    using inv executing_le [of s] by (auto simp: bulkhead_inv_def bulkhead_ok_def)
  moreover have "\<forall>q. bh_queue (sys_m s) = Some q \<longrightarrow> int (length (chan_buf q)) \<le> max 0 (bh_MaxQueueSize config)"
    using inv by (auto simp: bulkhead_inv_def bulkhead_ok_def mq)
  moreover have "0 < bh_MaxConcurrency (bulkhead_config_of config)" by (simp add: mc)
  ultimately have "int (executing s) \<le> bh_MaxConcurrency (bulkhead_config_of config)"
    "case bh_queue (sys_m s) of None \<Rightarrow> True | Some q \<Rightarrow> int (length (chan_buf q)) \<le> max 0 (bh_MaxQueueSize config)"
    by (simp_all split: option.splits)
  then show ?thesis
    by (simp only: mc)
qed

text \<open>An execution with one slot: the first call is inside its function, the second has not started.\<close>

definition bulkhead_demo_config :: bulkhead_Config where
  "bulkhead_demo_config = bulkhead_DefaultConfig\<lparr>bh_MaxConcurrency := 1\<rparr>"

definition bulkhead_demo :: "unit bulkheadManager \<Rightarrow> unit bulkhead_pc \<Rightarrow> unit bulkhead_sys" where
  "bulkhead_demo m pc =
     \<lparr>sys_m = m, sys_calls = {#(0, pc), (1, HCall False False bulkhead_demo_config)#}, sys_execs = {#},
      sys_proc = PSelect, sys_stops = {#}\<rparr>"

lemma bulkhead_demo_step:
  assumes "reach (bulkhead_init c) bulkhead_step (bulkhead_demo m pc)" "(m', pc') \<in> set (bulkhead_call_next 0 dn err now m pc)"
  shows "reach (bulkhead_init c) bulkhead_step (bulkhead_demo m' pc')"
proof -
  have "bulkhead_step (bulkhead_demo m pc) ((bulkhead_demo m pc)\<lparr>sys_m := m', sys_calls := add_mset (0, pc') {#(1, HCall False False bulkhead_demo_config)#}\<rparr>)"
    by (rule step_call [of _ 0 pc _ _ _ dn err now]) (use assms(2) in \<open>simp_all add: bulkhead_demo_def\<close>)
  then show ?thesis
    using reach_step [OF assms(1)] by (simp add: bulkhead_demo_def)
qed

theorem bulkhead_bounded_witness:
  "\<exists>m. reach (bulkhead_init bulkhead_demo_config) bulkhead_step (bulkhead_demo m (HExec XRunning)) \<and>
     executing (bulkhead_demo m (HExec XRunning)) = 1 \<and>
     int (executing (bulkhead_demo m (HExec XRunning))) \<le> 1"
proof -
  define m where "m = (bulkhead_NewManagerWithConfig bulkhead_demo_config :: unit bulkheadManager)"
  have m: "bh_config m = bulkhead_demo_config" "bh_semaphore m = make_chan 1" "bh_queue m = None"
    by (simp_all add: m_def bulkhead_NewManagerWithConfig_def bulkhead_demo_config_def bulkhead_DefaultConfig_def)
  have "reach (bulkhead_init bulkhead_demo_config) bulkhead_step (bulkhead_demo m (HCall False False bulkhead_demo_config))"
    by (rule reach_init) (auto simp: bulkhead_init_def bulkhead_demo_def m_def)
  then obtain m1 c where "reach (bulkhead_init bulkhead_demo_config) bulkhead_step (bulkhead_demo m1 (HDirect c))" "bh_semaphore m1 = make_chan 1"
    using bulkhead_demo_step [of bulkhead_demo_config m] m by (fastforce simp: bulkhead_ExecuteWithConfig_def Let_def)
  moreover from this(2) have "(m1\<lparr>bh_semaphore := (make_chan 1)\<lparr>chan_buf := [()]\<rparr>\<rparr>, HExec XStart) \<in> set (bulkhead_call_next 0 None None 0 m1 (HDirect c))"
    by (simp add: bulkhead_executeWithoutQueue_def bulkhead_acquire_def set_select_send make_chan_def)
  ultimately obtain m2 where "reach (bulkhead_init bulkhead_demo_config) bulkhead_step (bulkhead_demo m2 (HExec XStart))"
    using bulkhead_demo_step by blast
  then obtain m3 where r: "reach (bulkhead_init bulkhead_demo_config) bulkhead_step (bulkhead_demo m3 (HExec XRunning))"
    using bulkhead_demo_step [of bulkhead_demo_config m2 "HExec XStart" _ "HExec XRunning"]
    by (auto simp: bulkhead_exec_next.simps after_exec_def)
  have "executing (bulkhead_demo m3 (HExec XRunning)) = 1"
    by (simp add: executing_def bulkhead_demo_def)
  then show ?thesis
    using r bulkhead_bounded [OF r] by (auto simp: bulkhead_demo_config_def)
qed

text \<open>A call without the parts of its configuration that the properties show to be irrelevant.\<close>

fun erase_config :: "'e bulkhead_pc \<Rightarrow> 'e bulkhead_pc" where
  "erase_config (HCall cn fn c) = HCall cn fn bulkhead_DefaultConfig"
| "erase_config (HQueueSelect c) = HQueueSelect (bulkhead_DefaultConfig\<lparr>bh_MaxConcurrency := bh_MaxConcurrency c, bh_MaxQueueSize := bh_MaxQueueSize c\<rparr>)"
| "erase_config (HTryQueue c) = HTryQueue (bulkhead_DefaultConfig\<lparr>bh_MaxConcurrency := bh_MaxConcurrency c, bh_MaxQueueSize := bh_MaxQueueSize c\<rparr>)"
| "erase_config (HDirect c) = HDirect (bulkhead_DefaultConfig\<lparr>bh_MaxConcurrency := bh_MaxConcurrency c, bh_MaxQueueSize := bh_MaxQueueSize c\<rparr>)"
| "erase_config pc = pc"

text \<open>
  The configuration passed to \<^verbatim>\<open>ExecuteWithConfig\<close> has no effect: erasing it from a call, or erasing the callbacks from the
  configuration that the execution makes of it, changes neither the steps the call can take, nor what they do to the
  manager and its callback log, nor the results. In particular the callbacks of the passed configuration are never
  called.
\<close>

lemma bulkhead_config_ignored:
  "map (map_prod id erase_config) (bulkhead_call_next i dn err now m pc) =
     map (map_prod id erase_config) (bulkhead_call_next i dn err now m (erase_config pc))"
proof (cases pc)
  case (HCall cn fn c)
  have "bh_MaxConcurrency (bulkhead_execConfig a c) = bh_MaxConcurrency a" "bh_MaxQueueSize (bulkhead_execConfig a c) = bh_MaxQueueSize a" for a c
    by (simp_all add: bulkhead_execConfig_def Let_def)
  then show ?thesis
    using HCall by (auto simp: bulkhead_ExecuteWithConfig_def Let_def)
next
  case (HQueueSelect c)
  then show ?thesis
    by (simp add: bulkhead_acquire_def select_send_def send_ready_def chan_send_def Let_def split: option.split)
next
  case (HTryQueue c)
  then show ?thesis
    by (simp add: select_send_def send_ready_def chan_send_def Let_def split: option.split)
next
  case (HDirect c)
  then show ?thesis
    by (simp add: bulkhead_executeWithoutQueue_def)
qed simp_all

end
