(* ===== verification/Quota.thy ===== *)
theory Quota
  imports Prelude "HOL-Library.AList" "HOL-Library.Char_ord" "HOL-Library.List_Lexorder"
begin

text \<open>
  The quota manager (\<^verbatim>\<open>pkg/core/runtime/quota/quota.go\<close>), for calls that do not interleave (each runs under the lock of its quota
  but for the lookup in the map). The map of quotas is an
  association list with distinct keys; the order in which \<^verbatim>\<open>range\<close> visits it is an argument of \<^verbatim>\<open>ResetAll\<close>. An option of
  \<^verbatim>\<open>Register\<close> is a function on quotas. Callback fields are the flags that they are not \<^verbatim>\<open>nil\<close>, and the calls of callbacks
  are appended to a log. Arithmetic on usages wraps at 64 bits.

  The results: as long as the amounts asked for leave the sums in range, no sequence of operations brings a usage below
  zero or above a positive limit, requests are granted exactly when they fit, and the count of quotas is right; releasing what was acquired restores the usage; an amount
  that makes the sum overflow is granted whatever the limit.
\<close>

subsection \<open>Types\<close>

datatype QuotaType = QuotaTypeRequests | QuotaTypeMemory | QuotaTypeCPU | QuotaTypeCustom | QuotaTypeOther string

fun QuotaType_String :: "QuotaType \<Rightarrow> string" where
  "QuotaType_String QuotaTypeRequests = ''requests''"
| "QuotaType_String QuotaTypeMemory = ''memory''"
| "QuotaType_String QuotaTypeCPU = ''cpu''"
| "QuotaType_String QuotaTypeCustom = ''custom''"
| "QuotaType_String (QuotaTypeOther s) = s"

record quota_Config =
  qc_OnQuotaExceeded :: bool
  qc_OnQuotaExceededAsync :: bool
  qc_OnQuotaReset :: bool
  qc_OnQuotaResetAsync :: bool
  qc_HistorySize :: int
  qc_AutoResetInterval :: int
  qc_EnableMetrics :: bool

record Quota =
  qu_Name :: string
  qu_Type :: QuotaType
  qu_Limit :: int
  qu_Window :: int
  qu_Usage :: int
  qu_LastReset :: int
  qu_LastUpdate :: int
  qu_RegisteredAt :: int
  qu_TotalAcquired :: int
  qu_TotalReleased :: int
  qu_TotalExceeded :: int

record QuotaInfo =
  qi_Name :: string
  qi_Type :: QuotaType
  qi_Limit :: int
  qi_Window :: int
  qi_Usage :: int
  qi_Remaining :: int
  qi_RegisteredAt :: int
  qi_LastReset :: int
  qi_LastUpdate :: int

record QuotaStat =
  qs_Name :: string
  qs_Type :: QuotaType
  qs_Limit :: int
  qs_Usage :: int
  qs_Remaining :: int
  qs_Window :: int
  qs_LastReset :: int
  qs_LastUpdate :: int
  qs_Exceeded :: int
  qs_TotalAcquired :: int
  qs_TotalReleased :: int

record quota_Event =
  qe_Name :: string
  qe_Type :: QuotaType
  qe_EventType :: string
  qe_Limit :: int
  qe_Usage :: int
  qe_Timestamp :: int

record quota_Stats =
  qt_TotalQuotas :: int
  qt_TotalAcquired :: int
  qt_TotalExceeded :: int
  qt_TotalReleased :: int
  qt_TotalReset :: int
  qt_LastEventTime :: int

datatype quota_callback =
    QcExceeded string QuotaType int int | QcExceededAsync string QuotaType int int | QcReset string | QcResetAsync string

record quotaManager =
  qm_config :: quota_Config
  qm_quotas :: "(string \<times> Quota) list"
  qm_stats :: quota_Stats
  qm_history :: "quota_Event list"
  qm_running :: bool
  qm_stopped :: bool
  qm_log :: "quota_callback list"

datatype quota_error = QuotaErr string string | QuotaResetErrs nat

definition quota_DefaultConfig :: quota_Config where
  "quota_DefaultConfig =
     \<lparr>qc_OnQuotaExceeded = False, qc_OnQuotaExceededAsync = False, qc_OnQuotaReset = False, qc_OnQuotaResetAsync = False,
      qc_HistorySize = 0, qc_AutoResetInterval = 0, qc_EnableMetrics = False\<rparr>"

definition quota_NewManager :: "quota_Config \<Rightarrow> quotaManager" where
  "quota_NewManager config =
     (let config = (if qc_HistorySize config < 0 then config\<lparr>qc_HistorySize := 0\<rparr> else config)
      in \<lparr>qm_config = config, qm_quotas = [],
          qm_stats = \<lparr>qt_TotalQuotas = 0, qt_TotalAcquired = 0, qt_TotalExceeded = 0, qt_TotalReleased = 0, qt_TotalReset = 0,
                      qt_LastEventTime = 0\<rparr>,
          qm_history = [], qm_running = (qc_AutoResetInterval config > 0), qm_stopped = False, qm_log = []\<rparr>)"

subsection \<open>History and callbacks\<close>

definition quota_recordEvent :: "quota_Event \<Rightarrow> quotaManager \<Rightarrow> quotaManager" where
  "quota_recordEvent event m =
     (if qc_HistorySize (qm_config m) \<le> 0 then m
      else
        (let history = qm_history m @ [event];
             history = (if int (length history) > qc_HistorySize (qm_config m) then tl history else history)
         in m\<lparr>qm_history := history, qm_stats := (qm_stats m)\<lparr>qt_LastEventTime := qe_Timestamp event\<rparr>\<rparr>))"

definition quota_onQuotaExceeded :: "string \<Rightarrow> QuotaType \<Rightarrow> int \<Rightarrow> int \<Rightarrow> quotaManager \<Rightarrow> quotaManager" where
  "quota_onQuotaExceeded name quotaType limit usage m =
     m\<lparr>qm_log := qm_log m @ (if qc_OnQuotaExceeded (qm_config m) then [QcExceeded name quotaType limit usage] else []) @
                  (if qc_OnQuotaExceededAsync (qm_config m) then [QcExceededAsync name quotaType limit usage] else [])\<rparr>"

definition quota_onQuotaReset :: "string \<Rightarrow> quotaManager \<Rightarrow> quotaManager" where
  "quota_onQuotaReset name m =
     m\<lparr>qm_log := qm_log m @ (if qc_OnQuotaReset (qm_config m) then [QcReset name] else []) @
                  (if qc_OnQuotaResetAsync (qm_config m) then [QcResetAsync name] else [])\<rparr>"

subsection \<open>Registration\<close>

text \<open>A quota is a pointer in the code: storing to its fields changes the entry of the map.\<close>

abbreviation quota_put :: "string \<Rightarrow> Quota \<Rightarrow> quotaManager \<Rightarrow> quotaManager" where
  "quota_put name q m \<equiv> m\<lparr>qm_quotas := AList.update name q (qm_quotas m)\<rparr>"

definition quota_not_found :: "string \<Rightarrow> quota_error" where
  "quota_not_found name = QuotaErr ''QUOTA_NOT_FOUND'' (''quota '' @ name @ '' not found'')"

definition quota_Register ::
  "int \<Rightarrow> string \<Rightarrow> QuotaType \<Rightarrow> int \<Rightarrow> int \<Rightarrow> (Quota \<Rightarrow> Quota) list \<Rightarrow> quotaManager \<Rightarrow> quotaManager \<times> quota_error option" where
  "quota_Register now name quotaType limit window opts m =
     (if name = '''' then (m, Some (QuotaErr ''INVALID_QUOTA'' ''quota name cannot be empty''))
      else if limit < 0 then (m, Some (QuotaErr ''INVALID_QUOTA'' ''quota limit cannot be negative''))
      else if window < 0 then (m, Some (QuotaErr ''INVALID_QUOTA'' ''quota window cannot be negative''))
      else if map_of (qm_quotas m) name \<noteq> None
      then (m, Some (QuotaErr ''QUOTA_EXISTS'' (''quota '' @ name @ '' already exists'')))
      else
        (let quota = \<lparr>qu_Name = name, qu_Type = quotaType, qu_Limit = limit, qu_Window = window, qu_Usage = 0,
                      qu_LastReset = now, qu_LastUpdate = now, qu_RegisteredAt = now,
                      qu_TotalAcquired = 0, qu_TotalReleased = 0, qu_TotalExceeded = 0\<rparr>;
             quota = fold (\<lambda>opt q. opt q) opts quota;
             m1 = quota_put name quota m
         in (m1\<lparr>qm_stats := (qm_stats m1)\<lparr>qt_TotalQuotas := int64 (qt_TotalQuotas (qm_stats m1) + 1)\<rparr>\<rparr>, None)))"

definition quota_Unregister :: "string \<Rightarrow> quotaManager \<Rightarrow> quotaManager \<times> quota_error option" where
  "quota_Unregister name m =
     (if name = '''' then (m, Some (QuotaErr ''INVALID_QUOTA'' ''quota name cannot be empty''))
      else if map_of (qm_quotas m) name = None then (m, Some (quota_not_found name))
      else (m\<lparr>qm_quotas := AList.delete name (qm_quotas m),
              qm_stats := (qm_stats m)\<lparr>qt_TotalQuotas := int64 (qt_TotalQuotas (qm_stats m) - 1)\<rparr>\<rparr>, None))"

subsection \<open>Acquire and Release\<close>

text \<open>The reset of an expired window at the start of \<^verbatim>\<open>Acquire\<close>.\<close>

definition quota_window_reset :: "int \<Rightarrow> string \<Rightarrow> Quota \<Rightarrow> quotaManager \<Rightarrow> quotaManager \<times> Quota" where
  "quota_window_reset now name q m =
     (if qu_Window q > 0 \<and> now - qu_LastReset q \<ge> qu_Window q
      then
        (let q1 = q\<lparr>qu_Usage := 0, qu_LastReset := now\<rparr>
         in (quota_onQuotaReset name (quota_recordEvent
               \<lparr>qe_Name = name, qe_Type = qu_Type q, qe_EventType = ''reset'', qe_Limit = qu_Limit q, qe_Usage = 0, qe_Timestamp = now\<rparr>
               (quota_put name q1 m)), q1))
      else (m, q))"

text \<open>Both outcomes of \<^verbatim>\<open>Acquire\<close> for the quota found: refusal and grant.\<close>

definition quota_refuse :: "int \<Rightarrow> string \<Rightarrow> Quota \<Rightarrow> quotaManager \<Rightarrow> quotaManager" where
  "quota_refuse now name q m =
     (let m1 = m\<lparr>qm_stats := (qm_stats m)\<lparr>qt_TotalExceeded := int64 (qt_TotalExceeded (qm_stats m) + 1)\<rparr>\<rparr>;
          q1 = (if qc_EnableMetrics (qm_config m1) then q\<lparr>qu_TotalExceeded := int64 (qu_TotalExceeded q + 1)\<rparr> else q);
          q2 = q1\<lparr>qu_LastUpdate := now\<rparr>
      in quota_onQuotaExceeded name (qu_Type q2) (qu_Limit q2) (qu_Usage q2) (quota_recordEvent
           \<lparr>qe_Name = name, qe_Type = qu_Type q2, qe_EventType = ''exceeded'', qe_Limit = qu_Limit q2, qe_Usage = qu_Usage q2, qe_Timestamp = now\<rparr>
           (quota_put name q2 m1)))"

definition quota_grant :: "int \<Rightarrow> string \<Rightarrow> int \<Rightarrow> Quota \<Rightarrow> quotaManager \<Rightarrow> quotaManager" where
  "quota_grant now name newUsage q m =
     (let q1 = q\<lparr>qu_Usage := newUsage\<rparr>;
          m1 = m\<lparr>qm_stats := (qm_stats m)\<lparr>qt_TotalAcquired := int64 (qt_TotalAcquired (qm_stats m) + 1)\<rparr>\<rparr>;
          q2 = (if qc_EnableMetrics (qm_config m1) then q1\<lparr>qu_TotalAcquired := int64 (qu_TotalAcquired q1 + 1)\<rparr> else q1)
      in quota_put name (q2\<lparr>qu_LastUpdate := now\<rparr>) m1)"

definition quota_remaining :: "int \<Rightarrow> int \<Rightarrow> int" where
  "quota_remaining limit usage =
     (if limit > 0 then let remaining = int64 (limit - usage) in if remaining < 0 then 0 else remaining else -1)"

definition quota_Acquire ::
  "int \<Rightarrow> bool \<Rightarrow> string \<Rightarrow> int \<Rightarrow> quotaManager \<Rightarrow> quotaManager \<times> (quota_error + bool \<times> int \<times> int)" where
  "quota_Acquire now ctx_nil name amount m =
     (if ctx_nil then (m, Inl (QuotaErr ''NIL_CONTEXT'' ''context cannot be nil''))
      else if name = '''' then (m, Inl (QuotaErr ''INVALID_QUOTA'' ''quota name cannot be empty''))
      else if amount < 0 then (m, Inl (QuotaErr ''INVALID_QUOTA'' ''amount cannot be negative''))
      else case map_of (qm_quotas m) name of
             None \<Rightarrow> (m, Inl (quota_not_found name))
           | Some quota \<Rightarrow>
               (case quota_window_reset now name quota m of (m1, q) \<Rightarrow>
                  (let currentUsage = qu_Usage q; newUsage = int64 (currentUsage + amount)
                   in if qu_Limit q > 0 \<and> newUsage > qu_Limit q
                      then (quota_refuse now name q m1, Inr (False, currentUsage, int64 (qu_Limit q - currentUsage)))
                      else (quota_grant now name newUsage q m1, Inr (True, newUsage, quota_remaining (qu_Limit q) newUsage)))))"

definition quota_Release :: "int \<Rightarrow> string \<Rightarrow> int \<Rightarrow> quotaManager \<Rightarrow> quotaManager \<times> quota_error option" where
  "quota_Release now name amount m =
     (if name = '''' then (m, Some (QuotaErr ''INVALID_QUOTA'' ''quota name cannot be empty''))
      else if amount < 0 then (m, Some (QuotaErr ''INVALID_QUOTA'' ''amount cannot be negative''))
      else case map_of (qm_quotas m) name of
             None \<Rightarrow> (m, Some (quota_not_found name))
           | Some q \<Rightarrow>
               (let newUsage = int64 (qu_Usage q - amount);
                    newUsage = (if newUsage < 0 then 0 else newUsage);
                    q1 = q\<lparr>qu_Usage := newUsage\<rparr>;
                    m1 = m\<lparr>qm_stats := (qm_stats m)\<lparr>qt_TotalReleased := int64 (qt_TotalReleased (qm_stats m) + 1)\<rparr>\<rparr>;
                    q2 = (if qc_EnableMetrics (qm_config m1) then q1\<lparr>qu_TotalReleased := int64 (qu_TotalReleased q1 + 1)\<rparr> else q1)
                in (quota_put name (q2\<lparr>qu_LastUpdate := now\<rparr>) m1, None)))"

subsection \<open>Queries\<close>

text \<open>The lookup that the queries share: an empty name and an unknown name are errors.\<close>

definition quota_lookup :: "string \<Rightarrow> quotaManager \<Rightarrow> quota_error + Quota" where
  "quota_lookup name m =
     (if name = '''' then Inl (QuotaErr ''INVALID_QUOTA'' ''quota name cannot be empty'')
      else case map_of (qm_quotas m) name of None \<Rightarrow> Inl (quota_not_found name) | Some q \<Rightarrow> Inr q)"

definition quota_GetUsage :: "string \<Rightarrow> quotaManager \<Rightarrow> quota_error + int" where
  "quota_GetUsage name m = (case quota_lookup name m of Inl e \<Rightarrow> Inl e | Inr q \<Rightarrow> Inr (qu_Usage q))"

definition quota_GetRemaining :: "string \<Rightarrow> quotaManager \<Rightarrow> quota_error + int" where
  "quota_GetRemaining name m =
     (case quota_lookup name m of
        Inl e \<Rightarrow> Inl e
      | Inr q \<Rightarrow>
          (if qu_Limit q \<le> 0 then Inr (-1)
           else let remaining = int64 (qu_Limit q - qu_Usage q) in Inr (if remaining < 0 then 0 else remaining)))"

definition quota_info :: "Quota \<Rightarrow> QuotaInfo" where
  "quota_info q =
     \<lparr>qi_Name = qu_Name q, qi_Type = qu_Type q, qi_Limit = qu_Limit q, qi_Window = qu_Window q, qi_Usage = qu_Usage q,
      qi_Remaining = quota_remaining (qu_Limit q) (qu_Usage q), qi_RegisteredAt = qu_RegisteredAt q,
      qi_LastReset = qu_LastReset q, qi_LastUpdate = qu_LastUpdate q\<rparr>"

definition quota_GetQuota :: "string \<Rightarrow> quotaManager \<Rightarrow> quota_error + QuotaInfo" where
  "quota_GetQuota name m = (case quota_lookup name m of Inl e \<Rightarrow> Inl e | Inr q \<Rightarrow> Inr (quota_info q))"

definition quota_StatsOf :: "quotaManager \<Rightarrow> quota_Stats" where
  "quota_StatsOf m = qm_stats m"

definition quota_QuotaStats :: "string \<Rightarrow> quotaManager \<Rightarrow> quota_error + QuotaStat" where
  "quota_QuotaStats name m =
     (case quota_lookup name m of
        Inl e \<Rightarrow> Inl e
      | Inr q \<Rightarrow>
          (let metrics = qc_EnableMetrics (qm_config m)
           in Inr \<lparr>qs_Name = qu_Name q, qs_Type = qu_Type q, qs_Limit = qu_Limit q, qs_Usage = qu_Usage q,
                   qs_Remaining = quota_remaining (qu_Limit q) (qu_Usage q), qs_Window = qu_Window q,
                   qs_LastReset = qu_LastReset q, qs_LastUpdate = qu_LastUpdate q,
                   qs_Exceeded = (if metrics then qu_TotalExceeded q
                     else int (length (filter (\<lambda>e. qe_Name e = name \<and> qe_EventType e = ''exceeded'') (qm_history m)))),
                   qs_TotalAcquired = (if metrics then qu_TotalAcquired q else 0),
                   qs_TotalReleased = (if metrics then qu_TotalReleased q else 0)\<rparr>))"

definition quota_ListQuotas :: "quotaManager \<Rightarrow> QuotaInfo list" where
  "quota_ListQuotas m = map quota_info (sort_key qu_Name (map snd (qm_quotas m)))"

subsection \<open>Reset, Clear and Stop\<close>

definition quota_Reset :: "int \<Rightarrow> string \<Rightarrow> quotaManager \<Rightarrow> quotaManager \<times> quota_error option" where
  "quota_Reset now name m =
     (if name = '''' then (m, Some (QuotaErr ''INVALID_QUOTA'' ''quota name cannot be empty''))
      else case map_of (qm_quotas m) name of
             None \<Rightarrow> (m, Some (quota_not_found name))
           | Some q \<Rightarrow>
               (let q1 = q\<lparr>qu_Usage := 0, qu_LastReset := now, qu_LastUpdate := now\<rparr>;
                    m1 = quota_put name q1 m;
                    m2 = m1\<lparr>qm_stats := (qm_stats m1)\<lparr>qt_TotalReset := int64 (qt_TotalReset (qm_stats m1) + 1)\<rparr>\<rparr>
                in (quota_onQuotaReset name (quota_recordEvent
                      \<lparr>qe_Name = name, qe_Type = qu_Type q1, qe_EventType = ''reset'', qe_Limit = qu_Limit q1, qe_Usage = 0, qe_Timestamp = now\<rparr>
                      m2), None)))"

text \<open>\<open>names\<close> lists the keys of the map in the order in which \<^verbatim>\<open>range\<close> visits them; the error counts the resets that failed.\<close>

primrec quota_reset_each :: "int \<Rightarrow> string list \<Rightarrow> quotaManager \<Rightarrow> quotaManager \<times> nat" where
  "quota_reset_each now [] m = (m, 0)"
| "quota_reset_each now (name # names) m =
     (let r = quota_Reset now name m; rest = quota_reset_each now names (fst r)
      in (fst rest, if snd r = None then snd rest else Suc (snd rest)))"

definition quota_ResetAll :: "int \<Rightarrow> string list \<Rightarrow> quotaManager \<Rightarrow> quotaManager \<times> quota_error option" where
  "quota_ResetAll now names m =
     (let r = quota_reset_each now names m
      in (fst r, if snd r > 0 then Some (QuotaResetErrs (snd r)) else None))"

definition quota_Clear :: "quotaManager \<Rightarrow> quotaManager" where
  "quota_Clear m = m\<lparr>qm_quotas := [], qm_stats := (qm_stats m)\<lparr>qt_TotalQuotas := 0\<rparr>\<rparr>"

text \<open>One round of the loop of the auto-reset goroutine: the ticker or the stop channel. The result says whether it goes on;
  when both are ready either may be taken, which \<open>tick\<close> decides.\<close>

definition quota_autoReset_step :: "bool \<Rightarrow> int \<Rightarrow> string list \<Rightarrow> quotaManager \<Rightarrow> (quotaManager \<times> bool) option" where
  "quota_autoReset_step tick now names m =
     (if tick then Some (fst (quota_ResetAll now names m), True)
      else if qm_stopped m then Some (m, False) else None)"

text \<open>\<^verbatim>\<open>Stop\<close>, up to waiting for the goroutine.\<close>

definition quota_Stop :: "quotaManager \<Rightarrow> quotaManager" where
  "quota_Stop m = (if \<not> qm_running m then m else m\<lparr>qm_running := False, qm_stopped := True\<rparr>)"

subsection \<open>Association lists\<close>

lemma length_AList_update:
  "length (AList.update k v xs) = (if k \<in> fst ` set xs then length xs else Suc (length xs))"
  by (induction xs) auto

lemma length_AList_delete:
  "distinct (map fst xs) \<Longrightarrow> k \<in> fst ` set xs \<Longrightarrow> Suc (length (AList.delete k xs)) = length xs"
proof (induction xs)
  case (Cons x xs)
  then show ?case
    by (cases x) (auto simp: delete_idem)
qed simp

lemma set_AList_update: "set (AList.update k v xs) \<subseteq> insert (k, v) (set xs)"
  by (induction xs) auto

lemma AList_update_all:
  assumes "\<forall>(k, q) \<in> set xs. P k q" "P k v"
  shows "\<forall>(k, q) \<in> set (AList.update k v xs). P k q"
  using assms set_AList_update [of k v xs] by blast

lemma map_of_fst: "map_of xs k = None \<longleftrightarrow> k \<notin> fst ` set xs"
  by (simp add: map_of_eq_None_iff)

subsection \<open>Every operation keeps the usages within their limits\<close>

definition quota_ok :: "string \<Rightarrow> Quota \<Rightarrow> bool" where
  "quota_ok k q \<longleftrightarrow>
     qu_Name q = k \<and> 0 \<le> qu_Limit q \<and> qu_Limit q < 2 ^ 63 \<and> 0 \<le> qu_Usage q \<and> qu_Usage q < 2 ^ 63 \<and>
     (qu_Limit q > 0 \<longrightarrow> qu_Usage q \<le> qu_Limit q)"

definition quota_inv :: "quotaManager \<Rightarrow> bool" where
  "quota_inv m \<longleftrightarrow>
     distinct (map fst (qm_quotas m)) \<and> (\<forall>(k, q) \<in> set (qm_quotas m). quota_ok k q) \<and>
     qt_TotalQuotas (qm_stats m) = int64 (int (length (qm_quotas m)))"

lemma quota_inv_lookup: "quota_inv m \<Longrightarrow> map_of (qm_quotas m) name = Some q \<Longrightarrow> quota_ok name q"
  by (auto simp: quota_inv_def dest: map_of_SomeD)

text \<open>What events and callbacks leave unchanged.\<close>

lemma quota_quiet [simp]:
  "qm_quotas (quota_recordEvent e m) = qm_quotas m" "qt_TotalQuotas (qm_stats (quota_recordEvent e m)) = qt_TotalQuotas (qm_stats m)"
  "qm_config (quota_recordEvent e m) = qm_config m"
  "qm_quotas (quota_onQuotaExceeded n t l u m) = qm_quotas m" "qm_stats (quota_onQuotaExceeded n t l u m) = qm_stats m"
  "qm_quotas (quota_onQuotaReset n m) = qm_quotas m" "qm_stats (quota_onQuotaReset n m) = qm_stats m"
  "qm_config (quota_onQuotaReset n m) = qm_config m"
  by (simp_all add: quota_recordEvent_def quota_onQuotaExceeded_def quota_onQuotaReset_def Let_def)

lemma quota_inv_put:
  assumes "quota_inv m" "map_of (qm_quotas m) name \<noteq> None" "quota_ok name q"
    and "qm_quotas m' = AList.update name q (qm_quotas m)" "qt_TotalQuotas (qm_stats m') = qt_TotalQuotas (qm_stats m)"
  shows "quota_inv m'"
  using assms AList_update_all [of "qm_quotas m" quota_ok name q]
  by (auto simp: quota_inv_def distinct_update length_AList_update map_of_fst)

lemma quota_window_reset_eq:
  assumes "quota_window_reset now name q m = (m1, q1)"
  shows "(q1 = q \<and> m1 = m \<or> q1 = q\<lparr>qu_Usage := 0, qu_LastReset := now\<rparr> \<and> qm_quotas m1 = AList.update name q1 (qm_quotas m)) \<and>
     qt_TotalQuotas (qm_stats m1) = qt_TotalQuotas (qm_stats m)"
  using assms by (auto simp: quota_window_reset_def Let_def split: if_splits)

lemma quota_refuse_eq:
  "\<exists>k. qm_quotas (quota_refuse now name q m) = AList.update name (q\<lparr>qu_TotalExceeded := k, qu_LastUpdate := now\<rparr>) (qm_quotas m)"
  "qt_TotalQuotas (qm_stats (quota_refuse now name q m)) = qt_TotalQuotas (qm_stats m)"
proof -
  have "qm_quotas (quota_refuse now name q m) = AList.update name (q\<lparr>qu_TotalExceeded :=
      (if qc_EnableMetrics (qm_config m) then int64 (qu_TotalExceeded q + 1) else qu_TotalExceeded q), qu_LastUpdate := now\<rparr>) (qm_quotas m)"
    by (simp add: quota_refuse_def Let_def)
  then show "\<exists>k. qm_quotas (quota_refuse now name q m) = AList.update name (q\<lparr>qu_TotalExceeded := k, qu_LastUpdate := now\<rparr>) (qm_quotas m)"
    by blast
  show "qt_TotalQuotas (qm_stats (quota_refuse now name q m)) = qt_TotalQuotas (qm_stats m)"
    by (simp add: quota_refuse_def Let_def)
qed

lemma quota_grant_eq:
  "\<exists>k. qm_quotas (quota_grant now name u q m) = AList.update name (q\<lparr>qu_Usage := u, qu_TotalAcquired := k, qu_LastUpdate := now\<rparr>) (qm_quotas m)"
  "qt_TotalQuotas (qm_stats (quota_grant now name u q m)) = qt_TotalQuotas (qm_stats m)"
proof -
  have "qm_quotas (quota_grant now name u q m) = AList.update name (q\<lparr>qu_Usage := u, qu_TotalAcquired :=
      (if qc_EnableMetrics (qm_config m) then int64 (qu_TotalAcquired q + 1) else qu_TotalAcquired q), qu_LastUpdate := now\<rparr>) (qm_quotas m)"
    by (simp add: quota_grant_def Let_def)
  then show "\<exists>k. qm_quotas (quota_grant now name u q m) = AList.update name (q\<lparr>qu_Usage := u, qu_TotalAcquired := k, qu_LastUpdate := now\<rparr>) (qm_quotas m)"
    by blast
  show "qt_TotalQuotas (qm_stats (quota_grant now name u q m)) = qt_TotalQuotas (qm_stats m)"
    by (simp add: quota_grant_def Let_def)
qed

text \<open>The amounts a caller may ask for without leaving the 64-bit range.\<close>

definition quota_in_range :: "string \<Rightarrow> int \<Rightarrow> quotaManager \<Rightarrow> bool" where
  "quota_in_range name amount m \<longleftrightarrow>
     (case map_of (qm_quotas m) name of None \<Rightarrow> True | Some q \<Rightarrow> qu_Usage q + amount < 2 ^ 63)"

lemma quota_inv_window:
  assumes "quota_inv m" "map_of (qm_quotas m) name = Some q" "quota_window_reset now name q m = (m1, q1)"
  shows "quota_inv m1 \<and> map_of (qm_quotas m1) name \<noteq> None \<and> quota_ok name q1 \<and> qu_Usage q1 \<le> qu_Usage q \<and> qu_Limit q1 = qu_Limit q"
proof -
  have q: "quota_ok name q" using quota_inv_lookup [OF assms(1,2)] .
  consider "q1 = q" "m1 = m" |
    "q1 = q\<lparr>qu_Usage := 0, qu_LastReset := now\<rparr>" "qm_quotas m1 = AList.update name q1 (qm_quotas m)"
      "qt_TotalQuotas (qm_stats m1) = qt_TotalQuotas (qm_stats m)"
    using quota_window_reset_eq [OF assms(3)] by blast
  then show ?thesis
  proof cases
    case 1
    then show ?thesis using assms(1,2) q by simp
  next
    case 2
    then have ok: "quota_ok name q1" using q by (simp add: quota_ok_def)
    have "quota_inv m1" using quota_inv_put [OF assms(1) _ ok 2(2,3)] assms(2) by simp
    then show ?thesis using 2(1,2) q ok by (simp add: update_conv' quota_ok_def)
  qed
qed

lemma quota_inv_Acquire:
  assumes inv: "quota_inv m" and range: "quota_in_range name amount m"
  shows "quota_inv (fst (quota_Acquire now cn name amount m))"
proof (cases "cn \<or> name = '''' \<or> amount < 0 \<or> map_of (qm_quotas m) name = None")
  case True
  then show ?thesis using inv by (auto simp: quota_Acquire_def)
next
  case False
  then obtain q where q: "map_of (qm_quotas m) name = Some q" "\<not> cn" "name \<noteq> ''''" "0 \<le> amount" by auto
  obtain m1 q1 where w: "quota_window_reset now name q m = (m1, q1)" by fastforce
  note m1 = quota_inv_window [OF inv q(1) w]
  let ?u = "int64 (qu_Usage q1 + amount)"
  have "in_int64 (qu_Usage q1 + amount)"
    using m1 range q(1,4) by (auto simp: quota_in_range_def quota_ok_def in_int64_def)
  then have u: "?u = qu_Usage q1 + amount" by simp
  show ?thesis
  proof (cases "qu_Limit q1 > 0 \<and> ?u > qu_Limit q1")
    case True
    obtain k where k: "qm_quotas (quota_refuse now name q1 m1) = AList.update name (q1\<lparr>qu_TotalExceeded := k, qu_LastUpdate := now\<rparr>) (qm_quotas m1)"
      using quota_refuse_eq(1) by blast
    have "quota_inv (quota_refuse now name q1 m1)"
      using quota_inv_put [OF _ _ _ k quota_refuse_eq(2)] m1 by (auto simp: quota_ok_def)
    then show ?thesis using True q w by (simp add: quota_Acquire_def Let_def)
  next
    case False
    obtain k where k: "qm_quotas (quota_grant now name ?u q1 m1) = AList.update name (q1\<lparr>qu_Usage := ?u, qu_TotalAcquired := k, qu_LastUpdate := now\<rparr>) (qm_quotas m1)"
      using quota_grant_eq(1) by blast
    have "quota_ok name (q1\<lparr>qu_Usage := ?u, qu_TotalAcquired := k, qu_LastUpdate := now\<rparr>)"
      using m1 False u q(1,4) range by (auto simp: quota_ok_def quota_in_range_def)
    then have "quota_inv (quota_grant now name ?u q1 m1)"
      using quota_inv_put [OF _ _ _ k quota_grant_eq(2)] m1 by simp
    moreover have "fst (quota_Acquire now cn name amount m) = quota_grant now name ?u q1 m1"
      using False q w by (auto simp: quota_Acquire_def Let_def)
    ultimately show ?thesis by simp
  qed
qed

text \<open>Options of \<^verbatim>\<open>Register\<close> that leave the name, and the usage between zero and the limit.\<close>

definition quota_opts_ok :: "string \<Rightarrow> (Quota \<Rightarrow> Quota) list \<Rightarrow> bool" where
  "quota_opts_ok name opts \<longleftrightarrow> (\<forall>opt \<in> set opts. \<forall>q. quota_ok name q \<longrightarrow> quota_ok name (opt q))"

lemma quota_opts_fold: "quota_opts_ok name opts \<Longrightarrow> quota_ok name q \<Longrightarrow> quota_ok name (fold (\<lambda>opt q. opt q) opts q)"
  by (induction opts arbitrary: q) (simp_all add: quota_opts_ok_def)

lemma quota_inv_Register:
  assumes "quota_inv m" "limit < 2 ^ 63" "quota_opts_ok name opts"
  shows "quota_inv (fst (quota_Register now name qt limit window opts m))"
proof (cases "name = '''' \<or> limit < 0 \<or> window < 0 \<or> map_of (qm_quotas m) name \<noteq> None")
  case True
  then show ?thesis using assms by (auto simp: quota_Register_def)
next
  case False
  then have new: "name \<notin> fst ` set (qm_quotas m)" by (simp add: map_of_fst)
  define q0 where "q0 = \<lparr>qu_Name = name, qu_Type = qt, qu_Limit = limit, qu_Window = window, qu_Usage = 0,
      qu_LastReset = now, qu_LastUpdate = now, qu_RegisteredAt = now, qu_TotalAcquired = 0, qu_TotalReleased = 0, qu_TotalExceeded = 0\<rparr>"
  define q where "q = fold (\<lambda>opt q. opt q) opts q0"
  have "quota_ok name q0" using False assms(2) by (simp add: quota_ok_def q0_def)
  then have "quota_ok name q" unfolding q_def by (rule quota_opts_fold [OF assms(3)])
  then have "\<forall>(k, q) \<in> set (AList.update name q (qm_quotas m)). quota_ok k q"
    using AList_update_all [of "qm_quotas m" quota_ok name q] assms(1) by (simp add: quota_inv_def)
  moreover have "qm_quotas (fst (quota_Register now name qt limit window opts m)) = AList.update name q (qm_quotas m)"
    "qt_TotalQuotas (qm_stats (fst (quota_Register now name qt limit window opts m))) = int64 (qt_TotalQuotas (qm_stats m) + 1)"
    using False by (simp_all add: quota_Register_def q_def q0_def Let_def)
  ultimately show ?thesis
    using assms(1) new int64_add [of "int (length (qm_quotas m))" 1]
    by (simp add: quota_inv_def distinct_update length_AList_update add.commute)
qed

lemma quota_inv_Unregister:
  assumes "quota_inv m"
  shows "quota_inv (fst (quota_Unregister name m))"
proof (cases "name = '''' \<or> map_of (qm_quotas m) name = None")
  case True
  then show ?thesis using assms by (auto simp: quota_Unregister_def)
next
  case False
  then have mem: "name \<in> fst ` set (qm_quotas m)" by (simp add: map_of_fst)
  have "int (length (AList.delete name (qm_quotas m))) = int (length (qm_quotas m)) - 1"
    using length_AList_delete [OF _ mem] assms by (simp add: quota_inv_def)
  moreover have "int64 (int64 x - 1) = int64 (x - 1)" for x
    using int64_add [of x "- 1"] by simp
  moreover have "set (AList.delete name (qm_quotas m)) \<subseteq> set (qm_quotas m)"
    by (auto simp: AList.delete_eq)
  ultimately show ?thesis
    using assms False by (auto simp: quota_inv_def quota_Unregister_def distinct_delete)
qed

lemma quota_inv_Release:
  assumes "quota_inv m" "amount < 2 ^ 63"
  shows "quota_inv (fst (quota_Release now name amount m))"
proof (cases "name = '''' \<or> amount < 0 \<or> map_of (qm_quotas m) name = None")
  case True
  then show ?thesis using assms by (auto simp: quota_Release_def)
next
  case False
  then obtain q where q: "map_of (qm_quotas m) name = Some q" "name \<noteq> ''''" "0 \<le> amount" by auto
  note ok = quota_inv_lookup [OF assms(1) q(1)]
  define u where "u = (if int64 (qu_Usage q - amount) < 0 then 0 else int64 (qu_Usage q - amount))"
  define k where "k = (if qc_EnableMetrics (qm_config m) then int64 (qu_TotalReleased q + 1) else qu_TotalReleased q)"
  let ?m = "fst (quota_Release now name amount m)"
  have m: "qm_quotas ?m = AList.update name (q\<lparr>qu_Usage := u, qu_TotalReleased := k, qu_LastUpdate := now\<rparr>) (qm_quotas m)"
    "qt_TotalQuotas (qm_stats ?m) = qt_TotalQuotas (qm_stats m)"
    using q by (simp_all add: quota_Release_def Let_def u_def k_def)
  have "in_int64 (qu_Usage q - amount)"
    using ok q(3) assms(2) by (simp add: quota_ok_def in_int64_def)
  then have "quota_ok name (q\<lparr>qu_Usage := u, qu_TotalReleased := k, qu_LastUpdate := now\<rparr>)"
    using ok q(3) by (auto simp: u_def quota_ok_def)
  then show ?thesis
    using quota_inv_put [OF assms(1) _ _ m] q(1) by simp
qed

lemma quota_inv_Reset:
  assumes "quota_inv m"
  shows "quota_inv (fst (quota_Reset now name m))"
proof (cases "name = '''' \<or> map_of (qm_quotas m) name = None")
  case True
  then show ?thesis using assms by (auto simp: quota_Reset_def)
next
  case False
  then obtain q where q: "map_of (qm_quotas m) name = Some q" "name \<noteq> ''''" by auto
  let ?q = "q\<lparr>qu_Usage := 0, qu_LastReset := now, qu_LastUpdate := now\<rparr>" and ?m = "fst (quota_Reset now name m)"
  have m: "qm_quotas ?m = AList.update name ?q (qm_quotas m)" "qt_TotalQuotas (qm_stats ?m) = qt_TotalQuotas (qm_stats m)"
    using q by (simp_all add: quota_Reset_def Let_def)
  have "quota_ok name ?q"
    using quota_inv_lookup [OF assms q(1)] by (simp add: quota_ok_def)
  then show ?thesis
    using quota_inv_put [OF assms _ _ m] q(1) by simp
qed

lemma quota_inv_reset_each: "quota_inv m \<Longrightarrow> quota_inv (fst (quota_reset_each now names m))"
  by (induction names arbitrary: m) (simp_all add: quota_inv_Reset Let_def)

lemma quota_inv_ResetAll: "quota_inv m \<Longrightarrow> quota_inv (fst (quota_ResetAll now names m))"
  by (simp add: quota_ResetAll_def quota_inv_reset_each Let_def)

subsection \<open>Sequences of operations\<close>

datatype quota_op =
    QRegister int string QuotaType int int "(Quota \<Rightarrow> Quota) list" | QUnregister string | QAcquire int bool string int | QRelease int string int
  | QReset int string | QResetAll int "string list" | QClear | QStop

fun quota_apply :: "quota_op \<Rightarrow> quotaManager \<Rightarrow> quotaManager" where
  "quota_apply (QRegister now name qt limit window opts) m = fst (quota_Register now name qt limit window opts m)"
| "quota_apply (QUnregister name) m = fst (quota_Unregister name m)"
| "quota_apply (QAcquire now cn name amount) m = fst (quota_Acquire now cn name amount m)"
| "quota_apply (QRelease now name amount) m = fst (quota_Release now name amount m)"
| "quota_apply (QReset now name) m = fst (quota_Reset now name m)"
| "quota_apply (QResetAll now names) m = fst (quota_ResetAll now names m)"
| "quota_apply QClear m = quota_Clear m"
| "quota_apply QStop m = quota_Stop m"

text \<open>Limits and amounts are 64-bit values, options keep a quota valid, and an acquired amount does not make the sum with the usage overflow.\<close>

fun quota_op_ok :: "quota_op \<Rightarrow> quotaManager \<Rightarrow> bool" where
  "quota_op_ok (QRegister now name qt limit window opts) m \<longleftrightarrow> limit < 2 ^ 63 \<and> quota_opts_ok name opts"
| "quota_op_ok (QAcquire now cn name amount) m \<longleftrightarrow> quota_in_range name amount m"
| "quota_op_ok (QRelease now name amount) m \<longleftrightarrow> amount < 2 ^ 63"
| "quota_op_ok _ m \<longleftrightarrow> True"

definition quota_step :: "quotaManager \<Rightarrow> quotaManager \<Rightarrow> bool" where
  "quota_step m m' \<longleftrightarrow> (\<exists>op. quota_op_ok op m \<and> m' = quota_apply op m)"

lemma quota_inv_apply: "quota_inv m \<Longrightarrow> quota_op_ok op m \<Longrightarrow> quota_inv (quota_apply op m)"
  by (cases op)
    (simp_all add: quota_inv_Register quota_inv_Unregister quota_inv_Acquire quota_inv_Release quota_inv_Reset quota_inv_ResetAll,
     simp_all add: quota_inv_def quota_Clear_def quota_Stop_def in_int64_def)

lemma quota_inv_new: "quota_inv (quota_NewManager cfg)"
  by (simp add: quota_inv_def quota_NewManager_def Let_def in_int64_def)

interpretation quota: inductive_invariant "\<lambda>m. \<exists>cfg. m = quota_NewManager cfg" quota_step quota_inv
  by unfold_locales (auto simp: quota_step_def quota_inv_apply quota_inv_new)

subsection \<open>Properties\<close>

text \<open>
  C28. The quotas are kept. A new manager performs any sequence of registrations, acquisitions, releases, resets and removals, one call
  after the other, where limits and amounts are 64-bit values, an acquired amount does not make the sum with the usage overflow, and the
  options of a registration keep the name and a usage between zero and the limit. Then every quota's usage is at least zero and, when
  the quota has a limit above zero, at most the limit; \<^verbatim>\<open>GetRemaining\<close> is the difference; \<^verbatim>\<open>TotalQuotas\<close> is the number of quotas
  registered (fewer than \<open>2 ^ 62\<close>); and an \<^verbatim>\<open>Acquire\<close> within the window, of an amount that does not overflow, is granted exactly when there is no limit
  or the new usage is within it.
\<close>

theorem quota_within_limit:
  assumes "reach (\<lambda>m. \<exists>cfg. m = quota_NewManager cfg) quota_step m"
    and "quota_GetQuota name m = Inr info" and "length (qm_quotas m) < 2 ^ 62"
  shows "0 \<le> qi_Usage info \<and> (qi_Limit info > 0 \<longrightarrow> qi_Usage info \<le> qi_Limit info \<and>
       quota_GetRemaining name m = Inr (qi_Limit info - qi_Usage info) \<and> qi_Remaining info = qi_Limit info - qi_Usage info) \<and>
     quota_GetUsage name m = Inr (qi_Usage info) \<and> qi_Name info = name \<and>
     qt_TotalQuotas (quota_StatsOf m) = int (card (dom (map_of (qm_quotas m)))) \<and>
     (\<forall>now amount. 0 \<le> amount \<and> qi_Usage info + amount < 2 ^ 63 \<and> (qi_Window info \<le> 0 \<or> now - qi_LastReset info < qi_Window info) \<longrightarrow>
        (\<exists>m' u r. quota_Acquire now False name amount m = (m', Inr (qi_Limit info \<le> 0 \<or> qi_Usage info + amount \<le> qi_Limit info, u, r))))"
proof -
  have inv: "quota_inv m" by (rule quota.reach_inv [OF assms(1)])
  obtain q where q: "quota_lookup name m = Inr q" "info = quota_info q" "map_of (qm_quotas m) name = Some q" "name \<noteq> ''''"
    using assms(2) by (auto simp: quota_GetQuota_def quota_lookup_def split: sum.splits if_splits option.splits)
  note ok = quota_inv_lookup [OF inv q(3)]
  have "int (length (qm_quotas m)) < 2 ^ 62"
    using assms(3) by (metis of_nat_less_iff of_nat_numeral of_nat_power)
  then have total: "qt_TotalQuotas (qm_stats m) = int (length (qm_quotas m))"
    using inv by (simp add: quota_inv_def in_int64_def)
  have card: "card (dom (map_of (qm_quotas m))) = length (qm_quotas m)"
    using inv distinct_card [of "map fst (qm_quotas m)"] by (simp add: quota_inv_def dom_map_of_conv_image_fst)
  have "\<exists>m' u r. quota_Acquire now False name amount m = (m', Inr (qu_Limit q \<le> 0 \<or> qu_Usage q + amount \<le> qu_Limit q, u, r))"
    if "0 \<le> amount" "qu_Usage q + amount < 2 ^ 63" "qu_Window q \<le> 0 \<or> now - qu_LastReset q < qu_Window q" for now amount
  proof -
    have "in_int64 (qu_Usage q + amount)" using ok that by (simp add: quota_ok_def in_int64_def)
    then show ?thesis using q(3,4) that by (auto simp: quota_Acquire_def quota_window_reset_def Let_def)
  qed
  moreover have "in_int64 (qu_Limit q - qu_Usage q)"
    using ok by (simp add: quota_ok_def in_int64_def)
  ultimately show ?thesis
    using ok q(1,2) total card
    by (auto simp: quota_GetUsage_def quota_GetRemaining_def quota_info_def quota_remaining_def quota_ok_def quota_StatsOf_def)
qed

text \<open>A quota of 10 requests of which 3 are used.\<close>

definition quota_demo :: quotaManager where
  "quota_demo =
     fst (quota_Acquire 6 False ''api'' 3 (fst (quota_Register 5 ''api'' QuotaTypeRequests 10 0 [] (quota_NewManager quota_DefaultConfig))))"

lemma quota_demo_reach: "reach (\<lambda>m. \<exists>cfg. m = quota_NewManager cfg) quota_step quota_demo"
proof -
  let ?m0 = "quota_NewManager quota_DefaultConfig"
  let ?m1 = "quota_apply (QRegister 5 ''api'' QuotaTypeRequests 10 0 []) ?m0"
  have r0: "reach (\<lambda>m. \<exists>cfg. m = quota_NewManager cfg) quota_step ?m0"
    by (rule reach_init) blast
  have "quota_op_ok (QRegister 5 ''api'' QuotaTypeRequests 10 0 []) ?m0" by (simp add: quota_opts_ok_def)
  then have s0: "quota_step ?m0 ?m1"
    unfolding quota_step_def by (intro exI conjI) (assumption, rule refl)
  have "quota_op_ok (QAcquire 6 False ''api'' 3) ?m1"
    by (simp add: quota_in_range_def quota_Register_def quota_NewManager_def)
  then have s1: "quota_step ?m1 (quota_apply (QAcquire 6 False ''api'' 3) ?m1)"
    unfolding quota_step_def by (intro exI conjI) (assumption, rule refl)
  have "reach (\<lambda>m. \<exists>cfg. m = quota_NewManager cfg) quota_step ?m1"
    by (rule reach_step [OF r0]) (rule s0)
  from reach_step [OF this] s1 show ?thesis
    unfolding quota_demo_def quota_apply.simps by blast
qed

lemma quota_demo_lookup:
  "map_of (qm_quotas quota_demo) ''api'' =
     Some \<lparr>qu_Name = ''api'', qu_Type = QuotaTypeRequests, qu_Limit = 10, qu_Window = 0, qu_Usage = 3, qu_LastReset = 5, qu_LastUpdate = 6,
           qu_RegisteredAt = 5, qu_TotalAcquired = 0, qu_TotalReleased = 0, qu_TotalExceeded = 0\<rparr>"
  "length (qm_quotas quota_demo) = 1"
  by (simp_all add: quota_demo_def quota_Acquire_def quota_Register_def quota_NewManager_def quota_DefaultConfig_def
      quota_window_reset_def quota_grant_def in_int64_def)

theorem quota_within_limit_witness:
  "\<exists>info. quota_GetQuota ''api'' quota_demo = Inr info \<and> qi_Usage info = 3 \<and> qi_Limit info = 10 \<and>
     quota_GetRemaining ''api'' quota_demo = Inr 7"
proof -
  have "quota_GetQuota ''api'' quota_demo = Inr (quota_info (the (map_of (qm_quotas quota_demo) ''api'')))"
    by (simp add: quota_GetQuota_def quota_lookup_def quota_demo_lookup)
  from quota_within_limit [OF quota_demo_reach this] this show ?thesis
    by (simp add: quota_demo_lookup quota_info_def)
qed

text \<open>
  C35. Acquiring and releasing is a round trip. When \<^verbatim>\<open>Acquire\<close> of an amount that does not overflow 64 bits grants it, and the window of the
  quota had not expired (or it has none), so that there was no window reset, a \<^verbatim>\<open>Release\<close> of the same amount right after restores the usage
  and the remaining quota of before.
\<close>

theorem quota_acquire_release:
  assumes "quota_inv m" "quota_in_range name amount m" "map_of (qm_quotas m) name = Some q"
    and "qu_Window q \<le> 0 \<or> now - qu_LastReset q < qu_Window q"
    and "quota_Acquire now False name amount m = (m1, Inr (True, u, r))"
  shows "snd (quota_Release now' name amount m1) = None \<and>
     quota_GetUsage name (fst (quota_Release now' name amount m1)) = quota_GetUsage name m \<and>
     quota_GetRemaining name (fst (quota_Release now' name amount m1)) = quota_GetRemaining name m"
proof -
  have ok: "quota_ok name q" by (rule quota_inv_lookup [OF assms(1,3)])
  have name: "name \<noteq> ''''" "0 \<le> amount"
    using assms(5) by (auto simp: quota_Acquire_def split: if_splits)
  have u: "int64 (qu_Usage q + amount) = qu_Usage q + amount"
    using assms(2,3) ok name(2) by (simp add: quota_in_range_def quota_ok_def in_int64_def)
  define E where "E \<longleftrightarrow> qu_Limit q > 0 \<and> qu_Usage q + amount > qu_Limit q"
  have "quota_Acquire now False name amount m =
      (if E then (quota_refuse now name q m, Inr (False, qu_Usage q, int64 (qu_Limit q - qu_Usage q)))
       else (quota_grant now name (qu_Usage q + amount) q m, Inr (True, qu_Usage q + amount, quota_remaining (qu_Limit q) (qu_Usage q + amount))))"
    using assms(3,4) name by (auto simp: quota_Acquire_def quota_window_reset_def Let_def u E_def)
  then have "m1 = quota_grant now name (qu_Usage q + amount) q m"
    using assms(5) by (cases E) auto
  then obtain k where m1: "map_of (qm_quotas m1) name = Some (q\<lparr>qu_Usage := qu_Usage q + amount, qu_TotalAcquired := k, qu_LastUpdate := now\<rparr>)"
    using quota_grant_eq(1) [of now name "qu_Usage q + amount" q m] by (auto simp: update_conv')
  have "in_int64 (qu_Usage q)" using ok by (simp add: quota_ok_def in_int64_def)
  then show ?thesis
    using m1 name ok assms(3)
    by (simp add: quota_Release_def quota_GetUsage_def quota_GetRemaining_def quota_lookup_def update_conv' quota_ok_def Let_def)
qed

theorem quota_acquire_release_witness:
  "\<exists>m1. quota_Acquire 7 False ''api'' 4 quota_demo = (m1, Inr (True, 7, 3)) \<and>
     quota_GetUsage ''api'' (fst (quota_Release 8 ''api'' 4 m1)) = Inr 3"
proof -
  have inv: "quota_inv quota_demo" by (rule quota.reach_inv [OF quota_demo_reach])
  have "quota_in_range ''api'' 4 quota_demo" by (simp add: quota_in_range_def quota_demo_lookup)
  moreover obtain m1 where m1: "quota_Acquire 7 False ''api'' 4 quota_demo = (m1, Inr (True, 7, 3))"
    by (simp add: quota_Acquire_def quota_window_reset_def quota_demo_lookup quota_remaining_def in_int64_def)
  moreover have "quota_GetUsage ''api'' quota_demo = Inr 3"
    by (simp add: quota_GetUsage_def quota_lookup_def quota_demo_lookup)
  ultimately show ?thesis
    using quota_acquire_release [OF inv _ quota_demo_lookup(1) _ m1] by simp
qed

text \<open>
  A limit can be passed by overflow. When the usage is positive, a request for the largest 64-bit amount is granted whatever
  the limit is: the sum wraps around, the new usage is negative, and a further request for the whole limit is granted too.
\<close>

lemma quota_overflow_granted:
  assumes "quota_inv m" "map_of (qm_quotas m) name = Some q" "name \<noteq> ''''" "0 < qu_Usage q" "0 < qu_Limit q" "qu_Window q = 0"
  shows "\<exists>m1 u r m2 u' r'. quota_Acquire now False name (2 ^ 63 - 1) m = (m1, Inr (True, u, r)) \<and> u < 0 \<and>
     quota_GetUsage name m1 = Inr u \<and> quota_Acquire now' False name (qu_Limit q) m1 = (m2, Inr (True, u', r'))"
proof -
  have ok: "quota_ok name q" by (rule quota_inv_lookup [OF assms(1,2)])
  define u where "u = qu_Usage q - 2 ^ 63 - 1"
  have "int64 (qu_Usage q + (2 ^ 63 - 1)) = int64 (u + 2 ^ 64)"
    by (simp add: u_def add.commute)
  also have "\<dots> = int64 u"
    by (rule int64_wrap)
  also have "\<dots> = u"
    using ok assms(4) by (simp add: u_def quota_ok_def in_int64_def)
  finally have wrap: "int64 (qu_Usage q + (2 ^ 63 - 1)) = u" .
  have u: "u < 0" "u + qu_Limit q \<le> qu_Limit q" "in_int64 (u + qu_Limit q)"
    using ok assms(4,5) by (auto simp: u_def quota_ok_def in_int64_def)
  define m1 where "m1 = quota_grant now name u q m"
  have acq: "quota_Acquire now False name (2 ^ 63 - 1) m = (m1, Inr (True, u, quota_remaining (qu_Limit q) u))"
    using assms u(1) wrap by (simp add: quota_Acquire_def quota_window_reset_def m1_def Let_def)
  obtain k where k: "map_of (qm_quotas m1) name = Some (q\<lparr>qu_Usage := u, qu_TotalAcquired := k, qu_LastUpdate := now\<rparr>)"
    using quota_grant_eq(1) [of now name u q m] by (auto simp: m1_def update_conv')
  have "\<exists>m2. quota_Acquire now' False name (qu_Limit q) m1 = (m2, Inr (True, u + qu_Limit q, quota_remaining (qu_Limit q) (u + qu_Limit q)))"
    using assms(3,5,6) k u by (simp add: quota_Acquire_def quota_window_reset_def Let_def)
  then show ?thesis
    using acq u(1) k assms(3) by (auto simp: quota_GetUsage_def quota_lookup_def)
qed

lemma quota_overflow_granted_witness:
  "\<exists>m1 u r. quota_Acquire 7 False ''api'' (2 ^ 63 - 1) quota_demo = (m1, Inr (True, u, r)) \<and> u < 0"
  using quota_overflow_granted [OF quota.reach_inv [OF quota_demo_reach] quota_demo_lookup(1), of 7 8] by auto

end
