(* ===== verification/Wire.thy ===== *)
theory Wire
  imports Prelude
begin

text \<open>
  The binary order protocol (\<^verbatim>\<open>pkg/hft/protocol/binary.go\<close>): fixed layouts in little-endian byte order with a CRC-32
  checksum. A message of the code is a record of machine words; \<^verbatim>\<open>int64\<close> and \<^verbatim>\<open>uint64\<close> are both \<open>64 word\<close>, since the code
  converts one into the other bit by bit. \<^verbatim>\<open>MarshalBinary\<close> writes into a pooled buffer whose earlier contents are an
  argument: bytes that are not written keep them. The checksum \<^verbatim>\<open>crc32.ChecksumIEEE\<close> is computed bit by bit.

  The results: decoding what was encoded gives the message back, also from a batch; every corruption that is confined to
  one byte is detected.
\<close>

unbundle bit_operations_syntax

type_synonym byte = "8 word"

subsection \<open>Constants\<close>

definition MsgTypeNewOrder :: "16 word" where "MsgTypeNewOrder = 1"
definition MsgTypeMarketData :: "16 word" where "MsgTypeMarketData = 5"

definition SideBuy :: byte where "SideBuy = 0"
definition SideSell :: byte where "SideSell = 1"

definition OrderTypeLimit :: byte where "OrderTypeLimit = 0"
definition OrderTypeMarket :: byte where "OrderTypeMarket = 1"
definition OrderTypeStop :: byte where "OrderTypeStop = 2"

definition TIFGTC :: byte where "TIFGTC = 0"
definition TIFIOC :: byte where "TIFIOC = 1"
definition TIFFOK :: byte where "TIFFOK = 2"

definition StatusNew :: byte where "StatusNew = 0"
definition StatusPartial :: byte where "StatusPartial = 1"
definition StatusFilled :: byte where "StatusFilled = 2"
definition StatusCanceled :: byte where "StatusCanceled = 3"
definition StatusRejected :: byte where "StatusRejected = 4"

subsection \<open>Little-endian integers\<close>

text \<open>\<open>put_le n w\<close> are the \<open>n\<close> bytes that \<^verbatim>\<open>binary.LittleEndian.PutUint\<close> stores; \<open>get_le\<close> reads them back.\<close>

primrec put_le :: "nat \<Rightarrow> 'a::len word \<Rightarrow> byte list" where
  "put_le 0 w = []"
| "put_le (Suc n) w = ucast w # put_le n (drop_bit 8 w)"

primrec get_le :: "byte list \<Rightarrow> 'a::len word" where
  "get_le [] = 0"
| "get_le (b # bs) = ucast b OR push_bit 8 (get_le bs)"

text \<open>Writing \<open>bs\<close> at an offset of a buffer, and the slice \<^verbatim>\<open>data[lo:hi]\<close>.\<close>

definition put_at :: "nat \<Rightarrow> byte list \<Rightarrow> byte list \<Rightarrow> byte list" where
  "put_at lo bs b = take lo b @ bs @ drop (lo + length bs) b"

definition subslice :: "nat \<Rightarrow> nat \<Rightarrow> byte list \<Rightarrow> byte list" where
  "subslice lo hi data = take (hi - lo) (drop lo data)"

subsection \<open>CRC-32\<close>

text \<open>\<^verbatim>\<open>crc32.ChecksumIEEE\<close>: the reflected polynomial \<open>0xEDB88320\<close>, initial value and final inversion with all ones.\<close>

definition crc_bit :: "32 word \<Rightarrow> 32 word" where
  "crc_bit c = (if bit c 0 then drop_bit 1 c XOR 0xEDB88320 else drop_bit 1 c)"

definition crc_byte :: "byte \<Rightarrow> 32 word \<Rightarrow> 32 word" where
  "crc_byte b c = (crc_bit ^^ 8) (c XOR ucast b)"

definition crc32 :: "byte list \<Rightarrow> 32 word" where
  "crc32 bs = NOT (fold crc_byte bs (- 1))"

subsection \<open>Messages\<close>

record MessageHeader =
  mh_Length :: "32 word"
  mh_Type :: "16 word"
  mh_Flags :: "16 word"
  mh_Timestamp :: "64 word"
  mh_SeqNum :: "64 word"

record NewOrderMessage =
  no_Header :: MessageHeader
  no_OrderID :: "64 word"
  no_Price :: "64 word"
  no_Quantity :: "64 word"
  no_SymbolID :: "32 word"
  no_Side :: byte
  no_Type :: byte
  no_TIF :: byte
  no_Flags :: byte
  no_ClientOrderID :: "byte list"

record MarketDataMessage =
  md_Header :: MessageHeader
  md_SymbolID :: "32 word"
  md_BidPrice :: "64 word"
  md_BidQty :: "64 word"
  md_AskPrice :: "64 word"
  md_AskQty :: "64 word"
  md_LastPrice :: "64 word"
  md_LastQty :: "64 word"

subsection \<open>New orders\<close>

definition NewOrder_MarshalBinary :: "byte list \<Rightarrow> NewOrderMessage \<Rightarrow> byte list" where
  "NewOrder_MarshalBinary buf m =
     (let b = take 80 buf;
          b = put_at 0 (put_le 4 (76 :: 32 word)) b;
          b = put_at 4 (put_le 2 MsgTypeNewOrder) b;
          b = put_at 6 (put_le 2 (mh_Flags (no_Header m))) b;
          b = put_at 8 (put_le 8 (mh_Timestamp (no_Header m))) b;
          b = put_at 16 (put_le 8 (mh_SeqNum (no_Header m))) b;
          b = put_at 24 (put_le 8 (no_OrderID m)) b;
          b = put_at 32 (put_le 8 (no_Price m)) b;
          b = put_at 40 (put_le 8 (no_Quantity m)) b;
          b = put_at 48 (put_le 4 (no_SymbolID m)) b;
          b = put_at 52 [no_Side m] b;
          b = put_at 53 [no_Type m] b;
          b = put_at 54 [no_TIF m] b;
          b = put_at 55 [no_Flags m] b;
          b = put_at 56 (no_ClientOrderID m) b
      in put_at 72 (put_le 4 (crc32 (subslice 0 72 b))) b)"

text \<open>The receiver is changed as far as the code gets: a message of another type leaves its header in it.\<close>

definition NewOrder_UnmarshalBinary :: "byte list \<Rightarrow> NewOrderMessage \<Rightarrow> NewOrderMessage \<times> string option" where
  "NewOrder_UnmarshalBinary data m =
     (if length data < 76 then (m, Some ''invalid message length'')
      else if get_le (subslice 72 76 data) \<noteq> crc32 (subslice 0 72 data) then (m, Some ''checksum mismatch'')
      else
        (let h = \<lparr>mh_Length = get_le (subslice 0 4 data), mh_Type = get_le (subslice 4 6 data), mh_Flags = get_le (subslice 6 8 data),
                  mh_Timestamp = get_le (subslice 8 16 data), mh_SeqNum = get_le (subslice 16 24 data)\<rparr>;
             m1 = m\<lparr>no_Header := h\<rparr>
         in if mh_Type h \<noteq> MsgTypeNewOrder then (m1, Some ''invalid message type'')
            else (m1\<lparr>no_OrderID := get_le (subslice 24 32 data), no_Price := get_le (subslice 32 40 data),
                     no_Quantity := get_le (subslice 40 48 data), no_SymbolID := get_le (subslice 48 52 data),
                     no_Side := data ! 52, no_Type := data ! 53, no_TIF := data ! 54, no_Flags := data ! 55,
                     no_ClientOrderID := subslice 56 72 data\<rparr>, None)))"

definition NewOrder_Size :: "NewOrderMessage \<Rightarrow> nat" where
  "NewOrder_Size m = 76"

subsection \<open>Market data\<close>

definition MarketData_MarshalBinary :: "byte list \<Rightarrow> MarketDataMessage \<Rightarrow> byte list" where
  "MarketData_MarshalBinary buf m =
     (let b = take 84 buf;
          b = put_at 0 (put_le 4 (84 :: 32 word)) b;
          b = put_at 4 (put_le 2 MsgTypeMarketData) b;
          b = put_at 6 (put_le 2 (mh_Flags (md_Header m))) b;
          b = put_at 8 (put_le 8 (mh_Timestamp (md_Header m))) b;
          b = put_at 16 (put_le 8 (mh_SeqNum (md_Header m))) b;
          b = put_at 24 (put_le 4 (md_SymbolID m)) b;
          b = put_at 32 (put_le 8 (md_BidPrice m)) b;
          b = put_at 40 (put_le 8 (md_BidQty m)) b;
          b = put_at 48 (put_le 8 (md_AskPrice m)) b;
          b = put_at 56 (put_le 8 (md_AskQty m)) b;
          b = put_at 64 (put_le 8 (md_LastPrice m)) b;
          b = put_at 72 (put_le 8 (md_LastQty m)) b
      in put_at 80 (put_le 4 (crc32 (subslice 0 80 b))) b)"

definition MarketData_UnmarshalBinary :: "byte list \<Rightarrow> MarketDataMessage \<Rightarrow> MarketDataMessage \<times> string option" where
  "MarketData_UnmarshalBinary data m =
     (if length data < 84 then (m, Some ''invalid message length'')
      else if get_le (subslice 80 84 data) \<noteq> crc32 (subslice 0 80 data) then (m, Some ''checksum mismatch'')
      else
        (let h = \<lparr>mh_Length = get_le (subslice 0 4 data), mh_Type = get_le (subslice 4 6 data), mh_Flags = get_le (subslice 6 8 data),
                  mh_Timestamp = get_le (subslice 8 16 data), mh_SeqNum = get_le (subslice 16 24 data)\<rparr>;
             m1 = m\<lparr>md_Header := h\<rparr>
         in if mh_Type h \<noteq> MsgTypeMarketData then (m1, Some ''invalid message type'')
            else (m1\<lparr>md_SymbolID := get_le (subslice 24 28 data), md_BidPrice := get_le (subslice 32 40 data),
                     md_BidQty := get_le (subslice 40 48 data), md_AskPrice := get_le (subslice 48 56 data),
                     md_AskQty := get_le (subslice 56 64 data), md_LastPrice := get_le (subslice 64 72 data),
                     md_LastQty := get_le (subslice 72 80 data)\<rparr>, None)))"

definition MarketData_Size :: "MarketDataMessage \<Rightarrow> nat" where
  "MarketData_Size m = 84"

subsection \<open>Batches\<close>

record BatchEncoder =
  be_buf :: "byte list"
  be_offset :: nat

definition NewBatchEncoder :: "nat \<Rightarrow> BatchEncoder" where
  "NewBatchEncoder capacity = \<lparr>be_buf = replicate capacity 0, be_offset = 0\<rparr>"

text \<open>\<^verbatim>\<open>copy\<close> stops at the end of the destination; \<open>pooled\<close> is the buffer that the encoding gets from the pool.\<close>

definition copy_at :: "nat \<Rightarrow> byte list \<Rightarrow> byte list \<Rightarrow> byte list" where
  "copy_at lo bs b = (let n = min (length bs) (length b - lo) in put_at lo (take n bs) b)"

definition EncodeNewOrder :: "byte list \<Rightarrow> NewOrderMessage \<Rightarrow> BatchEncoder \<Rightarrow> BatchEncoder \<times> string option" where
  "EncodeNewOrder pooled m e =
     (if be_offset e + 76 > length (be_buf e) then (e, Some ''buffer overflow'')
      else (e\<lparr>be_buf := copy_at (be_offset e) (NewOrder_MarshalBinary pooled m) (be_buf e),
              be_offset := be_offset e + 76\<rparr>, None))"

definition BatchEncoder_Bytes :: "BatchEncoder \<Rightarrow> byte list" where
  "BatchEncoder_Bytes e = take (be_offset e) (be_buf e)"

definition BatchEncoder_Reset :: "BatchEncoder \<Rightarrow> BatchEncoder" where
  "BatchEncoder_Reset e = e\<lparr>be_offset := 0\<rparr>"

subsection \<open>Integers survive the round trip\<close>

lemma length_put_le [simp]: "length (put_le n w) = n"
  by (induction n arbitrary: w) simp_all

lemma bit_get_put_le:
  fixes w :: "'a::len word"
  assumes "i < LENGTH('a)"
  shows "bit (get_le (put_le n w) :: 'a word) i \<longleftrightarrow> i < 8 * n \<and> bit w i"
  using assms
proof (induction n arbitrary: w i)
  case (Suc n)
  then show ?case
    by (cases "i < 8") (auto simp: bit_simps)
qed simp

lemma get_put_le [simp]:
  fixes w :: "'a::len word"
  assumes "LENGTH('a) \<le> 8 * n"
  shows "(get_le (put_le n w) :: 'a word) = w"
  by (rule bit_word_eqI) (use assms in \<open>simp add: bit_get_put_le\<close>)

subsection \<open>Consecutive writes\<close>

text \<open>Writing a list of fields one after the other.\<close>

primrec put_all :: "nat \<Rightarrow> byte list list \<Rightarrow> byte list \<Rightarrow> byte list" where
  "put_all lo [] b = b"
| "put_all lo (f # fs) b = put_all (lo + length f) fs (put_at lo f b)"

lemma put_all_eq:
  "lo + length (concat fs) \<le> length b \<Longrightarrow> put_all lo fs b = take lo b @ concat fs @ drop (lo + length (concat fs)) b"
  by (induction fs arbitrary: lo b) (simp_all add: put_at_def ac_simps)

lemma length_put_at: "lo + length bs \<le> length b \<Longrightarrow> length (put_at lo bs b) = length b"
  by (simp add: put_at_def)

lemma subslice_middle:
  assumes "lo = length xs" "hi = length xs + length ys"
  shows "subslice lo hi (xs @ ys @ zs) = ys"
  using assms by (simp add: subslice_def)

text \<open>The encoded messages as concatenations of their fields: what is covered by the checksum, the checksum, and the rest of
  the pooled buffer.\<close>

definition NewOrder_fields :: "NewOrderMessage \<Rightarrow> byte list list" where
  "NewOrder_fields m =
     [put_le 4 (76 :: 32 word), put_le 2 MsgTypeNewOrder, put_le 2 (mh_Flags (no_Header m)),
      put_le 8 (mh_Timestamp (no_Header m)), put_le 8 (mh_SeqNum (no_Header m)), put_le 8 (no_OrderID m),
      put_le 8 (no_Price m), put_le 8 (no_Quantity m), put_le 4 (no_SymbolID m),
      [no_Side m], [no_Type m], [no_TIF m], [no_Flags m], no_ClientOrderID m]"

definition MarketData_fields :: "byte list \<Rightarrow> MarketDataMessage \<Rightarrow> byte list list" where
  "MarketData_fields pad m =
     [put_le 4 (84 :: 32 word), put_le 2 MsgTypeMarketData, put_le 2 (mh_Flags (md_Header m)),
      put_le 8 (mh_Timestamp (md_Header m)), put_le 8 (mh_SeqNum (md_Header m)), put_le 4 (md_SymbolID m), pad,
      put_le 8 (md_BidPrice m), put_le 8 (md_BidQty m), put_le 8 (md_AskPrice m), put_le 8 (md_AskQty m),
      put_le 8 (md_LastPrice m), put_le 8 (md_LastQty m)]"

declare put_le.simps [simp del]

lemma length_NewOrder: "length (no_ClientOrderID m) = 16 \<Longrightarrow> length (concat (NewOrder_fields m)) = 72"
  by (simp add: NewOrder_fields_def)

lemma length_MarketData: "length pad = 4 \<Longrightarrow> length (concat (MarketData_fields pad m)) = 80"
  by (simp add: MarketData_fields_def)

lemma put_at_end:
  assumes "length body = lo" "lo + length bs \<le> length b"
  shows "put_at lo bs (body @ drop lo b) = body @ bs @ drop (lo + length bs) b"
  using assms by (simp add: put_at_def add.commute)

lemma NewOrder_Marshal_eq:
  assumes "80 \<le> length buf" "length (no_ClientOrderID m) = 16"
  shows "NewOrder_MarshalBinary buf m =
     concat (NewOrder_fields m) @ put_le 4 (crc32 (concat (NewOrder_fields m))) @ drop 76 (take 80 buf)"
proof -
  let ?b = "take 80 buf" and ?body = "concat (NewOrder_fields m)"
  have "NewOrder_MarshalBinary buf m =
      (let b = put_all 0 (NewOrder_fields m) ?b in put_at 72 (put_le 4 (crc32 (subslice 0 72 b))) b)"
    by (simp add: NewOrder_MarshalBinary_def NewOrder_fields_def)
  also have "put_all 0 (NewOrder_fields m) ?b = ?body @ drop 72 ?b"
    using put_all_eq [of 0 "NewOrder_fields m" ?b] length_NewOrder [OF assms(2)] assms(1) by simp
  finally show ?thesis
    using put_at_end [OF length_NewOrder [OF assms(2)], of "put_le 4 (crc32 ?body)" ?b] length_NewOrder [OF assms(2)] assms(1)
    by (simp add: Let_def subslice_def)
qed

lemma MarketData_Marshal_eq:
  assumes "84 \<le> length buf"
  shows "MarketData_MarshalBinary buf m =
     concat (MarketData_fields (subslice 28 32 buf) m) @ put_le 4 (crc32 (concat (MarketData_fields (subslice 28 32 buf) m)))"
proof -
  let ?b = "take 84 buf" and ?pad = "subslice 28 32 buf"
  let ?body = "concat (MarketData_fields ?pad m)"
  have pad: "length ?pad = 4" using assms by (simp add: subslice_def)
  let ?h = "put_all 0 (take 6 (MarketData_fields ?pad m)) ?b"
  have h: "?h = concat (take 6 (MarketData_fields ?pad m)) @ drop 28 ?b"
    using put_all_eq [of 0 "take 6 (MarketData_fields ?pad m)" ?b] assms by (simp add: MarketData_fields_def)
  have "?pad @ drop 32 ?b = drop 28 ?b"
    using append_take_drop_id [of 4 "drop 28 ?b"] assms by (simp add: subslice_def drop_take)
  then have "put_at 28 ?pad ?h = ?h"
    using assms pad by (simp add: h put_at_def MarketData_fields_def)
  then have "MarketData_MarshalBinary buf m =
      (let b = put_all 0 (MarketData_fields ?pad m) ?b in put_at 80 (put_le 4 (crc32 (subslice 0 80 b))) b)"
    using pad by (simp add: MarketData_MarshalBinary_def MarketData_fields_def)
  also have "put_all 0 (MarketData_fields ?pad m) ?b = ?body @ drop 80 ?b"
    using put_all_eq [of 0 "MarketData_fields ?pad m" ?b] length_MarketData [OF pad] assms by simp
  finally show ?thesis
    using put_at_end [OF length_MarketData [OF pad], of "put_le 4 (crc32 ?body)" ?b] length_MarketData [OF pad, of m] assms
    by (simp add: Let_def subslice_def)
qed

lemma get_put_le4 [simp]: "(get_le (put_le 4 (w :: 32 word)) :: 32 word) = w"
  and get_put_le2 [simp]: "(get_le (put_le 2 (v :: 16 word)) :: 16 word) = v"
  and get_put_le8 [simp]: "(get_le (put_le 8 (u :: 64 word)) :: 64 word) = u"
  by (simp_all add: get_put_le)

lemma NewOrder_decode:
  assumes "length (no_ClientOrderID m) = 16"
  shows "NewOrder_UnmarshalBinary (concat (NewOrder_fields m) @ put_le 4 (crc32 (concat (NewOrder_fields m))) @ rest) m0 =
     (m\<lparr>no_Header := (no_Header m)\<lparr>mh_Length := 76, mh_Type := MsgTypeNewOrder\<rparr>\<rparr>, None)"
proof -
  let ?crc = "crc32 (concat (NewOrder_fields m))"
  let ?d = "concat (NewOrder_fields m) @ put_le 4 ?crc @ rest"
  note len = length_NewOrder [OF assms]
  have sum: "length ?d = 76 + length rest" "get_le (subslice 72 76 ?d) = crc32 (subslice 0 72 ?d)"
    using len by (simp_all add: subslice_def)
  have head: "subslice 0 4 ?d = put_le 4 (76 :: 32 word)" "subslice 4 6 ?d = put_le 2 MsgTypeNewOrder"
    "subslice 6 8 ?d = put_le 2 (mh_Flags (no_Header m))" "subslice 8 16 ?d = put_le 8 (mh_Timestamp (no_Header m))"
    "subslice 16 24 ?d = put_le 8 (mh_SeqNum (no_Header m))"
    by (simp_all add: NewOrder_fields_def subslice_def)
  have body: "subslice 24 32 ?d = put_le 8 (no_OrderID m)" "subslice 32 40 ?d = put_le 8 (no_Price m)"
    "subslice 40 48 ?d = put_le 8 (no_Quantity m)" "subslice 48 52 ?d = put_le 4 (no_SymbolID m)"
    "?d ! 52 = no_Side m" "?d ! 53 = no_Type m" "?d ! 54 = no_TIF m" "?d ! 55 = no_Flags m" "subslice 56 72 ?d = no_ClientOrderID m"
    using assms by (simp_all add: NewOrder_fields_def subslice_def nth_append)
  show ?thesis
    unfolding NewOrder_UnmarshalBinary_def by (simp only: sum head body) (simp add: Let_def)
qed

lemma MarketData_decode:
  assumes "length pad = 4"
  shows "MarketData_UnmarshalBinary (concat (MarketData_fields pad m) @ put_le 4 (crc32 (concat (MarketData_fields pad m))) @ rest) m0 =
     (m\<lparr>md_Header := (md_Header m)\<lparr>mh_Length := 84, mh_Type := MsgTypeMarketData\<rparr>\<rparr>, None)"
proof -
  let ?crc = "crc32 (concat (MarketData_fields pad m))"
  let ?d = "concat (MarketData_fields pad m) @ put_le 4 ?crc @ rest"
  note len = length_MarketData [OF assms]
  have sum: "length ?d = 84 + length rest" "get_le (subslice 80 84 ?d) = crc32 (subslice 0 80 ?d)"
    using len by (simp_all add: subslice_def)
  have head: "subslice 0 4 ?d = put_le 4 (84 :: 32 word)" "subslice 4 6 ?d = put_le 2 MsgTypeMarketData"
    "subslice 6 8 ?d = put_le 2 (mh_Flags (md_Header m))" "subslice 8 16 ?d = put_le 8 (mh_Timestamp (md_Header m))"
    "subslice 16 24 ?d = put_le 8 (mh_SeqNum (md_Header m))" "subslice 24 28 ?d = put_le 4 (md_SymbolID m)"
    by (simp_all add: MarketData_fields_def subslice_def)
  have body: "subslice 32 40 ?d = put_le 8 (md_BidPrice m)" "subslice 40 48 ?d = put_le 8 (md_BidQty m)"
    "subslice 48 56 ?d = put_le 8 (md_AskPrice m)" "subslice 56 64 ?d = put_le 8 (md_AskQty m)"
    "subslice 64 72 ?d = put_le 8 (md_LastPrice m)" "subslice 72 80 ?d = put_le 8 (md_LastQty m)"
    using assms by (simp_all add: MarketData_fields_def subslice_def)
  show ?thesis
    unfolding MarketData_UnmarshalBinary_def by (simp only: sum head body) (simp add: Let_def)
qed

subsection \<open>The checksum detects a corrupted byte\<close>

lemma xor_cancel: "a XOR b = c XOR b \<longleftrightarrow> a = c" for a b c :: "32 word"
proof
  assume "a XOR b = c XOR b"
  then have "(a XOR b) XOR b = (c XOR b) XOR b" by simp
  then show "a = c" by (simp only: xor.assoc xor_self_eq xor.right_neutral)
qed simp

lemma xor_cancel_left: "b XOR a = b XOR c \<longleftrightarrow> a = c" for a b c :: "32 word"
  using xor_cancel [of a b c] by (simp only: xor.commute)

lemma bit_crc_bit_31: "bit (crc_bit c) 31 \<longleftrightarrow> bit c 0"
  by (auto simp: crc_bit_def bit_simps dest: bit_imp_le_length)

lemma inj_crc_bit: "inj crc_bit"
proof (rule injI)
  fix c d
  assume eq: "crc_bit c = crc_bit d"
  then have low: "bit c 0 \<longleftrightarrow> bit d 0"
    using bit_crc_bit_31 by metis
  then have "drop_bit 1 c = drop_bit 1 d"
    using eq by (cases "bit c 0") (simp_all add: crc_bit_def xor_cancel)
  then have "bit (drop_bit 1 c) n \<longleftrightarrow> bit (drop_bit 1 d) n" for n by simp
  then have high: "bit c (Suc n) \<longleftrightarrow> bit d (Suc n)" for n
    by (simp add: bit_drop_bit_eq)
  have "bit c n \<longleftrightarrow> bit d n" for n
    using low high by (cases n) simp_all
  then show "c = d"
    by (intro bit_word_eqI) simp
qed

lemma inj_crc_bits: "(crc_bit ^^ 8) c = (crc_bit ^^ 8) d \<longleftrightarrow> c = d"
  using inj_fn [OF inj_crc_bit, of 8] by (auto simp: inj_def)

lemma crc_byte_eq_iff: "crc_byte b c = crc_byte b d \<longleftrightarrow> c = d"
  by (simp add: crc_byte_def inj_crc_bits xor_cancel)

lemma ucast_byte_eq_iff: "(ucast (b :: byte) :: 32 word) = ucast b' \<longleftrightarrow> b = b'"
proof
  assume eq: "(ucast b :: 32 word) = ucast b'"
  have "bit b n \<longleftrightarrow> bit b' n" if "n < 8" for n
    using arg_cong [OF eq, of "\<lambda>w. bit w n"] that by (simp add: bit_simps)
  then show "b = b'" by (intro bit_word_eqI) simp
qed simp

lemma crc_byte_differ: "crc_byte b c = crc_byte b' c \<longleftrightarrow> b = b'"
  by (simp add: crc_byte_def inj_crc_bits xor_cancel_left ucast_byte_eq_iff)

lemma fold_crc_eq_iff: "fold crc_byte bs c = fold crc_byte bs d \<longleftrightarrow> c = d"
  by (induction bs arbitrary: c d) (simp_all add: crc_byte_eq_iff)

lemma crc32_update:
  assumes "i < length bs" "x \<noteq> bs ! i"
  shows "crc32 (bs[i := x]) \<noteq> crc32 bs"
proof -
  let ?s = "fold crc_byte (take i bs) (- 1)"
  have "fold crc_byte (bs[i := x]) (- 1) = fold crc_byte (drop (Suc i) bs) (crc_byte x ?s)"
    using assms(1) by (simp add: upd_conv_take_nth_drop)
  moreover have "fold crc_byte bs (- 1) = fold crc_byte (drop (Suc i) bs) (crc_byte (bs ! i) ?s)"
    using id_take_nth_drop [OF assms(1)] by (metis fold_append fold_simps(2) o_apply)
  ultimately show ?thesis
    using assms(2) by (simp add: crc32_def fold_crc_eq_iff crc_byte_differ)
qed

lemma bit_get_le:
  "bit (get_le bs :: 'a::len word) n \<longleftrightarrow> n < LENGTH('a) \<and> n < 8 * length bs \<and> bit (bs ! (n div 8)) (n mod 8)"
proof (induction bs arbitrary: n)
  case (Cons b bs)
  show ?case
  proof (cases "n < 8")
    case True
    then show ?thesis by (auto simp: bit_simps)
  next
    case False
    then have "n = (n - 8) + 8" "\<not> bit b n"
      by (auto dest: bit_imp_le_length)
    then have "n div 8 = Suc ((n - 8) div 8)" "n mod 8 = (n - 8) mod 8"
      by (metis div_add_self2 Suc_eq_plus1 zero_neq_numeral, metis mod_add_self2)
    then show ?thesis
      using False Cons.IH [of "n - 8"] by (auto simp: bit_simps dest: bit_imp_le_length)
  qed
qed simp

lemma get_le_update:
  assumes "i < length bs" "8 * length bs \<le> LENGTH('a)" "x \<noteq> bs ! i"
  shows "(get_le (bs[i := x]) :: 'a::len word) \<noteq> get_le bs"
proof -
  obtain k where k: "k < 8" "bit x k \<noteq> bit (bs ! i) k"
    using assms(3) bit_word_eqI [of x "bs ! i"] by auto
  have "(8 * i + k) div 8 = i" "(8 * i + k) mod 8 = k" "8 * i + k < 8 * length bs"
    using k(1) assms(1) by auto
  then have "bit (get_le (bs[i := x]) :: 'a word) (8 * i + k) \<noteq> bit (get_le bs :: 'a word) (8 * i + k)"
    using k(2) assms(1,2) by (simp add: bit_get_le)
  then show ?thesis by metis
qed

text \<open>A frame: \<open>n\<close> bytes followed by their checksum.\<close>

definition frame_ok :: "nat \<Rightarrow> byte list \<Rightarrow> bool" where
  "frame_ok n data \<longleftrightarrow> get_le (subslice n (n + 4) data) = crc32 (subslice 0 n data)"

lemma frame_corrupt:
  assumes "frame_ok n data" "n + 4 \<le> length data" "i < n + 4" "x \<noteq> data ! i"
  shows "\<not> frame_ok n (data[i := x])"
proof (cases "i < n")
  case True
  then have "subslice n (n + 4) (data[i := x]) = subslice n (n + 4) data" "subslice 0 n (data[i := x]) = (subslice 0 n data)[i := x]"
    by (simp_all add: subslice_def take_update_swap)
  then show ?thesis
    using crc32_update [of i "subslice 0 n data" x] True assms by (simp add: frame_ok_def subslice_def)
next
  case False
  then have eq: "subslice n (n + 4) (data[i := x]) = (subslice n (n + 4) data)[i - n := x]" "subslice 0 n (data[i := x]) = subslice 0 n data"
    by (simp_all add: subslice_def drop_update_swap take_update_swap list_update_beyond)
  have "i - n < length (subslice n (n + 4) data)" "8 * length (subslice n (n + 4) data) \<le> LENGTH(32)" "x \<noteq> subslice n (n + 4) data ! (i - n)"
    using False assms by (simp_all add: subslice_def)
  then show ?thesis
    using get_le_update [where 'a = 32, of "i - n" "subslice n (n + 4) data" x] assms(1) eq by (simp add: frame_ok_def)
qed

lemma NewOrder_frame:
  "76 \<le> length data \<Longrightarrow> NewOrder_UnmarshalBinary data m0 = (m0, Some ''checksum mismatch'') \<longleftrightarrow> \<not> frame_ok 72 data"
  by (simp add: NewOrder_UnmarshalBinary_def frame_ok_def Let_def)

lemma MarketData_frame:
  "84 \<le> length data \<Longrightarrow> MarketData_UnmarshalBinary data m0 = (m0, Some ''checksum mismatch'') \<longleftrightarrow> \<not> frame_ok 80 data"
  by (simp add: MarketData_UnmarshalBinary_def frame_ok_def Let_def)

subsection \<open>A batch holds its messages one after the other\<close>

text \<open>What a message contributes to a batch.\<close>

definition NewOrder_frame76 :: "NewOrderMessage \<Rightarrow> byte list" where
  "NewOrder_frame76 m = concat (NewOrder_fields m) @ put_le 4 (crc32 (concat (NewOrder_fields m)))"

primrec encode_all :: "(byte list \<times> NewOrderMessage) list \<Rightarrow> BatchEncoder \<Rightarrow> BatchEncoder \<times> string option list" where
  "encode_all [] e = (e, [])"
| "encode_all (pm # pms) e =
     (let r = EncodeNewOrder (fst pm) (snd pm) e; rs = encode_all pms (fst r) in (fst rs, snd r # snd rs))"

lemma length_frame76: "length (no_ClientOrderID m) = 16 \<Longrightarrow> length (NewOrder_frame76 m) = 76"
  using length_NewOrder [of m] by (simp add: NewOrder_frame76_def)

lemma EncodeNewOrder_appends:
  assumes "80 \<le> length p" "length (no_ClientOrderID m) = 16" "be_offset e + 76 \<le> length (be_buf e)"
  shows "snd (EncodeNewOrder p m e) = None" "be_offset (fst (EncodeNewOrder p m e)) = be_offset e + 76"
    "length (be_buf (fst (EncodeNewOrder p m e))) = length (be_buf e)"
    "BatchEncoder_Bytes (fst (EncodeNewOrder p m e)) = BatchEncoder_Bytes e @ NewOrder_frame76 m"
proof -
  let ?rest = "drop 76 (take 80 p)" and ?n = "min 80 (length (be_buf e) - be_offset e)"
  have eq: "NewOrder_MarshalBinary p m = NewOrder_frame76 m @ ?rest" "length (NewOrder_frame76 m @ ?rest) = 80"
    using NewOrder_Marshal_eq [OF assms(1,2)] length_frame76 [OF assms(2)] assms(1) by (simp_all add: NewOrder_frame76_def)
  have n: "76 \<le> ?n" "be_offset e + ?n \<le> length (be_buf e)" using assms(3) by auto
  have buf: "be_buf (fst (EncodeNewOrder p m e)) =
      take (be_offset e) (be_buf e) @ take ?n (NewOrder_frame76 m @ ?rest) @ drop (be_offset e + ?n) (be_buf e)"
  proof -
    have "length (take ?n (NewOrder_frame76 m @ ?rest)) = ?n" using eq(2) by (simp only: length_take)
    then show ?thesis
      using assms(3) eq by (simp add: EncodeNewOrder_def copy_at_def put_at_def Let_def min.commute del: take_append length_take)
  qed
  have "take ?n (NewOrder_frame76 m @ ?rest) = NewOrder_frame76 m @ take (?n - 76) ?rest"
    using n(1) length_frame76 [OF assms(2)] by simp
  then show "BatchEncoder_Bytes (fst (EncodeNewOrder p m e)) = BatchEncoder_Bytes e @ NewOrder_frame76 m"
    using assms(3) length_frame76 [OF assms(2)] buf by (simp add: BatchEncoder_Bytes_def EncodeNewOrder_def)
  show "length (be_buf (fst (EncodeNewOrder p m e))) = length (be_buf e)"
    using n eq(2) assms(3) by (simp add: buf del: take_append length_append) (simp only: length_append length_take length_drop, simp)
  show "snd (EncodeNewOrder p m e) = None" "be_offset (fst (EncodeNewOrder p m e)) = be_offset e + 76"
    using assms(3) by (simp_all add: EncodeNewOrder_def)
qed

lemma encode_all_bytes:
  assumes "\<forall>(p, m) \<in> set pms. 80 \<le> length p \<and> length (no_ClientOrderID m) = 16"
    and "be_offset e + 76 * length pms \<le> length (be_buf e)" "encode_all pms e = (e', errs)"
  shows "errs = replicate (length pms) None \<and>
     BatchEncoder_Bytes e' = BatchEncoder_Bytes e @ concat (map (NewOrder_frame76 \<circ> snd) pms)"
  using assms
proof (induction pms arbitrary: e errs)
  case (Cons pm pms)
  have step: "80 \<le> length (fst pm)" "length (no_ClientOrderID (snd pm)) = 16" "be_offset e + 76 \<le> length (be_buf e)"
    using Cons.prems(1,2) by (auto split: prod.splits)
  note enc = EncodeNewOrder_appends [OF step]
  obtain errs1 where run: "encode_all pms (fst (EncodeNewOrder (fst pm) (snd pm) e)) = (e', errs1)" "errs = None # errs1"
    using Cons.prems(3) enc(1) by (metis encode_all.simps(2) fst_conv snd_conv prod.collapse Pair_inject)
  show ?case
    using Cons.IH [OF _ _ run(1)] Cons.prems(1,2) enc run(2) by simp
qed simp

lemma concat_chunk:
  assumes "\<forall>m \<in> set ms. length (f m) = k" "i < length ms"
  shows "take k (drop (k * i) (concat (map f ms))) = f (ms ! i)"
  using assms
proof (induction ms arbitrary: i)
  case (Cons m ms)
  then show ?case by (cases i) simp_all
qed simp

subsection \<open>Properties\<close>

text \<open>
  C11. Decoding gives back what was encoded. For every message and every earlier content of the pooled buffer,
  \<^verbatim>\<open>UnmarshalBinary\<close> of the bytes of \<^verbatim>\<open>MarshalBinary\<close> succeeds and yields the message, with the header's length and type set to
  those of the wire format, whatever the receiver held before. Both messages.
\<close>

theorem wire_roundtrip:
  assumes "84 \<le> length buf" "length (no_ClientOrderID m) = 16"
  shows "NewOrder_UnmarshalBinary (NewOrder_MarshalBinary buf m) m0 =
       (m\<lparr>no_Header := (no_Header m)\<lparr>mh_Length := of_nat (NewOrder_Size m), mh_Type := MsgTypeNewOrder\<rparr>\<rparr>, None) \<and>
     MarketData_UnmarshalBinary (MarketData_MarshalBinary buf d) d0 =
       (d\<lparr>md_Header := (md_Header d)\<lparr>mh_Length := of_nat (MarketData_Size d), mh_Type := MsgTypeMarketData\<rparr>\<rparr>, None)"
proof -
  have "80 \<le> length buf" "length (subslice 28 32 buf) = 4"
    using assms(1) by (simp_all add: subslice_def)
  then show ?thesis
    using assms NewOrder_decode [OF assms(2), of "drop 76 (take 80 buf)" m0]
      MarketData_decode [of "subslice 28 32 buf" d "[]" d0]
    by (simp add: NewOrder_Marshal_eq MarketData_Marshal_eq NewOrder_Size_def MarketData_Size_def)
qed

definition wire_demo :: NewOrderMessage where
  "wire_demo =
     \<lparr>no_Header = \<lparr>mh_Length = 0, mh_Type = 0, mh_Flags = 7, mh_Timestamp = 123456789, mh_SeqNum = 42\<rparr>,
      no_OrderID = 1001, no_Price = - 5, no_Quantity = 300, no_SymbolID = 17, no_Side = 1, no_Type = 0, no_TIF = 2, no_Flags = 9,
      no_ClientOrderID = replicate 16 65\<rparr>"

theorem wire_roundtrip_witness:
  "NewOrder_UnmarshalBinary (NewOrder_MarshalBinary (replicate 1024 255) wire_demo) wire_demo =
     (wire_demo\<lparr>no_Header := (no_Header wire_demo)\<lparr>mh_Length := 76, mh_Type := 1\<rparr>\<rparr>, None)"
  using wire_roundtrip [of "replicate 1024 255" wire_demo wire_demo]
  by (simp add: wire_demo_def NewOrder_Size_def MsgTypeNewOrder_def)

text \<open>
  C18. A corrupted byte is detected. When a buffer decodes without a checksum error, changing any single byte of the message, in
  the covered part or in the checksum itself, makes \<^verbatim>\<open>UnmarshalBinary\<close> report \<^verbatim>\<open>checksum mismatch\<close> and leave the receiver
  as it was. Both messages.
\<close>

theorem wire_detects_corruption:
  assumes "x \<noteq> data ! i"
  shows "(76 \<le> length data \<and> i < 76 \<and> snd (NewOrder_UnmarshalBinary data m) \<noteq> Some ''checksum mismatch'' \<longrightarrow>
       NewOrder_UnmarshalBinary (data[i := x]) m = (m, Some ''checksum mismatch'')) \<and>
     (84 \<le> length data \<and> i < 84 \<and> snd (MarketData_UnmarshalBinary data d) \<noteq> Some ''checksum mismatch'' \<longrightarrow>
       MarketData_UnmarshalBinary (data[i := x]) d = (d, Some ''checksum mismatch''))"
proof (intro conjI impI; elim conjE)
  show "NewOrder_UnmarshalBinary (data[i := x]) m = (m, Some ''checksum mismatch'')"
    if "76 \<le> length data" "i < 76" "snd (NewOrder_UnmarshalBinary data m) \<noteq> Some ''checksum mismatch''"
  proof -
    have "frame_ok 72 data" using that(1,3) NewOrder_frame [of data m] by auto
    then show ?thesis using frame_corrupt [of 72 data i x] assms that(1,2) NewOrder_frame [of "data[i := x]" m] by simp
  qed
  show "MarketData_UnmarshalBinary (data[i := x]) d = (d, Some ''checksum mismatch'')"
    if "84 \<le> length data" "i < 84" "snd (MarketData_UnmarshalBinary data d) \<noteq> Some ''checksum mismatch''"
  proof -
    have "frame_ok 80 data" using that(1,3) MarketData_frame [of data d] by auto
    then show ?thesis using frame_corrupt [of 80 data i x] assms that(1,2) MarketData_frame [of "data[i := x]" d] by simp
  qed
qed

theorem wire_detects_corruption_witness:
  "NewOrder_UnmarshalBinary ((NewOrder_MarshalBinary (replicate 84 0) wire_demo)[55 := 8]) wire_demo =
     (wire_demo, Some ''checksum mismatch'')"
proof -
  let ?d = "NewOrder_MarshalBinary (replicate 84 0) wire_demo"
  have eq: "?d = concat (NewOrder_fields wire_demo) @ put_le 4 (crc32 (concat (NewOrder_fields wire_demo))) @ replicate 4 0"
    using NewOrder_Marshal_eq [of "replicate 84 0" wire_demo] by (simp add: wire_demo_def)
  have "length ?d = 80" "?d ! 55 = 9"
    unfolding eq using length_NewOrder [of wire_demo]
    by (simp add: wire_demo_def) (simp add: wire_demo_def NewOrder_fields_def nth_append put_le.simps)
  moreover have "snd (NewOrder_UnmarshalBinary ?d wire_demo) = None"
    using NewOrder_decode [of wire_demo "replicate 4 0" wire_demo] by (simp add: eq) (simp add: wire_demo_def)
  ultimately show ?thesis
    using wire_detects_corruption [of 8 ?d 55 wire_demo] by simp
qed

text \<open>
  C34. A batch is the concatenation of its messages. Encoding messages into an empty encoder with room for all of them never
  reports an overflow, although each encoding copies four bytes more than it keeps; the bytes of the batch are 76 per message, and
  decoding the \<open>i\<close>-th 76 bytes gives the \<open>i\<close>-th message.
\<close>

theorem wire_batch_roundtrip:
  assumes "\<forall>(p, m) \<in> set pms. 80 \<le> length p \<and> length (no_ClientOrderID m) = 16"
    and "76 * length pms \<le> capacity" "encode_all pms (NewBatchEncoder capacity) = (e, errs)" "i < length pms"
  shows "errs = replicate (length pms) None \<and> length (BatchEncoder_Bytes e) = 76 * length pms \<and>
     NewOrder_UnmarshalBinary (take 76 (drop (76 * i) (BatchEncoder_Bytes e))) m0 =
       (let m = snd (pms ! i) in (m\<lparr>no_Header := (no_Header m)\<lparr>mh_Length := 76, mh_Type := MsgTypeNewOrder\<rparr>\<rparr>, None))"
proof -
  have len: "\<forall>pm \<in> set pms. length ((NewOrder_frame76 \<circ> snd) pm) = 76"
    using assms(1) length_frame76 by auto
  have bytes: "errs = replicate (length pms) None" "BatchEncoder_Bytes e = concat (map (NewOrder_frame76 \<circ> snd) pms)"
    using encode_all_bytes [OF assms(1) _ assms(3)] assms(2) by (simp_all add: NewBatchEncoder_def BatchEncoder_Bytes_def)
  have "length (concat (map (NewOrder_frame76 \<circ> snd) pms)) = 76 * length pms"
    using len by (induction pms) simp_all
  moreover have "length (no_ClientOrderID (snd (pms ! i))) = 16"
    using assms(1,4) nth_mem [OF assms(4)] by fastforce
  moreover have "take 76 (drop (76 * i) (BatchEncoder_Bytes e)) = NewOrder_frame76 (snd (pms ! i)) @ []"
    unfolding bytes(2) using concat_chunk [OF len assms(4)] by (simp only: o_def append_Nil2)
  ultimately show ?thesis
    using NewOrder_decode [of "snd (pms ! i)" "[]" m0] bytes
    by (simp add: Let_def) (simp add: NewOrder_frame76_def)
qed

theorem wire_batch_roundtrip_witness:
  "\<exists>e errs. encode_all [(replicate 80 0, wire_demo), (replicate 80 1, wire_demo)] (NewBatchEncoder 152) = (e, errs) \<and>
     errs = [None, None] \<and> snd (NewOrder_UnmarshalBinary (take 76 (drop 76 (BatchEncoder_Bytes e))) wire_demo) = None"
proof -
  let ?pms = "[(replicate 80 0, wire_demo), (replicate 80 1, wire_demo)]"
  obtain e errs where run: "encode_all ?pms (NewBatchEncoder 152) = (e, errs)" by fastforce
  have "\<forall>(p, m) \<in> set ?pms. 80 \<le> length p \<and> length (no_ClientOrderID m) = 16" by (simp add: wire_demo_def)
  from wire_batch_roundtrip [OF this _ run, of 1 wire_demo] run show ?thesis
    by (auto simp: Let_def simp del: encode_all.simps)
qed

end
