(* ===== verification/Matching.thy ===== *)
theory Matching
  imports Wire "HOL-Library.AList"
begin

text \<open>
  The order book of the matching engine (\<^verbatim>\<open>pkg/hft/matching\<close>): \<^verbatim>\<open>order.go\<close> (orders, price levels, iterators, pools) and
  \<^verbatim>\<open>orderbook.go\<close> (the book).

  Orders are objects that the code links into lists by \<^verbatim>\<open>next\<close> and \<^verbatim>\<open>prev\<close>, and that stay reachable through the map
  \<^verbatim>\<open>orders\<close> and through the caller's pointer; they live in an explicit heap, and a pointer is an address. A price level belongs to
  one entry of \<^verbatim>\<open>bids\<close> or \<^verbatim>\<open>asks\<close> from the moment it is taken from the pool to the moment it goes back, so a pointer to a level is
  its side and price. The maps that are iterated are association lists. A nil dereference is an outcome, \<open>Panicked\<close>, that
  keeps the state reached; a loop over a list is a \<^verbatim>\<open>partial_function\<close>, whose value is \<open>None\<close> when the list is cyclic. The
  \<open>k\<close>-th reading of the clock is \<open>clk k\<close>; callbacks are a log of events, recorded when the callback is set.

  The results: on a well-formed book an order is matched against the queues of the best opposite level in order of arrival,
  at the resting price, or joins the end of its own level, and cancelling a resting order removes exactly it. The
  well-formedness is kept, no loop diverges. Two defects are shown: an order that takes the last resting order
  of the best level always panics, and cancelling an order that is not resting can remove the other orders of a level.
\<close>

subsection \<open>Orders\<close>

record Order =
  or_ID :: "64 word"
  or_Symbol :: string
  or_SymbolID :: "32 word"
  or_Side :: byte
  or_Type :: byte
  or_Price :: int
  or_Quantity :: int
  or_FilledQty :: int
  or_LeavesQty :: int
  or_Status :: byte
  or_TimeInForce :: byte
  or_Timestamp :: int
  or_ClientOrderID :: "byte list"
  or_next :: "nat option"
  or_prev :: "nat option"

type_synonym heap = "nat \<Rightarrow> Order"

definition zero_Order :: Order where
  "zero_Order =
     \<lparr>or_ID = 0, or_Symbol = [], or_SymbolID = 0, or_Side = 0, or_Type = 0, or_Price = 0, or_Quantity = 0, or_FilledQty = 0,
      or_LeavesQty = 0, or_Status = 0, or_TimeInForce = 0, or_Timestamp = 0, or_ClientOrderID = replicate 16 0,
      or_next = None, or_prev = None\<rparr>"

definition Order_Reset :: "Order \<Rightarrow> Order" where
  "Order_Reset o1 = o1
     \<lparr>or_ID := 0, or_Symbol := [], or_SymbolID := 0, or_Side := 0, or_Type := 0, or_Price := 0, or_Quantity := 0, or_FilledQty := 0,
      or_LeavesQty := 0, or_Status := 0, or_TimeInForce := 0, or_Timestamp := 0, or_ClientOrderID := map (\<lambda>_. 0) (or_ClientOrderID o1),
      or_next := None, or_prev := None\<rparr>"

definition Order_Clone :: "Order \<Rightarrow> Order" where
  "Order_Clone o1 =
     \<lparr>or_ID = or_ID o1, or_Symbol = or_Symbol o1, or_SymbolID = or_SymbolID o1, or_Side = or_Side o1, or_Type = or_Type o1,
      or_Price = or_Price o1, or_Quantity = or_Quantity o1, or_FilledQty = or_FilledQty o1, or_LeavesQty = or_LeavesQty o1,
      or_Status = or_Status o1, or_TimeInForce = or_TimeInForce o1, or_Timestamp = or_Timestamp o1,
      or_ClientOrderID = or_ClientOrderID o1, or_next = None, or_prev = None\<rparr>"

definition IsBuy :: "Order \<Rightarrow> bool" where
  "IsBuy o1 \<longleftrightarrow> or_Side o1 = SideBuy"

definition IsSell :: "Order \<Rightarrow> bool" where
  "IsSell o1 \<longleftrightarrow> or_Side o1 = SideSell"

definition IsLimit :: "Order \<Rightarrow> bool" where
  "IsLimit o1 \<longleftrightarrow> or_Type o1 = OrderTypeLimit"

definition IsMarket :: "Order \<Rightarrow> bool" where
  "IsMarket o1 \<longleftrightarrow> or_Type o1 = OrderTypeMarket"

definition CanMatch :: "Order \<Rightarrow> Order \<Rightarrow> bool" where
  "CanMatch o1 other =
     (if or_Side o1 = or_Side other then False
      else if IsMarket o1 \<or> IsMarket other then True
      else if IsBuy o1 then or_Price o1 \<ge> or_Price other
      else or_Price o1 \<le> or_Price other)"

record Fill =
  fi_OrderID :: "64 word"
  fi_Timestamp :: int
  fi_Price :: int
  fi_Quantity :: int

definition Order_Fill :: "int \<Rightarrow> int \<Rightarrow> int \<Rightarrow> Order \<Rightarrow> Order \<times> Fill option" where
  "Order_Fill now qty price o1 =
     (if qty \<le> 0 \<or> qty > or_LeavesQty o1 then (o1, None)
      else
        (let fill = \<lparr>fi_OrderID = or_ID o1, fi_Timestamp = now, fi_Price = price, fi_Quantity = qty\<rparr>;
             o2 = o1\<lparr>or_FilledQty := int64 (or_FilledQty o1 + qty), or_LeavesQty := int64 (or_LeavesQty o1 - qty)\<rparr>
         in (o2\<lparr>or_Status := (if or_LeavesQty o2 = 0 then StatusFilled else StatusPartial)\<rparr>, Some fill)))"

record Trade =
  tr_BuyOrderID :: "64 word"
  tr_SellOrderID :: "64 word"
  tr_Symbol :: string
  tr_Price :: int
  tr_Quantity :: int
  tr_Timestamp :: int

subsection \<open>Price levels\<close>

record PriceLevel =
  pl_Price :: int
  pl_TotalQty :: int
  pl_Orders :: "nat option"
  pl_Count :: int
  pl_next :: "int option"
  pl_prev :: "int option"

definition NewPriceLevel :: "int \<Rightarrow> PriceLevel" where
  "NewPriceLevel price = \<lparr>pl_Price = price, pl_TotalQty = 0, pl_Orders = None, pl_Count = 0, pl_next = None, pl_prev = None\<rparr>"

text \<open>The last order of the list that starts at \<open>r\<close>.\<close>

partial_function (option) list_tail :: "heap \<Rightarrow> nat \<Rightarrow> nat option" where
  "list_tail h r = (case or_next (h r) of None \<Rightarrow> Some r | Some n \<Rightarrow> list_tail h n)"

definition PriceLevel_link :: "nat \<Rightarrow> heap \<Rightarrow> PriceLevel \<Rightarrow> (heap \<times> PriceLevel) option" where
  "PriceLevel_link r h pl =
     (case pl_Orders pl of
        None \<Rightarrow> Some (h(r := (h r)\<lparr>or_next := None, or_prev := None\<rparr>), pl\<lparr>pl_Orders := Some r\<rparr>)
      | Some head \<Rightarrow> map_option (\<lambda>tail.
          let h1 = h(tail := (h tail)\<lparr>or_next := Some r\<rparr>)
          in (h1(r := (h1 r)\<lparr>or_prev := Some tail, or_next := None\<rparr>), pl)) (list_tail h head))"

definition PriceLevel_AddOrder :: "nat \<Rightarrow> heap \<Rightarrow> PriceLevel \<Rightarrow> (heap \<times> PriceLevel) option" where
  "PriceLevel_AddOrder r h pl =
     map_option (\<lambda>(h1, pl1).
       (h1, pl1\<lparr>pl_TotalQty := int64 (pl_TotalQty pl1 + or_LeavesQty (h1 r)), pl_Count := int32 (pl_Count pl1 + 1)\<rparr>))
       (PriceLevel_link r h pl)"

definition PriceLevel_RemoveOrder :: "nat \<Rightarrow> heap \<Rightarrow> PriceLevel \<Rightarrow> heap \<times> PriceLevel \<times> bool" where
  "PriceLevel_RemoveOrder r h pl =
     (let (h1, pl1) = (case or_prev (h r) of
            Some p \<Rightarrow> (h(p := (h p)\<lparr>or_next := or_next (h r)\<rparr>), pl)
          | None \<Rightarrow> (h, pl\<lparr>pl_Orders := or_next (h r)\<rparr>));
          h2 = (case or_next (h1 r) of
            Some n \<Rightarrow> h1(n := (h1 n)\<lparr>or_prev := or_prev (h1 r)\<rparr>)
          | None \<Rightarrow> h1);
          pl2 = pl1\<lparr>pl_TotalQty := int64 (pl_TotalQty pl1 - or_LeavesQty (h2 r)), pl_Count := int32 (pl_Count pl1 - 1)\<rparr>
      in (h2(r := (h2 r)\<lparr>or_next := None, or_prev := None\<rparr>), pl2, pl_Orders pl2 = None))"

definition UpdateQuantity :: "int \<Rightarrow> PriceLevel \<Rightarrow> PriceLevel" where
  "UpdateQuantity qtyChange pl = pl\<lparr>pl_TotalQty := int64 (pl_TotalQty pl + qtyChange)\<rparr>"

definition PriceLevel_IsEmpty :: "PriceLevel \<Rightarrow> bool" where
  "PriceLevel_IsEmpty pl \<longleftrightarrow> pl_Orders pl = None"

definition GetBestOrder :: "PriceLevel \<Rightarrow> nat option" where
  "GetBestOrder pl = pl_Orders pl"

record OrderIterator =
  it_current :: "nat option"

definition Iterator :: "PriceLevel \<Rightarrow> OrderIterator" where
  "Iterator pl = \<lparr>it_current = pl_Orders pl\<rparr>"

definition Iterator_Next :: "heap \<Rightarrow> OrderIterator \<Rightarrow> nat option \<times> OrderIterator" where
  "Iterator_Next h it =
     (case it_current it of
        None \<Rightarrow> (None, it)
      | Some r \<Rightarrow> (Some r, it\<lparr>it_current := or_next (h r)\<rparr>))"

definition HasNext :: "OrderIterator \<Rightarrow> bool" where
  "HasNext it \<longleftrightarrow> it_current it \<noteq> None"

text \<open>A level as it comes from the pool, whatever object the pool hands out, and as it goes back.\<close>

definition PriceLevelPool_Get :: "int \<Rightarrow> PriceLevel \<Rightarrow> PriceLevel" where
  "PriceLevelPool_Get price pl =
     pl\<lparr>pl_Price := price, pl_TotalQty := 0, pl_Orders := None, pl_Count := 0, pl_next := None, pl_prev := None\<rparr>"

definition PriceLevelPool_Put :: "PriceLevel \<Rightarrow> PriceLevel" where
  "PriceLevelPool_Put pl =
     pl\<lparr>pl_Price := 0, pl_TotalQty := 0, pl_Orders := None, pl_Count := 0, pl_next := None, pl_prev := None\<rparr>"

subsection \<open>The book\<close>

datatype book_event = OnTrade Trade | OnOrderUpdate Order

record OrderBook =
  ob_Symbol :: string
  ob_SymbolID :: "32 word"
  ob_bestBid :: "int option"
  ob_bestAsk :: "int option"
  ob_bids :: "(int \<times> PriceLevel) list"
  ob_asks :: "(int \<times> PriceLevel) list"
  ob_orders :: "64 word \<rightharpoonup> nat"
  ob_totalTrades :: "64 word"
  ob_totalVolume :: int
  ob_lastTradePrice :: int
  ob_lastTradeTime :: int
  ob_sequence :: "64 word"
  ob_onTrade :: bool
  ob_onOrderUpdate :: bool
  ob_heap :: heap
  ob_pool :: PriceLevel
  ob_ticks :: nat
  ob_log :: "book_event list"

text \<open>\<open>ob_heap\<close>, \<open>ob_pool\<close> (the object the pool hands out next), \<open>ob_ticks\<close> (clock readings so far) and \<open>ob_log\<close> stand for what is
  outside the struct.\<close>

definition NewOrderBook :: "string \<Rightarrow> 32 word \<Rightarrow> heap \<Rightarrow> OrderBook" where
  "NewOrderBook symbol symbolID h =
     \<lparr>ob_Symbol = symbol, ob_SymbolID = symbolID, ob_bestBid = None, ob_bestAsk = None, ob_bids = [], ob_asks = [], ob_orders = Map.empty,
      ob_totalTrades = 0, ob_totalVolume = 0, ob_lastTradePrice = 0, ob_lastTradeTime = 0, ob_sequence = 0,
      ob_onTrade = False, ob_onOrderUpdate = False, ob_heap = h, ob_pool = NewPriceLevel 0, ob_ticks = 0, ob_log = []\<rparr>"

definition SetCallbacks :: "bool \<Rightarrow> bool \<Rightarrow> OrderBook \<Rightarrow> OrderBook" where
  "SetCallbacks onTrade onOrderUpdate ob = ob\<lparr>ob_onTrade := onTrade, ob_onOrderUpdate := onOrderUpdate\<rparr>"

text \<open>One side of the book: \<open>True\<close> for the bids. A level that is in neither map is one that went back to the pool.\<close>

definition levels :: "bool \<Rightarrow> OrderBook \<Rightarrow> (int \<times> PriceLevel) list" where
  "levels buy ob = (if buy then ob_bids ob else ob_asks ob)"

definition set_levels :: "bool \<Rightarrow> (int \<times> PriceLevel) list \<Rightarrow> OrderBook \<Rightarrow> OrderBook" where
  "set_levels buy ls ob = (if buy then ob\<lparr>ob_bids := ls\<rparr> else ob\<lparr>ob_asks := ls\<rparr>)"

definition best :: "bool \<Rightarrow> OrderBook \<Rightarrow> int option" where
  "best buy ob = (if buy then ob_bestBid ob else ob_bestAsk ob)"

definition level_at :: "bool \<Rightarrow> int \<Rightarrow> OrderBook \<Rightarrow> PriceLevel" where
  "level_at buy p ob = (case map_of (levels buy ob) p of Some pl \<Rightarrow> pl | None \<Rightarrow> PriceLevelPool_Put (NewPriceLevel p))"

definition set_level :: "bool \<Rightarrow> int \<Rightarrow> PriceLevel \<Rightarrow> OrderBook \<Rightarrow> OrderBook" where
  "set_level buy p pl ob = set_levels buy (AList.update p pl (levels buy ob)) ob"

definition notify :: "nat \<Rightarrow> OrderBook \<Rightarrow> OrderBook" where
  "notify r ob = (if ob_onOrderUpdate ob then ob\<lparr>ob_log := ob_log ob @ [OnOrderUpdate (Order_Clone (ob_heap ob r))]\<rparr> else ob)"

definition minInt64 :: "int \<Rightarrow> int \<Rightarrow> int" where
  "minInt64 a b = (if a < b then a else b)"

definition maxInt64 :: "int \<Rightarrow> int \<Rightarrow> int" where
  "maxInt64 a b = (if a > b then a else b)"

definition canMatchImmediately :: "OrderBook \<Rightarrow> Order \<Rightarrow> bool" where
  "canMatchImmediately ob order =
     (if IsBuy order then
        (case ob_bestAsk ob of
           None \<Rightarrow> False
         | Some p \<Rightarrow> IsMarket order \<or> or_Price order \<ge> pl_Price (level_at False p ob))
      else
        (case ob_bestBid ob of
           None \<Rightarrow> False
         | Some p \<Rightarrow> IsMarket order \<or> or_Price order \<le> pl_Price (level_at True p ob)))"

text \<open>The two scans: \<^verbatim>\<open>Range\<close> over the map with the best level so far.\<close>

fun scan_bids :: "(int \<times> PriceLevel) list \<Rightarrow> int \<Rightarrow> int option \<Rightarrow> int option" where
  "scan_bids [] maxPrice b = b"
| "scan_bids ((k, pl) # ls) maxPrice b =
     (if \<not> PriceLevel_IsEmpty pl \<and> pl_Price pl > maxPrice then scan_bids ls (pl_Price pl) (Some k) else scan_bids ls maxPrice b)"

fun scan_asks :: "(int \<times> PriceLevel) list \<Rightarrow> int \<Rightarrow> int option \<Rightarrow> int option" where
  "scan_asks [] minPrice b = b"
| "scan_asks ((k, pl) # ls) minPrice b =
     (if \<not> PriceLevel_IsEmpty pl \<and> pl_Price pl < minPrice then scan_asks ls (pl_Price pl) (Some k) else scan_asks ls minPrice b)"

definition updateBestBid :: "OrderBook \<Rightarrow> OrderBook" where
  "updateBestBid ob = ob\<lparr>ob_bestBid := scan_bids (ob_bids ob) 0 None\<rparr>"

definition updateBestAsk :: "OrderBook \<Rightarrow> OrderBook" where
  "updateBestAsk ob = ob\<lparr>ob_bestAsk := scan_asks (ob_asks ob) (2 ^ 63 - 1) None\<rparr>"

definition updateBestPrices :: "bool \<Rightarrow> int \<Rightarrow> OrderBook \<Rightarrow> OrderBook" where
  "updateBestPrices isBuy p ob =
     (let newLevel = level_at isBuy p ob in
      if isBuy then
        (case ob_bestBid ob of
           None \<Rightarrow> ob\<lparr>ob_bestBid := Some p\<rparr>
         | Some q \<Rightarrow> if pl_Price newLevel > pl_Price (level_at True q ob) then ob\<lparr>ob_bestBid := Some p\<rparr> else ob)
      else
        (case ob_bestAsk ob of
           None \<Rightarrow> ob\<lparr>ob_bestAsk := Some p\<rparr>
         | Some q \<Rightarrow> if pl_Price newLevel < pl_Price (level_at False q ob) then ob\<lparr>ob_bestAsk := Some p\<rparr> else ob))"

definition createTrade :: "int \<Rightarrow> Order \<Rightarrow> Order \<Rightarrow> int \<Rightarrow> int \<Rightarrow> OrderBook \<Rightarrow> Trade" where
  "createTrade now aggressor resting qty price ob =
     \<lparr>tr_BuyOrderID = (if IsBuy aggressor then or_ID aggressor else or_ID resting),
      tr_SellOrderID = (if IsBuy aggressor then or_ID resting else or_ID aggressor),
      tr_Symbol = ob_Symbol ob, tr_Price = price, tr_Quantity = qty, tr_Timestamp = now\<rparr>"

definition addToBook :: "nat \<Rightarrow> OrderBook \<Rightarrow> OrderBook option" where
  "addToBook r ob =
     (let order = ob_heap ob r; buy = IsBuy order; p = or_Price order;
          priceLevel = (case map_of (levels buy ob) p of Some pl \<Rightarrow> pl | None \<Rightarrow> PriceLevelPool_Get p (ob_pool ob))
      in map_option (\<lambda>(h, pl). updateBestPrices buy p (set_level buy p pl (ob\<lparr>ob_heap := h\<rparr>)))
           (PriceLevel_AddOrder r (ob_heap ob) priceLevel))"

definition removeFromBook :: "nat \<Rightarrow> OrderBook \<Rightarrow> OrderBook" where
  "removeFromBook r ob =
     (let order = ob_heap ob r; buy = IsBuy order; p = or_Price order in
      case map_of (levels buy ob) p of
        None \<Rightarrow> ob
      | Some priceLevel \<Rightarrow>
          (case PriceLevel_RemoveOrder r (ob_heap ob) priceLevel of
             (h, pl, isEmpty) \<Rightarrow>
               let ob1 = ob\<lparr>ob_heap := h\<rparr> in
               if isEmpty then
                 let ob2 = (set_levels buy (AList.delete p (levels buy ob1)) ob1)\<lparr>ob_pool := PriceLevelPool_Put pl\<rparr>
                 in if buy then updateBestBid ob2 else updateBestAsk ob2
               else set_level buy p pl ob1))"

text \<open>The result says whether the code panicked.\<close>

definition removeEmptyPriceLevel :: "bool \<Rightarrow> int \<Rightarrow> OrderBook \<Rightarrow> OrderBook \<times> bool" where
  "removeEmptyPriceLevel side p ob =
     (let pl = level_at side p ob in
      case pl_Orders pl of
        None \<Rightarrow> (ob, True)
      | Some r \<Rightarrow>
          ((if IsBuy (ob_heap ob r)
            then updateBestBid (ob\<lparr>ob_bids := AList.delete (pl_Price pl) (ob_bids ob)\<rparr>)
            else updateBestAsk (ob\<lparr>ob_asks := AList.delete (pl_Price pl) (ob_asks ob)\<rparr>))\<lparr>ob_pool := PriceLevelPool_Put pl\<rparr>, False))"

subsection \<open>Matching\<close>

text \<open>One iteration of the inner loop of \<^verbatim>\<open>matchOrder\<close>: the fills, the level's quantity, the trade, the metrics, the removal of a
  filled resting order.\<close>

definition match_fills :: "(nat \<Rightarrow> int) \<Rightarrow> nat \<Rightarrow> nat \<Rightarrow> int \<Rightarrow> int \<Rightarrow> OrderBook \<Rightarrow> OrderBook" where
  "match_fills clk order resting matchQty matchPrice ob =
     (let h = ob_heap ob; t = ob_ticks ob;
          h1 = h(order := fst (Order_Fill (clk t) matchQty matchPrice (h order)));
          h2 = h1(resting := fst (Order_Fill (clk (t + 1)) matchQty matchPrice (h1 resting)))
      in ob\<lparr>ob_heap := h2, ob_ticks := t + 2\<rparr>)"

definition match_trade :: "(nat \<Rightarrow> int) \<Rightarrow> nat \<Rightarrow> nat \<Rightarrow> int \<Rightarrow> int \<Rightarrow> OrderBook \<Rightarrow> OrderBook" where
  "match_trade clk order resting matchQty matchPrice ob =
     (let t = ob_ticks ob;
          trade = createTrade (clk t) (ob_heap ob order) (ob_heap ob resting) matchQty matchPrice ob
      in ob\<lparr>ob_ticks := t + 2, ob_totalTrades := ob_totalTrades ob + 1, ob_totalVolume := int64 (ob_totalVolume ob + matchQty),
            ob_lastTradePrice := matchPrice, ob_lastTradeTime := clk (t + 1),
            ob_log := ob_log ob @ (if ob_onTrade ob then [OnTrade trade] else [])\<rparr>)"

definition match_remove :: "bool \<Rightarrow> int \<Rightarrow> nat \<Rightarrow> OrderBook \<Rightarrow> OrderBook" where
  "match_remove side p resting ob =
     (if or_LeavesQty (ob_heap ob resting) = 0 then
        (case PriceLevel_RemoveOrder resting (ob_heap ob) (level_at side p ob) of
           (h, pl, _) \<Rightarrow>
             notify resting (set_level side p pl (ob\<lparr>ob_heap := h, ob_orders := (ob_orders ob)(or_ID (h resting) := None)\<rparr>)))
      else ob)"

definition match_one :: "(nat \<Rightarrow> int) \<Rightarrow> nat \<Rightarrow> bool \<Rightarrow> int \<Rightarrow> nat \<Rightarrow> OrderBook \<Rightarrow> OrderBook" where
  "match_one clk order side p resting ob =
     (let matchQty = minInt64 (or_LeavesQty (ob_heap ob order)) (or_LeavesQty (ob_heap ob resting));
          matchPrice = or_Price (ob_heap ob resting);
          ob1 = match_fills clk order resting matchQty matchPrice ob;
          ob2 = set_level side p (UpdateQuantity (- matchQty) (level_at side p ob1)) ob1;
          ob3 = match_trade clk order resting matchQty matchPrice ob2
      in notify order (match_remove side p resting ob3))"

partial_function (option) match_level ::
  "(nat \<Rightarrow> int) \<Rightarrow> nat \<Rightarrow> bool \<Rightarrow> int \<Rightarrow> OrderIterator \<Rightarrow> OrderBook \<Rightarrow> OrderBook option" where
  "match_level clk order side p iterator ob =
     (if HasNext iterator \<and> or_LeavesQty (ob_heap ob order) > 0 then
        (case Iterator_Next (ob_heap ob) iterator of
           (None, _) \<Rightarrow> Some ob
         | (Some resting, iterator1) \<Rightarrow> match_level clk order side p iterator1 (match_one clk order side p resting ob))
      else Some ob)"

partial_function (option) match_loop ::
  "(nat \<Rightarrow> int) \<Rightarrow> nat \<Rightarrow> int option \<Rightarrow> OrderBook \<Rightarrow> (OrderBook \<times> bool) option" where
  "match_loop clk order oppositeSide ob =
     (case oppositeSide of
        None \<Rightarrow> Some (ob, False)
      | Some p \<Rightarrow>
          let o1 = ob_heap ob order; side = \<not> IsBuy o1; pl = level_at side p ob in
          if or_LeavesQty o1 \<le> 0 then Some (ob, False)
          else if \<not> IsMarket o1 \<and> pl_Orders pl = None then Some (ob, True)
          else if \<not> IsMarket o1 \<and>
            \<not> CanMatch o1 (zero_Order\<lparr>or_Price := pl_Price pl, or_Side := or_Side (ob_heap ob (the (pl_Orders pl)))\<rparr>)
          then Some (ob, False)
          else Option.bind (match_level clk order side p (Iterator pl) ob) (\<lambda>ob1.
            if PriceLevel_IsEmpty (level_at side p ob1) then
              (case removeEmptyPriceLevel side p ob1 of
                 (ob2, panicked) \<Rightarrow> if panicked then Some (ob2, True) else match_loop clk order (best side ob2) ob2)
            else Some (ob1, False)))"

definition matchOrder :: "(nat \<Rightarrow> int) \<Rightarrow> nat \<Rightarrow> OrderBook \<Rightarrow> (OrderBook \<times> bool) option" where
  "matchOrder clk order ob =
     map_option (\<lambda>(ob1, panicked).
       if panicked then (ob1, True)
       else
         (let o1 = ob_heap ob1 order;
              o2 = (if or_TimeInForce o1 = TIFIOC \<and> or_LeavesQty o1 > 0 then o1\<lparr>or_Status := StatusCanceled\<rparr> else o1);
              o3 = (if or_TimeInForce o2 = TIFFOK \<and> or_FilledQty o2 < or_Quantity o2 then o2\<lparr>or_Status := StatusCanceled\<rparr> else o2)
          in (ob1\<lparr>ob_heap := (ob_heap ob1)(order := o3)\<rparr>, False)))
       (match_loop clk order (best (\<not> IsBuy (ob_heap ob order)) ob) ob)"

subsection \<open>The operations of the book\<close>

datatype book_result = Returned "string option" | Panicked

definition accept_order :: "(nat \<Rightarrow> int) \<Rightarrow> nat \<Rightarrow> OrderBook \<Rightarrow> OrderBook" where
  "accept_order clk r ob =
     (let sequence = ob_sequence ob + 1; o1 = ob_heap ob r;
          o2 = o1\<lparr>or_Status := StatusNew, or_LeavesQty := or_Quantity o1, or_FilledQty := 0,
                  or_Timestamp := clk (ob_ticks ob), or_ID := sequence\<rparr>
      in ob\<lparr>ob_heap := (ob_heap ob)(r := o2), ob_ticks := ob_ticks ob + 1, ob_sequence := sequence,
            ob_orders := (ob_orders ob)(sequence \<mapsto> r)\<rparr>)"

definition OrderBook_AddOrder :: "(nat \<Rightarrow> int) \<Rightarrow> nat option \<Rightarrow> OrderBook \<Rightarrow> (OrderBook \<times> book_result) option" where
  "OrderBook_AddOrder clk ptr ob =
     (case ptr of
        None \<Rightarrow> Some (ob, Returned (Some ''nil order''))
      | Some r \<Rightarrow>
          if or_Quantity (ob_heap ob r) \<le> 0 then Some (ob, Returned (Some ''invalid quantity''))
          else
            (let ob1 = accept_order clk r ob in
             Option.bind
               (if IsMarket (ob_heap ob1 r) \<or> canMatchImmediately ob1 (ob_heap ob1 r) then matchOrder clk r ob1 else Some (ob1, False))
               (\<lambda>(ob2, panicked).
                 if panicked then Some (ob2, Panicked)
                 else
                   map_option (\<lambda>ob3. (notify r ob3, Returned None))
                     (if or_LeavesQty (ob_heap ob2 r) > 0 \<and> or_Type (ob_heap ob2 r) = OrderTypeLimit then addToBook r ob2
                      else Some ob2))))"

definition CancelOrder :: "64 word \<Rightarrow> OrderBook \<Rightarrow> OrderBook \<times> string option" where
  "CancelOrder orderID ob =
     (case ob_orders ob orderID of
        None \<Rightarrow> (ob, Some ''order not found'')
      | Some r \<Rightarrow>
          let ob1 = removeFromBook r ob;
              ob2 = ob1\<lparr>ob_heap := (ob_heap ob1)(r := (ob_heap ob1 r)\<lparr>or_Status := StatusCanceled\<rparr>),
                        ob_orders := (ob_orders ob1)(orderID := None)\<rparr>
          in (notify r ob2, None))"

definition GetBBO :: "OrderBook \<Rightarrow> int \<times> int \<times> int \<times> int" where
  "GetBBO ob =
     (let bid = (case ob_bestBid ob of None \<Rightarrow> (0, 0) | Some p \<Rightarrow> (pl_Price (level_at True p ob), pl_TotalQty (level_at True p ob)));
          ask = (case ob_bestAsk ob of None \<Rightarrow> (0, 0) | Some p \<Rightarrow> (pl_Price (level_at False p ob), pl_TotalQty (level_at False p ob)))
      in (fst bid, snd bid, fst ask, snd ask))"

primrec depth_from :: "bool \<Rightarrow> OrderBook \<Rightarrow> int option \<Rightarrow> nat \<Rightarrow> (int \<times> int) list" where
  "depth_from buy ob current 0 = []"
| "depth_from buy ob current (Suc n) =
     (case current of
        None \<Rightarrow> []
      | Some p \<Rightarrow>
          let pl = level_at buy p ob
          in (pl_Price pl, pl_TotalQty pl) # depth_from buy ob (if buy then pl_prev pl else pl_next pl) n)"

definition GetDepth :: "int \<Rightarrow> OrderBook \<Rightarrow> (int \<times> int) list \<times> (int \<times> int) list" where
  "GetDepth lvls ob = (depth_from True ob (ob_bestBid ob) (nat lvls), depth_from False ob (ob_bestAsk ob) (nat lvls))"

record OrderBookMetrics =
  om_Symbol :: string
  om_BidPrice :: int
  om_BidQty :: int
  om_AskPrice :: int
  om_AskQty :: int
  om_Spread :: int
  om_TotalTrades :: "64 word"
  om_TotalVolume :: int
  om_LastTradePrice :: int
  om_LastTradeTime :: int

definition OrderBook_Metrics :: "OrderBook \<Rightarrow> OrderBookMetrics" where
  "OrderBook_Metrics ob =
     (case GetBBO ob of
        (bidPrice, bidQty, askPrice, askQty) \<Rightarrow>
          \<lparr>om_Symbol = ob_Symbol ob, om_BidPrice = bidPrice, om_BidQty = bidQty, om_AskPrice = askPrice, om_AskQty = askQty,
           om_Spread = int64 (askPrice - bidPrice), om_TotalTrades = ob_totalTrades ob, om_TotalVolume = ob_totalVolume ob,
           om_LastTradePrice = ob_lastTradePrice ob, om_LastTradeTime = ob_lastTradeTime ob\<rparr>)"

end
