(* ===== verification/MatchingLevels.thy ===== *)
theory MatchingLevels
  imports Matching
begin

text \<open>
  The relation between an order book and its specification. The specification keeps one queue of open orders per side and price; the
  relation says that every level is a doubly linked list of exactly the orders of its queue, with the right count and total, that the
  best prices are the extreme ones, that the sides do not cross and that the map of orders knows the resting ones. The lemmas follow
  the code from the list operations over one match to the matching of a whole level.
\<close>

subsection \<open>Arithmetic\<close>

lemma wrap_add_left: "int64 (b + int64 a) = int64 (b + a)" "int32 (b + int32 a) = int32 (b + a)"
  by (simp_all add: add.commute [of b])

subsection \<open>Linked lists\<close>

text \<open>\<open>dseg h p c rs l n\<close>: from \<open>c\<close>, whose predecessor is \<open>p\<close>, the links lead through \<open>rs\<close> to \<open>n\<close>, whose predecessor is \<open>l\<close>.\<close>

fun dseg :: "heap \<Rightarrow> nat option \<Rightarrow> nat option \<Rightarrow> nat list \<Rightarrow> nat option \<Rightarrow> nat option \<Rightarrow> bool" where
  "dseg h p c [] l n \<longleftrightarrow> c = n \<and> p = l"
| "dseg h p c (r # rs) l n \<longleftrightarrow> c = Some r \<and> or_prev (h r) = p \<and> dseg h (Some r) (or_next (h r)) rs l n"

abbreviation dll :: "heap \<Rightarrow> nat option \<Rightarrow> nat list \<Rightarrow> bool" where
  "dll h c rs \<equiv> dseg h None c rs (if rs = [] then None else Some (last rs)) None"

lemma dseg_append: "dseg h p c (as @ bs) l n \<longleftrightarrow> (\<exists>m k. dseg h p c as m k \<and> dseg h m k bs l n)"
  by (induction as arbitrary: p c) auto

lemma dseg_last: "dseg h p c (as @ [a]) l n \<Longrightarrow> l = Some a"
  by (auto simp: dseg_append)

lemma dseg_cong:
  assumes "\<And>r. r \<in> set rs \<Longrightarrow> or_next (h' r) = or_next (h r) \<and> or_prev (h' r) = or_prev (h r)"
  shows "dseg h' p c rs l n = dseg h p c rs l n"
  using assms by (induction rs arbitrary: p c) auto

lemma dseg_upd [simp]: "r \<notin> set rs \<Longrightarrow> dseg (h(r := x)) p c rs l n = dseg h p c rs l n"
  by (rule dseg_cong) auto

lemma dseg_relink_last:
  assumes "dseg h p c (as @ [a]) l n" "a \<notin> set as"
  shows "dseg (h(a := (h a)\<lparr>or_next := n'\<rparr>)) p c (as @ [a]) l n'"
  using assms by (induction as arbitrary: p c) auto

lemma dseg_relink_head:
  assumes "dseg h p (Some b) (b # bs) l n" "b \<notin> set bs"
  shows "dseg (h(b := (h b)\<lparr>or_prev := p'\<rparr>)) p' (Some b) (b # bs) l n"
  using assms by simp

lemma list_tail_dseg: "dseg h p (Some r) (rs @ [a]) l None \<Longrightarrow> list_tail h r = Some a"
proof (induction rs arbitrary: p r)
  case Nil
  then show ?case by (subst list_tail.simps) auto
next
  case (Cons b rs)
  obtain m where m: "or_next (h r) = Some m" using Cons.prems by (cases rs) auto
  then have "list_tail h m = Some a" using Cons.IH [of "Some r" m] Cons.prems by simp
  with m show ?case by (subst list_tail.simps) simp
qed

text \<open>What the links do not touch.\<close>

definition same_data :: "heap \<Rightarrow> heap \<Rightarrow> bool" where
  "same_data h h' \<longleftrightarrow> (\<forall>r. Order_Clone (h' r) = Order_Clone (h r))"

lemma Order_Clone_eq:
  "Order_Clone a = Order_Clone b \<longleftrightarrow>
     or_ID a = or_ID b \<and> or_Symbol a = or_Symbol b \<and> or_SymbolID a = or_SymbolID b \<and> or_Side a = or_Side b \<and> or_Type a = or_Type b \<and>
     or_Price a = or_Price b \<and> or_Quantity a = or_Quantity b \<and> or_FilledQty a = or_FilledQty b \<and> or_LeavesQty a = or_LeavesQty b \<and>
     or_Status a = or_Status b \<and> or_TimeInForce a = or_TimeInForce b \<and> or_Timestamp a = or_Timestamp b \<and>
     or_ClientOrderID a = or_ClientOrderID b"
  by (simp add: Order_Clone_def)

lemma Order_Clone_links [simp]:
  "Order_Clone (a\<lparr>or_next := x\<rparr>) = Order_Clone a" "Order_Clone (a\<lparr>or_prev := x\<rparr>) = Order_Clone a"
  by (simp_all add: Order_Clone_def)

lemma same_dataD:
  assumes "same_data h h'"
  shows "or_ID (h' r) = or_ID (h r)" "or_Side (h' r) = or_Side (h r)" "or_Type (h' r) = or_Type (h r)" "or_Price (h' r) = or_Price (h r)"
    "or_Quantity (h' r) = or_Quantity (h r)" "or_FilledQty (h' r) = or_FilledQty (h r)" "or_LeavesQty (h' r) = or_LeavesQty (h r)"
  using assms by (simp_all add: same_data_def Order_Clone_eq)

text \<open>Appending to a level's list and removing from it.\<close>

lemma link_dll:
  assumes "dll h (pl_Orders pl) rs" "distinct rs" "r \<notin> set rs"
  obtains h' c where "PriceLevel_link r h pl = Some (h', pl\<lparr>pl_Orders := c\<rparr>)" "dll h' c (rs @ [r])" "same_data h h'"
    "\<forall>x. x \<notin> insert r (set rs) \<longrightarrow> h' x = h x"
proof (cases rs rule: rev_exhaust)
  case Nil
  then show ?thesis
    using assms that [of "h(r := (h r)\<lparr>or_next := None, or_prev := None\<rparr>)" "Some r"]
    by (simp add: PriceLevel_link_def same_data_def)
next
  case (snoc as a)
  then obtain c where c: "pl_Orders pl = Some c" using assms(1) by (cases as) auto
  have tail: "list_tail h c = Some a"
    using list_tail_dseg [of h None c as a] assms(1) snoc c by simp
  let ?h1 = "h(a := (h a)\<lparr>or_next := Some r\<rparr>)"
  let ?h2 = "?h1(r := (?h1 r)\<lparr>or_prev := Some a, or_next := None\<rparr>)"
  have "dseg ?h1 None (Some c) (as @ [a]) (Some a) (Some r)"
    using dseg_relink_last [of h None "Some c" as a "Some a" None "Some r"] assms(1,2) snoc c by simp
  then have "dseg ?h2 None (Some c) (as @ [a]) (Some a) (Some r)"
    using assms(3) snoc by simp
  then have "dll ?h2 (pl_Orders pl) (rs @ [r])"
    using snoc c dseg_append [of ?h2 None "Some c" "as @ [a]" "[r]"] by auto
  moreover have "PriceLevel_link r h pl = Some (?h2, pl)"
    using c tail by (simp add: PriceLevel_link_def Let_def)
  moreover have "same_data h ?h2" by (simp add: same_data_def)
  ultimately show ?thesis using that [of ?h2 "pl_Orders pl"] snoc assms(3) by simp
qed

lemma unlink_dll:
  assumes "dll h (pl_Orders pl) (as @ r # bs)" "distinct (as @ r # bs)"
  obtains h' c where
    "PriceLevel_RemoveOrder r h pl =
       (h', pl\<lparr>pl_Orders := c, pl_TotalQty := int64 (pl_TotalQty pl - or_LeavesQty (h r)), pl_Count := int32 (pl_Count pl - 1)\<rparr>,
        as @ bs = [])"
    "dll h' c (as @ bs)" "same_data h h'"
    "\<forall>x. x \<notin> set (as @ r # bs) \<longrightarrow> h' x = h x"
proof -
  obtain m k where seg: "dseg h None (pl_Orders pl) as m (Some r)" "or_prev (h r) = m" "or_next (h r) = k"
    "dseg h (Some r) k bs (Some (last (r # bs))) None"
    using assms(1) by (auto simp: dseg_append)
  define h1 where "h1 = (case m of Some p \<Rightarrow> h(p := (h p)\<lparr>or_next := k\<rparr>) | None \<Rightarrow> h)"
  define pl1 where "pl1 = (case m of Some p \<Rightarrow> pl | None \<Rightarrow> pl\<lparr>pl_Orders := k\<rparr>)"
  define h2 where "h2 = (case k of Some n \<Rightarrow> h1(n := (h1 n)\<lparr>or_prev := m\<rparr>) | None \<Rightarrow> h1)"
  define h3 where "h3 = h2(r := (h2 r)\<lparr>or_next := None, or_prev := None\<rparr>)"
  have as: "as = [] \<and> m = None \<and> pl_Orders pl = Some r \<or> (\<exists>as' a. as = as' @ [a] \<and> m = Some a)"
    using seg(1) by (cases as rule: rev_exhaust) (auto dest: dseg_last)
  have bs: "bs = [] \<and> k = None \<or> (\<exists>b bs'. bs = b # bs' \<and> k = Some b)"
    using seg(4) by (cases bs) auto
  have h1: "dseg h1 None (pl_Orders pl1) as m k"
    using as
  proof (elim disjE exE conjE)
    fix as' a assume "as = as' @ [a]" "m = Some a"
    then show ?thesis using dseg_relink_last [of h None "pl_Orders pl" as' a "Some a" "Some r" k] seg(1) assms(2)
      by (simp add: h1_def pl1_def)
  qed (simp add: h1_def pl1_def)
  have same: "same_data h h3" "\<And>x. x \<notin> set (as @ r # bs) \<Longrightarrow> h3 x = h x"
  proof -
    have "Order_Clone (h1 x) = Order_Clone (h x)" "Order_Clone (h2 x) = Order_Clone (h1 x)" "Order_Clone (h3 x) = Order_Clone (h2 x)" for x
      by (simp_all add: h1_def h2_def h3_def split: option.split)
    then show "same_data h h3" by (simp add: same_data_def)
    show "h3 x = h x" if "x \<notin> set (as @ r # bs)" for x
      using as bs that by (elim disjE exE conjE) (simp_all add: h1_def h2_def h3_def)
  qed
  have r1: "h1 r = h r" "or_LeavesQty (h2 r) = or_LeavesQty (h r)"
    using as bs assms(2) by (elim disjE exE conjE; simp add: h1_def h2_def)+
  have rem: "PriceLevel_RemoveOrder r h pl =
      (h3, pl1\<lparr>pl_TotalQty := int64 (pl_TotalQty pl - or_LeavesQty (h r)), pl_Count := int32 (pl_Count pl - 1)\<rparr>, pl_Orders pl1 = None)"
  proof -
    have "(case or_prev (h r) of Some p \<Rightarrow> (h(p := (h p)\<lparr>or_next := or_next (h r)\<rparr>), pl)
        | None \<Rightarrow> (h, pl\<lparr>pl_Orders := or_next (h r)\<rparr>)) = (h1, pl1)"
      using seg(2,3) by (simp add: h1_def pl1_def split: option.split)
    moreover have "(case or_next (h1 r) of Some n \<Rightarrow> h1(n := (h1 n)\<lparr>or_prev := or_prev (h1 r)\<rparr>) | None \<Rightarrow> h1) = h2"
      using seg(2,3) r1(1) by (simp add: h2_def split: option.split)
    moreover have "pl_TotalQty pl1 = pl_TotalQty pl" "pl_Count pl1 = pl_Count pl"
      by (simp_all add: pl1_def split: option.split)
    ultimately show ?thesis
      by (simp add: PriceLevel_RemoveOrder_def h3_def r1(2))
  qed
  have "dseg h2 None (pl_Orders pl1) as m k \<and> dseg h2 m k bs (if as @ bs = [] then None else Some (last (as @ bs))) None"
    using bs
  proof (elim disjE exE conjE)
    assume "bs = []" "k = None"
    then show ?thesis using h1 as by (auto simp: h2_def)
  next
    fix b bs' assume b: "bs = b # bs'" "k = Some b"
    have "dseg h1 (Some r) (Some b) (b # bs') (Some (last bs)) None"
      using seg(4) as assms(2) b by (elim disjE exE conjE) (simp_all add: h1_def)
    from dseg_relink_head [OF this, of m] show ?thesis
      using h1 assms(2) b by (simp add: h2_def)
  qed
  then have "dll h3 (pl_Orders pl1) (as @ bs)"
    using assms(2) by (auto simp: h3_def dseg_append)
  moreover from this have "pl_Orders pl1 = None \<longleftrightarrow> as @ bs = []" by (cases "as @ bs") auto
  moreover have "\<exists>c. pl1 = pl\<lparr>pl_Orders := c\<rparr>" by (rule exI [of _ "pl_Orders pl1"]) (simp add: pl1_def split: option.splits)
  then obtain c where "pl1 = pl\<lparr>pl_Orders := c\<rparr>" ..
  ultimately show ?thesis using that [of h3 c] rem same by simp
qed
subsection \<open>Specification: queues of open orders\<close>

text \<open>
  The specification keeps, for each side and price, the queue of the resting orders with their open quantities, oldest first. An
  incoming order takes from the queue of the best opposite price in that order.
\<close>

type_synonym spec_book = "bool \<Rightarrow> int \<Rightarrow> (nat \<times> int) list"

definition put_queue :: "bool \<Rightarrow> int \<Rightarrow> (nat \<times> int) list \<Rightarrow> spec_book \<Rightarrow> spec_book" where
  "put_queue side p xs B = B(side := (B side)(p := xs))"

fun fifo_fill :: "int \<Rightarrow> (nat \<times> int) list \<Rightarrow> (nat \<times> int) list \<times> (nat \<times> int) list" where
  "fifo_fill q [] = ([], [])"
| "fifo_fill q ((r, l) # xs) =
     (if q \<le> 0 then ([], (r, l) # xs)
      else if q < l then ([(r, q)], (r, l - q) # xs)
      else (let (ts, rest) = fifo_fill (q - l) xs in ((r, l) # ts, rest)))"

definition is_best :: "bool \<Rightarrow> spec_book \<Rightarrow> int \<Rightarrow> bool" where
  "is_best side B p \<longleftrightarrow> B side p \<noteq> [] \<and> (\<forall>q. B side q \<noteq> [] \<longrightarrow> (if side then q \<le> p else p \<le> q))"

definition crosses :: "Order \<Rightarrow> int \<Rightarrow> bool" where
  "crosses order p \<longleftrightarrow> IsMarket order \<or> (if IsBuy order then p \<le> or_Price order else or_Price order \<le> p)"

inductive spec_add :: "spec_book \<Rightarrow> nat \<Rightarrow> Order \<Rightarrow> spec_book \<Rightarrow> (nat \<times> int) list \<Rightarrow> bool" where
  rests: "\<lbrakk>\<And>p. is_best (\<not> IsBuy order) B p \<Longrightarrow> \<not> crosses order p; IsLimit order\<rbrakk> \<Longrightarrow>
     spec_add B r order
       (put_queue (IsBuy order) (or_Price order) (B (IsBuy order) (or_Price order) @ [(r, or_Quantity order)]) B) []"
| not_kept: "\<lbrakk>\<And>p. is_best (\<not> IsBuy order) B p \<Longrightarrow> \<not> crosses order p; \<not> IsLimit order\<rbrakk> \<Longrightarrow> spec_add B r order B []"
| takes: "\<lbrakk>is_best (\<not> IsBuy order) B p; crosses order p;
     fifo_fill (or_Quantity order) (B (\<not> IsBuy order) p) = (ts, rest); rest \<noteq> []\<rbrakk> \<Longrightarrow>
     spec_add B r order (put_queue (\<not> IsBuy order) p rest B) ts"

definition spec_cancel :: "nat \<Rightarrow> spec_book \<Rightarrow> spec_book" where
  "spec_cancel r B = (\<lambda>side p. filter (\<lambda>x. fst x \<noteq> r) (B side p))"

subsection \<open>The relation between a book and its queues\<close>

definition order_ok :: "Order \<Rightarrow> int \<Rightarrow> bool" where
  "order_ok o1 l \<longleftrightarrow> or_LeavesQty o1 = l \<and> 0 \<le> or_FilledQty o1 \<and> or_FilledQty o1 + l = or_Quantity o1 \<and> or_Quantity o1 < 2 ^ 63"

definition entry_ok :: "Order \<Rightarrow> bool \<Rightarrow> int \<Rightarrow> int \<Rightarrow> bool" where
  "entry_ok o1 side p l \<longleftrightarrow> order_ok o1 l \<and> 0 < l \<and> or_Price o1 = p \<and> IsBuy o1 = side \<and> IsLimit o1"

definition level_links :: "heap \<Rightarrow> int \<Rightarrow> PriceLevel \<Rightarrow> nat list \<Rightarrow> bool" where
  "level_links h p pl rs \<longleftrightarrow>
     pl_Price pl = p \<and> pl_next pl = None \<and> pl_prev pl = None \<and> pl_Count pl = int32 (int (length rs)) \<and>
     distinct rs \<and> dll h (pl_Orders pl) rs"

definition level_ok :: "heap \<Rightarrow> bool \<Rightarrow> int \<Rightarrow> PriceLevel \<Rightarrow> (nat \<times> int) list \<Rightarrow> bool" where
  "level_ok h side p pl xs \<longleftrightarrow>
     level_links h p pl (map fst xs) \<and> pl_TotalQty pl = int64 (sum_list (map snd xs)) \<and>
     (\<forall>x \<in> set xs. entry_ok (h (fst x)) side p (snd x))"

text \<open>The prices of a side, and the conditions on them: the best price is the extreme one and the sides do not cross.\<close>

definition keys :: "bool \<Rightarrow> OrderBook \<Rightarrow> int list" where
  "keys side ob = map fst (levels side ob)"

definition best_ok :: "bool \<Rightarrow> int option \<Rightarrow> int set \<Rightarrow> bool" where
  "best_ok side b P \<longleftrightarrow> (case b of None \<Rightarrow> P = {} | Some p \<Rightarrow> p \<in> P \<and> (\<forall>q \<in> P. if side then q \<le> p else p \<le> q))"

definition keys_ok :: "OrderBook \<Rightarrow> bool" where
  "keys_ok ob \<longleftrightarrow>
     (\<forall>side. distinct (keys side ob) \<and> best_ok side (best side ob) (set (keys side ob)) \<and> (\<forall>p \<in> set (keys side ob). 0 < p \<and> p < 2 ^ 63 - 1)) \<and>
     (\<forall>p \<in> set (keys True ob). \<forall>q \<in> set (keys False ob). p < q)"

definition levels_ok :: "OrderBook \<Rightarrow> spec_book \<Rightarrow> bool" where
  "levels_ok ob B \<longleftrightarrow>
     (\<forall>side p. case map_of (levels side ob) p of
        None \<Rightarrow> B side p = []
      | Some pl \<Rightarrow> level_ok (ob_heap ob) side p pl (B side p))"

definition resting :: "spec_book \<Rightarrow> nat \<Rightarrow> bool" where
  "resting B r \<longleftrightarrow> (\<exists>side p. r \<in> fst ` set (B side p))"

text \<open>\<open>X\<close> are orders that the map knows but that need not rest in a level: the order being added.\<close>

definition orders_ok :: "nat set \<Rightarrow> OrderBook \<Rightarrow> spec_book \<Rightarrow> bool" where
  "orders_ok X ob B \<longleftrightarrow>
     (\<forall>r. resting B r \<longrightarrow> ob_orders ob (or_ID (ob_heap ob r)) = Some r) \<and>
     (\<forall>i r. ob_orders ob i = Some r \<longrightarrow> or_ID (ob_heap ob r) = i \<and> i \<le> ob_sequence ob \<and>
        (r \<notin> X \<and> IsLimit (ob_heap ob r) \<and> 0 < or_LeavesQty (ob_heap ob r) \<longrightarrow> resting B r))"

definition book_inv :: "nat set \<Rightarrow> OrderBook \<Rightarrow> spec_book \<Rightarrow> bool" where
  "book_inv X ob B \<longleftrightarrow> keys_ok ob \<and> levels_ok ob B \<and> orders_ok X ob B"

definition book_rel :: "OrderBook \<Rightarrow> spec_book \<Rightarrow> bool" where
  "book_rel ob B \<longleftrightarrow> book_inv {} ob B \<and> (\<forall>side. \<forall>p \<in> set (keys side ob). B side p \<noteq> [])"

lemma entry_ok_data: "Order_Clone a = Order_Clone b \<Longrightarrow> entry_ok a side p l = entry_ok b side p l"
  by (simp add: entry_ok_def order_ok_def IsBuy_def IsLimit_def Order_Clone_eq)

lemma level_links_cong:
  assumes "\<And>r. r \<in> set rs \<Longrightarrow> or_next (h' r) = or_next (h r) \<and> or_prev (h' r) = or_prev (h r)"
  shows "level_links h' p pl rs = level_links h p pl rs"
  using dseg_cong [of rs h' h] assms by (simp add: level_links_def)

lemma level_ok_cong:
  assumes "\<And>r. r \<in> fst ` set xs \<Longrightarrow> h' r = h r"
  shows "level_ok h' side p pl xs = level_ok h side p pl xs"
  using level_links_cong [of "map fst xs" h' h] assms by (simp add: level_ok_def)

lemma level_ok_add:
  assumes "level_ok h side p pl xs" "r \<notin> fst ` set xs" "entry_ok (h r) side p l"
  obtains h' pl' where "PriceLevel_AddOrder r h pl = Some (h', pl')" "level_ok h' side p pl' (xs @ [(r, l)])" "same_data h h'"
    "\<forall>x. x \<notin> insert r (fst ` set xs) \<longrightarrow> h' x = h x"
proof -
  have lv: "dll h (pl_Orders pl) (map fst xs)" "distinct (map fst xs)" "r \<notin> set (map fst xs)"
      "pl_Price pl = p \<and> pl_next pl = None \<and> pl_prev pl = None" "pl_Count pl = int32 (int (length xs))"
      "pl_TotalQty pl = int64 (sum_list (map snd xs))" "\<forall>x \<in> set xs. entry_ok (h (fst x)) side p (snd x)"
    using assms(1,2) by (simp_all add: level_ok_def level_links_def)
  obtain h' c where link: "PriceLevel_link r h pl = Some (h', pl\<lparr>pl_Orders := c\<rparr>)" "dll h' c (map fst xs @ [r])" "same_data h h'"
      "\<forall>x. x \<notin> insert r (set (map fst xs)) \<longrightarrow> h' x = h x"
    by (rule link_dll [OF lv(1-3)])
  let ?pl = "pl\<lparr>pl_Orders := c, pl_TotalQty := int64 (pl_TotalQty pl + or_LeavesQty (h' r)), pl_Count := int32 (pl_Count pl + 1)\<rparr>"
  have data: "entry_ok (h' x) side p k = entry_ok (h x) side p k" for x k
    by (rule entry_ok_data) (use link(3) in \<open>simp add: same_data_def\<close>)
  have "entry_ok (h' r) side p l" using assms(3) data by simp
  then have "or_LeavesQty (h' r) = l" by (simp add: entry_ok_def order_ok_def)
  then have "level_ok h' side p ?pl (xs @ [(r, l)])"
    unfolding level_ok_def level_links_def using link(2) lv(2-7) assms(3)
    by (simp add: data) (simp add: add.commute [of 1] int32_add)
  then show ?thesis
    using that [of h' ?pl] link by (simp add: PriceLevel_AddOrder_def)
qed

lemma level_links_remove:
  assumes "level_links h p pl (as @ r # bs)"
  obtains h' pl' where "PriceLevel_RemoveOrder r h pl = (h', pl', as @ bs = [])" "level_links h' p pl' (as @ bs)" "same_data h h'"
    "\<forall>x. x \<notin> set (as @ r # bs) \<longrightarrow> h' x = h x" "pl_TotalQty pl' = int64 (pl_TotalQty pl - or_LeavesQty (h r))"
proof -
  have lv: "dll h (pl_Orders pl) (as @ r # bs)" "distinct (as @ r # bs)"
      "pl_Price pl = p \<and> pl_next pl = None \<and> pl_prev pl = None" "pl_Count pl = int32 (int (length (as @ r # bs)))"
    using assms by (simp_all add: level_links_def)
  obtain h' c where rem: "PriceLevel_RemoveOrder r h pl =
       (h', pl\<lparr>pl_Orders := c, pl_TotalQty := int64 (pl_TotalQty pl - or_LeavesQty (h r)), pl_Count := int32 (pl_Count pl - 1)\<rparr>,
        as @ bs = [])"
      "dll h' c (as @ bs)" "same_data h h'" "\<forall>x. x \<notin> set (as @ r # bs) \<longrightarrow> h' x = h x"
    by (rule unlink_dll [OF lv(1,2)])
  show ?thesis
    by (rule that [OF rem(1) _ rem(3,4)]) (use lv(2-4) rem(2) in \<open>simp_all add: level_links_def\<close>)
qed

lemma level_ok_remove:
  assumes "level_ok h side p pl (as @ (r, l) # bs)"
  obtains h' pl' where "PriceLevel_RemoveOrder r h pl = (h', pl', as @ bs = [])" "level_ok h' side p pl' (as @ bs)" "same_data h h'"
    "\<forall>x. x \<notin> fst ` set (as @ (r, l) # bs) \<longrightarrow> h' x = h x"
proof -
  have lv: "level_links h p pl (map fst as @ r # map fst bs)" "pl_TotalQty pl = int64 (sum_list (map snd as) + (l + sum_list (map snd bs)))"
      "\<forall>x \<in> set (as @ bs). entry_ok (h (fst x)) side p (snd x)" "or_LeavesQty (h r) = l"
    using assms by (auto simp: level_ok_def entry_ok_def order_ok_def)
  obtain h' pl' where rem: "PriceLevel_RemoveOrder r h pl = (h', pl', map fst as @ map fst bs = [])"
      "level_links h' p pl' (map fst as @ map fst bs)" "same_data h h'"
      "\<forall>x. x \<notin> set (map fst as @ r # map fst bs) \<longrightarrow> h' x = h x" "pl_TotalQty pl' = int64 (pl_TotalQty pl - or_LeavesQty (h r))"
    by (rule level_links_remove [OF lv(1)])
  have "entry_ok (h' x) side p k = entry_ok (h x) side p k" for x k
    by (rule entry_ok_data) (use rem(3) in \<open>simp add: same_data_def\<close>)
  moreover have "pl_TotalQty pl' = int64 (sum_list (map snd (as @ bs)))"
    using rem(5) lv(2,4) int64_add [of "sum_list (map snd as) + (l + sum_list (map snd bs))" "- l"] by (simp add: algebra_simps)
  ultimately show ?thesis
    using that [of h' pl'] rem(1-4) lv(3) by (simp add: level_ok_def image_Un)
qed

lemma levels_simps [simp]:
  "levels s (set_levels s' ls ob) = (if s = s' then ls else levels s ob)"
  "levels s (ob\<lparr>ob_heap := h\<rparr>) = levels s ob" "levels s (ob\<lparr>ob_orders := os\<rparr>) = levels s ob" "levels s (ob\<lparr>ob_log := lg\<rparr>) = levels s ob"
  "levels s (ob\<lparr>ob_ticks := t\<rparr>) = levels s ob" "levels s (ob\<lparr>ob_pool := pl\<rparr>) = levels s ob"
  "levels s (ob\<lparr>ob_sequence := q\<rparr>) = levels s ob" "levels s (ob\<lparr>ob_totalTrades := n\<rparr>) = levels s ob"
  "levels s (ob\<lparr>ob_totalVolume := i\<rparr>) = levels s ob" "levels s (ob\<lparr>ob_lastTradePrice := i\<rparr>) = levels s ob"
  "levels s (ob\<lparr>ob_lastTradeTime := i\<rparr>) = levels s ob" "levels s (ob\<lparr>ob_bestBid := b\<rparr>) = levels s ob" "levels s (ob\<lparr>ob_bestAsk := b\<rparr>) = levels s ob"
  by (simp_all add: levels_def set_levels_def)

lemma best_simps [simp]:
  "best s (set_levels s' ls ob) = best s ob"
  "best s (ob\<lparr>ob_heap := h\<rparr>) = best s ob" "best s (ob\<lparr>ob_orders := os\<rparr>) = best s ob" "best s (ob\<lparr>ob_log := lg\<rparr>) = best s ob"
  "best s (ob\<lparr>ob_ticks := t\<rparr>) = best s ob" "best s (ob\<lparr>ob_pool := pl\<rparr>) = best s ob"
  "best s (ob\<lparr>ob_sequence := q\<rparr>) = best s ob" "best s (ob\<lparr>ob_totalTrades := n\<rparr>) = best s ob"
  "best s (ob\<lparr>ob_totalVolume := i\<rparr>) = best s ob" "best s (ob\<lparr>ob_lastTradePrice := i\<rparr>) = best s ob"
  "best s (ob\<lparr>ob_lastTradeTime := i\<rparr>) = best s ob"
  by (simp_all add: best_def set_levels_def)

lemma set_levels_simps [simp]:
  "ob_heap (set_levels s ls ob) = ob_heap ob" "ob_orders (set_levels s ls ob) = ob_orders ob" "ob_log (set_levels s ls ob) = ob_log ob"
  "ob_sequence (set_levels s ls ob) = ob_sequence ob" "ob_onTrade (set_levels s ls ob) = ob_onTrade ob"
  "ob_onOrderUpdate (set_levels s ls ob) = ob_onOrderUpdate ob" "ob_ticks (set_levels s ls ob) = ob_ticks ob"
  "ob_Symbol (set_levels s ls ob) = ob_Symbol ob" "ob_totalTrades (set_levels s ls ob) = ob_totalTrades ob"
  "ob_totalVolume (set_levels s ls ob) = ob_totalVolume ob"
  by (simp_all add: set_levels_def)

lemma level_ok_entry: "level_ok h side p pl xs \<Longrightarrow> r \<in> fst ` set xs \<Longrightarrow> or_Price (h r) = p \<and> IsBuy (h r) = side"
  by (auto simp: level_ok_def entry_ok_def)

lemma levels_okI:
  assumes "\<And>side p pl. map_of (levels side ob) p = Some pl \<Longrightarrow> level_ok (ob_heap ob) side p pl (B side p)"
    and "\<And>side p. map_of (levels side ob) p = None \<Longrightarrow> B side p = []"
  shows "levels_ok ob B"
  using assms by (simp add: levels_ok_def split: option.split)

lemma levels_okD:
  assumes "levels_ok ob B"
  shows "map_of (levels side ob) p = Some pl \<Longrightarrow> level_ok (ob_heap ob) side p pl (B side p)"
    and "map_of (levels side ob) p = None \<Longrightarrow> B side p = []"
  using assms by (auto simp: levels_ok_def dest!: spec [of _ side] spec [of _ p])

lemma keys_map_of: "p \<in> set (keys side ob) \<longleftrightarrow> map_of (levels side ob) p \<noteq> None"
  by (simp add: keys_def map_of_eq_None_iff)

lemma levels_ok_entry:
  assumes "levels_ok ob B" "r \<in> fst ` set (B side p)"
  shows "or_Price (ob_heap ob r) = p" "IsBuy (ob_heap ob r) = side" "p \<in> set (keys side ob)"
proof -
  obtain pl where pl: "map_of (levels side ob) p = Some pl"
    using assms levels_okD(2) [OF assms(1), of side p] by (cases "map_of (levels side ob) p") auto
  then show "or_Price (ob_heap ob r) = p" "IsBuy (ob_heap ob r) = side" "p \<in> set (keys side ob)"
    using level_ok_entry [OF levels_okD(1) [OF assms(1) pl] assms(2)] by (simp_all add: keys_map_of)
qed

lemma put_queue_simps [simp]:
  "put_queue side p ys B s q = (if s = side \<and> q = p then ys else B s q)"
  by (simp add: put_queue_def)

lemma restingI: "r \<in> fst ` set (B s q) \<Longrightarrow> resting B r"
  unfolding resting_def by blast

lemma resting_put:
  assumes "levels_ok ob B" "fst ` set ys \<subseteq> fst ` set (B side p)"
  shows "resting (put_queue side p ys B) x \<longleftrightarrow> resting B x \<and> x \<notin> fst ` set (B side p) - fst ` set ys"
proof
  assume "resting (put_queue side p ys B) x"
  then obtain s q where sq: "x \<in> fst ` set (put_queue side p ys B s q)" unfolding resting_def by blast
  show "resting B x \<and> x \<notin> fst ` set (B side p) - fst ` set ys"
  proof (cases "s = side \<and> q = p")
    case True
    then show ?thesis using sq assms(2) restingI [of x B side p] by auto
  next
    case False
    then have "x \<in> fst ` set (B s q)" using sq by (metis put_queue_simps)
    moreover from this have "x \<notin> fst ` set (B side p)"
      using False levels_ok_entry(1,2) [OF assms(1)] by metis
    ultimately show ?thesis using restingI [of x B s q] by simp
  qed
next
  assume x: "resting B x \<and> x \<notin> fst ` set (B side p) - fst ` set ys"
  then obtain s q where sq: "x \<in> fst ` set (B s q)" unfolding resting_def by blast
  then have "x \<in> fst ` set (put_queue side p ys B s q)" using x by (cases "s = side \<and> q = p") auto
  then show "resting (put_queue side p ys B) x" by (rule restingI)
qed

lemma levels_ok_put:
  assumes "levels_ok ob B"
    and "\<And>s q. map_of (levels s ob') q = (if s = side \<and> q = p then Some pl' else map_of (levels s ob) q)"
    and "level_ok (ob_heap ob') side p pl' ys"
    and "\<And>x. resting B x \<Longrightarrow> x \<notin> fst ` set (B side p) \<Longrightarrow> ob_heap ob' x = ob_heap ob x"
  shows "levels_ok ob' (put_queue side p ys B)"
proof (rule levels_okI)
  fix s q pl assume pl: "map_of (levels s ob') q = Some pl"
  show "level_ok (ob_heap ob') s q pl (put_queue side p ys B s q)"
  proof (cases "s = side \<and> q = p")
    case False
    then have "map_of (levels s ob) q = Some pl" using pl assms(2) [of s q] by auto
    then have "level_ok (ob_heap ob) s q pl (B s q)" by (rule levels_okD(1) [OF assms(1)])
    moreover have "ob_heap ob' x = ob_heap ob x" if x: "x \<in> fst ` set (B s q)" for x
    proof (rule assms(4) [OF restingI [of x B s q, OF x]])
      show "x \<notin> fst ` set (B side p)"
        using levels_ok_entry(1,2) [OF assms(1) x] levels_ok_entry(1,2) [OF assms(1), of x side p] False by auto
    qed
    ultimately show ?thesis using level_ok_cong [of "B s q" "ob_heap ob'" "ob_heap ob"] False by auto
  qed (use pl assms(2) [of s q] assms(3) in simp)
next
  fix s q assume "map_of (levels s ob') q = None"
  then show "put_queue side p ys B s q = []"
    using assms(2) [of s q] levels_okD(2) [OF assms(1), of s q] by (cases "s = side \<and> q = p") auto
qed

lemma orders_ok_put:
  assumes "orders_ok X ob B" "levels_ok ob B" "fst ` set ys \<subseteq> fst ` set (B side p)" "ob_sequence ob' = ob_sequence ob"
    and ids: "\<And>x. or_ID (ob_heap ob' x) = or_ID (ob_heap ob x) \<and> IsLimit (ob_heap ob' x) = IsLimit (ob_heap ob x)"
    and frame: "\<And>x. x \<notin> X \<Longrightarrow> x \<notin> fst ` set (B side p) \<Longrightarrow> ob_heap ob' x = ob_heap ob x"
    and ord': "\<And>i. ob_orders ob' i = (if i \<in> (or_ID \<circ> ob_heap ob) ` (fst ` set (B side p) - fst ` set ys) then None else ob_orders ob i)"
  shows "orders_ok X ob' (put_queue side p ys B)"
  unfolding orders_ok_def resting_put [OF assms(2,3)]
proof (intro conjI allI impI; (elim conjE)?)
  let ?D = "fst ` set (B side p) - fst ` set ys"
  have ord: "ob_orders ob (or_ID (ob_heap ob x)) = Some x" if "resting B x" for x
    using assms(1) that by (simp add: orders_ok_def)
  fix x assume x: "resting B x" "x \<notin> ?D"
  have "or_ID (ob_heap ob x) \<notin> (or_ID \<circ> ob_heap ob) ` ?D"
  proof
    assume "or_ID (ob_heap ob x) \<in> (or_ID \<circ> ob_heap ob) ` ?D"
    then obtain y where y: "or_ID (ob_heap ob x) = or_ID (ob_heap ob y)" "y \<in> ?D" by (elim imageE) (simp only: comp_def)
    then have "resting B y" using restingI [of y B side p] by blast
    then have "ob_orders ob (or_ID (ob_heap ob y)) = Some y" by (rule ord)
    then have "Some y = Some x" using ord [OF x(1), unfolded y(1)] by (rule trans [OF sym])
    then show False using x(2) y(2) by simp
  qed
  then show "ob_orders ob' (or_ID (ob_heap ob' x)) = Some x"
    using ids [of x] ord' ord [OF x(1)] by simp
next
  let ?D = "fst ` set (B side p) - fst ` set ys"
  fix i x assume "ob_orders ob' i = Some x"
  then have o1: "ob_orders ob i = Some x" "i \<notin> (or_ID \<circ> ob_heap ob) ` ?D"
    using ord' [of i] by (cases "i \<in> (or_ID \<circ> ob_heap ob) ` ?D"; simp)+
  then have id1: "or_ID (ob_heap ob x) = i" "i \<le> ob_sequence ob"
    "x \<notin> X \<and> IsLimit (ob_heap ob x) \<and> 0 < or_LeavesQty (ob_heap ob x) \<longrightarrow> resting B x"
    using assms(1) by (simp_all add: orders_ok_def)
  then show "or_ID (ob_heap ob' x) = i" "i \<le> ob_sequence ob'" using assms(4) ids by simp_all
  show "x \<notin> ?D"
  proof
    assume "x \<in> ?D"
    then have "(or_ID \<circ> ob_heap ob) x \<in> (or_ID \<circ> ob_heap ob) ` ?D" by (rule imageI)
    then show False using o1(2) id1(1) unfolding comp_def by blast
  qed
  assume "x \<notin> X" "IsLimit (ob_heap ob' x)" "0 < or_LeavesQty (ob_heap ob' x)"
  then show "resting B x" using id1(3) frame [of x] restingI [of x B side p] by (cases "x \<in> fst ` set (B side p)") simp_all
qed

lemma book_inv_put:
  assumes "book_inv X ob B" "fst ` set ys \<subseteq> fst ` set (B side p)" "\<And>x. x \<in> X \<Longrightarrow> \<not> resting B x"
    and "\<And>s. keys s ob' = keys s ob \<and> best s ob' = best s ob" "ob_sequence ob' = ob_sequence ob"
    and "\<And>s q. map_of (levels s ob') q = (if s = side \<and> q = p then Some pl' else map_of (levels s ob) q)"
    and "level_ok (ob_heap ob') side p pl' ys"
    and "\<And>x. or_ID (ob_heap ob' x) = or_ID (ob_heap ob x) \<and> IsLimit (ob_heap ob' x) = IsLimit (ob_heap ob x)"
    and "\<And>x. x \<notin> X \<Longrightarrow> x \<notin> fst ` set (B side p) \<Longrightarrow> ob_heap ob' x = ob_heap ob x"
    and "\<And>i. ob_orders ob' i = (if i \<in> (or_ID \<circ> ob_heap ob) ` (fst ` set (B side p) - fst ` set ys) then None else ob_orders ob i)"
  shows "book_inv X ob' (put_queue side p ys B)"
proof -
  have inv: "keys_ok ob" "levels_ok ob B" "orders_ok X ob B" using assms(1) by (simp_all add: book_inv_def)
  have "keys_ok ob'" using inv(1) assms(4) by (simp add: keys_ok_def)
  moreover have "levels_ok ob' (put_queue side p ys B)"
    by (rule levels_ok_put [OF inv(2) assms(6,7)]) (use assms(3,9) in blast)
  moreover have "orders_ok X ob' (put_queue side p ys B)"
    by (rule orders_ok_put [OF inv(3,2) assms(2,5,8,9,10)])
  ultimately show ?thesis by (simp add: book_inv_def)
qed

subsection \<open>One match\<close>

lemma Order_Fill_ok:
  assumes "order_ok o1 l" "0 < m" "m \<le> l"
  shows "order_ok (fst (Order_Fill now m price o1)) (l - m)"
    and "fst (Order_Fill now m price o1) = o1\<lparr>or_FilledQty := or_FilledQty o1 + m, or_LeavesQty := l - m,
           or_Status := (if l = m then StatusFilled else StatusPartial)\<rparr>"
proof -
  have "in_int64 (or_FilledQty o1 + m)" "in_int64 (l - m)"
    using assms by (simp_all add: order_ok_def in_int64_def)
  then show "fst (Order_Fill now m price o1) = o1\<lparr>or_FilledQty := or_FilledQty o1 + m, or_LeavesQty := l - m,
      or_Status := (if l = m then StatusFilled else StatusPartial)\<rparr>"
    using assms by (simp add: Order_Fill_def order_ok_def)
  then show "order_ok (fst (Order_Fill now m price o1)) (l - m)"
    using assms by (simp add: order_ok_def)
qed

lemma level_ok_fill:
  assumes "level_ok h side p pl ((r, l) # xs)" "0 < m" "m \<le> l" "r0 \<notin> fst ` set ((r, l) # xs)"
    and "h2 = h(r0 := o0, r := fst (Order_Fill now m price (h r)))" "pl2 = UpdateQuantity (- m) pl"
  shows "level_links h2 p pl2 (r # map fst xs)" "pl_TotalQty pl2 = int64 (l - m + sum_list (map snd xs))"
    and "\<forall>x \<in> set xs. entry_ok (h2 (fst x)) side p (snd x)" "m < l \<Longrightarrow> entry_ok (h2 r) side p (l - m)" "or_LeavesQty (h2 r) = l - m"
proof -
  have lv: "level_links h p pl (r # map fst xs)" "pl_TotalQty pl = int64 (l + sum_list (map snd xs))"
      "\<forall>x \<in> set xs. entry_ok (h (fst x)) side p (snd x)" "entry_ok (h r) side p l" "r \<notin> set (map fst xs)"
    using assms(1) by (simp_all add: level_ok_def level_links_def)
  have ord: "order_ok (h r) l" using lv(4) by (simp add: entry_ok_def)
  note fill = Order_Fill_ok [OF ord assms(2,3), of now price]
  have "or_next (h2 x) = or_next (h x) \<and> or_prev (h2 x) = or_prev (h x)" if "x \<in> set (r # map fst xs)" for x
    using that assms(4) by (auto simp: assms(5) fill(2))
  then have "level_links h2 p pl (r # map fst xs)" using lv(1) level_links_cong [of "r # map fst xs" h2 h] by simp
  then show "level_links h2 p pl2 (r # map fst xs)" by (simp add: level_links_def assms(6) UpdateQuantity_def)
  show "pl_TotalQty pl2 = int64 (l - m + sum_list (map snd xs))"
    using lv(2) int64_add [of "l + sum_list (map snd xs)" "- m"] by (simp add: assms(6) UpdateQuantity_def algebra_simps)
  have "h2 (fst x) = h (fst x)" if "x \<in> set xs" for x
    using that lv(5) assms(4) by (auto simp: assms(5))
  then show "\<forall>x \<in> set xs. entry_ok (h2 (fst x)) side p (snd x)" using lv(3) by simp
  have h2r: "h2 r = fst (Order_Fill now m price (h r))" by (simp add: assms(5))
  show "m < l \<Longrightarrow> entry_ok (h2 r) side p (l - m)"
    using lv(4) fill unfolding h2r entry_ok_def by (simp add: IsBuy_def IsLimit_def)
  show "or_LeavesQty (h2 r) = l - m" using fill(1) by (simp add: h2r order_ok_def)
qed

lemma map_of_set_level [simp]:
  "map_of (levels s (set_level side p pl ob)) q = (if s = side \<and> q = p then Some pl else map_of (levels s ob) q)"
  by (simp add: set_level_def update_conv')

lemma level_at_set_level [simp]: "level_at s q (set_level side p pl ob) = (if s = side \<and> q = p then pl else level_at s q ob)"
  by (simp add: level_at_def)

lemma keys_set_level: "p \<in> set (keys side ob) \<Longrightarrow> keys s (set_level side p pl ob) = keys s ob"
  by (simp add: keys_def set_level_def update_keys)

lemma keys_simps [simp]:
  "keys s (ob\<lparr>ob_heap := h\<rparr>) = keys s ob" "keys s (ob\<lparr>ob_orders := os\<rparr>) = keys s ob"
  by (simp_all add: keys_def)

lemma set_level_simps [simp]:
  "ob_heap (set_level s p pl ob) = ob_heap ob" "ob_orders (set_level s p pl ob) = ob_orders ob" "ob_log (set_level s p pl ob) = ob_log ob"
  "ob_sequence (set_level s p pl ob) = ob_sequence ob" "ob_onTrade (set_level s p pl ob) = ob_onTrade ob"
  "ob_onOrderUpdate (set_level s p pl ob) = ob_onOrderUpdate ob" "ob_ticks (set_level s p pl ob) = ob_ticks ob"
  "best s' (set_level s p pl ob) = best s' ob"
  by (simp_all add: set_level_def)

text \<open>Updates that a level does not see.\<close>

lemma level_at_simps [simp]:
  "level_at s p (ob\<lparr>ob_heap := h\<rparr>) = level_at s p ob" "level_at s p (ob\<lparr>ob_ticks := t\<rparr>) = level_at s p ob"
  "level_at s p (ob\<lparr>ob_orders := os\<rparr>) = level_at s p ob"
  by (simp_all add: level_at_def)

lemma notify_simps [simp]:
  "levels s (notify r ob) = levels s ob" "best s (notify r ob) = best s ob" "ob_heap (notify r ob) = ob_heap ob"
  "ob_orders (notify r ob) = ob_orders ob" "ob_sequence (notify r ob) = ob_sequence ob" "ob_onTrade (notify r ob) = ob_onTrade ob"
  "keys s (notify r ob) = keys s ob"
  by (simp_all add: notify_def keys_def)

lemma match_trade_simps [simp]:
  "levels s (match_trade clk r0 r m mp ob) = levels s ob" "best s (match_trade clk r0 r m mp ob) = best s ob"
  "ob_heap (match_trade clk r0 r m mp ob) = ob_heap ob" "ob_orders (match_trade clk r0 r m mp ob) = ob_orders ob"
  "ob_sequence (match_trade clk r0 r m mp ob) = ob_sequence ob" "ob_onTrade (match_trade clk r0 r m mp ob) = ob_onTrade ob"
  "level_at s p (match_trade clk r0 r m mp ob) = level_at s p ob" "keys s (match_trade clk r0 r m mp ob) = keys s ob"
  by (simp_all add: match_trade_def Let_def level_at_def keys_def)

lemma match_fills_simps [simp]:
  "levels s (match_fills clk r0 r m mp ob) = levels s ob" "best s (match_fills clk r0 r m mp ob) = best s ob"
  "ob_orders (match_fills clk r0 r m mp ob) = ob_orders ob" "ob_log (match_fills clk r0 r m mp ob) = ob_log ob"
  "ob_sequence (match_fills clk r0 r m mp ob) = ob_sequence ob" "ob_onTrade (match_fills clk r0 r m mp ob) = ob_onTrade ob"
  "level_at s p (match_fills clk r0 r m mp ob) = level_at s p ob" "keys s (match_fills clk r0 r m mp ob) = keys s ob"
  by (simp_all add: match_fills_def Let_def level_at_def keys_def)

text \<open>The trades that were reported, without their time stamps.\<close>

fun trade_key :: "book_event \<Rightarrow> (64 word \<times> 64 word \<times> int \<times> int) list" where
  "trade_key (OnTrade t) = [(tr_BuyOrderID t, tr_SellOrderID t, tr_Price t, tr_Quantity t)]"
| "trade_key (OnOrderUpdate o1) = []"

definition trades :: "OrderBook \<Rightarrow> (64 word \<times> 64 word \<times> int \<times> int) list" where
  "trades ob = concat (map trade_key (ob_log ob))"

definition trade_between :: "Order \<Rightarrow> Order \<Rightarrow> int \<Rightarrow> int \<Rightarrow> 64 word \<times> 64 word \<times> int \<times> int" where
  "trade_between aggressor rest p q =
     (if IsBuy aggressor then (or_ID aggressor, or_ID rest, p, q) else (or_ID rest, or_ID aggressor, p, q))"

text \<open>The order being matched: not in the book, with the open quantity \<open>q\<close>.\<close>

definition aggressor :: "nat \<Rightarrow> int \<Rightarrow> bool \<Rightarrow> OrderBook \<Rightarrow> spec_book \<Rightarrow> bool" where
  "aggressor r0 q side ob B \<longleftrightarrow> order_ok (ob_heap ob r0) q \<and> 0 \<le> q \<and> \<not> resting B r0 \<and> IsBuy (ob_heap ob r0) = (\<not> side)"

lemma trades_notify [simp]: "trades (notify r ob) = trades ob"
  by (simp add: trades_def notify_def)

lemma fills_heap:
  assumes "order_ok (ob_heap ob r0) q" "r \<noteq> r0"
  shows "ob_heap (match_fills clk r0 r m mp ob) =
     (ob_heap ob)(r0 := fst (Order_Fill (clk (ob_ticks ob)) m mp (ob_heap ob r0)),
                  r := fst (Order_Fill (clk (ob_ticks ob + 1)) m mp (ob_heap ob r)))"
  using assms by (simp add: match_fills_def Let_def)

lemma match_trade_trades:
  "trades (match_trade clk r0 r m mp ob) =
     trades ob @ (if ob_onTrade ob then [trade_between (ob_heap ob r0) (ob_heap ob r) mp m] else [])"
  by (simp add: match_trade_def trades_def createTrade_def trade_between_def Let_def)

lemma trades_set_level [simp]: "trades (set_level s p pl ob) = trades ob"
  by (simp add: trades_def)

lemma trades_simps [simp]:
  "trades (match_fills clk r0 r m mp ob) = trades ob" "trades (ob\<lparr>ob_heap := h\<rparr>) = trades ob" "trades (ob\<lparr>ob_orders := os\<rparr>) = trades ob"
  by (simp_all add: trades_def)

text \<open>What filling, linking and cancelling leave alone.\<close>

definition static :: "Order \<Rightarrow> Order" where
  "static o1 = o1\<lparr>or_FilledQty := 0, or_LeavesQty := 0, or_Status := 0, or_next := None, or_prev := None\<rparr>"

lemma staticD:
  assumes "static a = static b"
  shows "or_ID a = or_ID b" "or_Side a = or_Side b" "or_Type a = or_Type b" "or_Price a = or_Price b" "or_Quantity a = or_Quantity b"
    "or_TimeInForce a = or_TimeInForce b" "IsBuy a = IsBuy b" "IsLimit a = IsLimit b" "IsMarket a = IsMarket b"
  using assms by (auto simp: static_def IsBuy_def IsLimit_def IsMarket_def dest: arg_cong [of _ _ or_ID] arg_cong [of _ _ or_Side]
    arg_cong [of _ _ or_Type] arg_cong [of _ _ or_Price] arg_cong [of _ _ or_Quantity] arg_cong [of _ _ or_TimeInForce])

lemma static_Fill [simp]: "static (fst (Order_Fill now m mp o1)) = static o1"
  by (simp add: static_def Order_Fill_def Let_def)

lemma static_data: "Order_Clone a = Order_Clone b \<Longrightarrow> static a = static b"
  by (cases a, cases b) (simp add: static_def Order_Clone_eq)

text \<open>The effect of one iteration.\<close>

lemma match_one_effect:
  assumes lv: "map_of (levels side ob) p = Some pl" "level_ok (ob_heap ob) side p pl ((r, l) # xs)"
    and agg: "order_ok (ob_heap ob r0) q" "0 < q" "r0 \<notin> fst ` set ((r, l) # xs)" and m: "m = min q l"
    and ob': "ob' = match_one clk r0 side p r ob"
  obtains pl' where "\<forall>s q'. map_of (levels s ob') q' = (if s = side \<and> q' = p then Some pl' else map_of (levels s ob) q')"
    "\<forall>s. keys s ob' = keys s ob \<and> best s ob' = best s ob" "ob_sequence ob' = ob_sequence ob" "ob_onTrade ob' = ob_onTrade ob"
    "level_ok (ob_heap ob') side p pl' (if q < l then (r, l - q) # xs else xs)"
    "ob_orders ob' = (if q < l then ob_orders ob else (ob_orders ob)(or_ID (ob_heap ob r) := None))"
    "order_ok (ob_heap ob' r0) (q - m)" "\<forall>x. static (ob_heap ob' x) = static (ob_heap ob x)"
    "\<forall>x. x \<noteq> r0 \<and> x \<notin> fst ` set ((r, l) # xs) \<longrightarrow> ob_heap ob' x = ob_heap ob x"
    "trades ob' = trades ob @ (if ob_onTrade ob then [trade_between (ob_heap ob r0) (ob_heap ob r) p m] else [])"
proof -
  define h2 where "h2 = (ob_heap ob)(r0 := fst (Order_Fill (clk (ob_ticks ob)) m p (ob_heap ob r0)),
                  r := fst (Order_Fill (clk (ob_ticks ob + 1)) m p (ob_heap ob r)))"
  define pl2 where "pl2 = UpdateQuantity (- m) pl"
  have r: "entry_ok (ob_heap ob r) side p l" "r \<noteq> r0" using lv(2) agg(3) by (auto simp: level_ok_def)
  then have l: "order_ok (ob_heap ob r) l" "0 < l" "or_Price (ob_heap ob r) = p" by (simp_all add: entry_ok_def)
  have mm: "0 < m" "m \<le> l" "m \<le> q" using agg(2) l(2) m by simp_all
  note fill = level_ok_fill [OF lv(2) mm(1,2) agg(3) h2_def pl2_def]
  define ob1 where "ob1 = match_trade clk r0 r m p (set_level side p pl2 (match_fills clk r0 r m p ob))"
  have one: "ob' = notify r0 (match_remove side p r ob1)"
    using agg(1) l lv(1) m
    by (simp add: ob' match_one_def Let_def ob1_def pl2_def minInt64_def order_ok_def level_at_def min_def)
  have st: "static (h2 x) = static (ob_heap ob x)" for x by (simp add: h2_def)
  then have tb: "trade_between (h2 r0) (h2 r) p m = trade_between (ob_heap ob r0) (ob_heap ob r) p m"
    using staticD [OF st [of r0]] staticD [OF st [of r]] by (simp add: trade_between_def)
  have hf: "ob_heap (match_fills clk r0 r m p ob) = h2"
    using r(2) by (simp only: fills_heap [OF agg(1) r(2)] h2_def)
  have ob1: "ob_heap ob1 = h2" "\<forall>s q'. map_of (levels s ob1) q' = (if s = side \<and> q' = p then Some pl2 else map_of (levels s ob) q')"
      "level_at side p ob1 = pl2" "\<forall>s. keys s ob1 = keys s ob \<and> best s ob1 = best s ob" "ob_orders ob1 = ob_orders ob"
      "ob_sequence ob1 = ob_sequence ob" "ob_onTrade ob1 = ob_onTrade ob"
      "trades ob1 = trades ob @ (if ob_onTrade ob then [trade_between (ob_heap ob r0) (ob_heap ob r) p m] else [])"
    using lv(1) st tb by (simp_all add: ob1_def hf keys_set_level keys_map_of match_trade_trades)
  have h2: "order_ok (h2 r0) (q - m)" "\<forall>x. static (h2 x) = static (ob_heap ob x)"
      "\<forall>x. x \<noteq> r0 \<and> x \<notin> fst ` set ((r, l) # xs) \<longrightarrow> h2 x = ob_heap ob x"
    using Order_Fill_ok(1) [OF agg(1) mm(1,3)] r(2) by (simp_all add: h2_def)
  show thesis
  proof (cases "q < l")
    case True
    then have "ob' = notify r0 ob1" using one fill(5) m by (simp add: match_remove_def ob1(1))
    moreover have "level_ok h2 side p pl2 ((r, l - q) # xs)"
      using fill True m by (simp add: level_ok_def)
    ultimately show thesis using True by (intro that [of pl2]) (simp_all add: ob1 h2)
  next
    case False
    then have "or_LeavesQty (h2 r) = 0" "m = l" using fill(5) m by simp_all
    have "level_links h2 p pl2 ([] @ r # map fst xs)" using fill(1) by simp
    then obtain h' pl' where rem: "PriceLevel_RemoveOrder r h2 pl2 = (h', pl', [] @ map fst xs = [])" "level_links h' p pl' ([] @ map fst xs)"
        "same_data h2 h'" "\<forall>x. x \<notin> set ([] @ r # map fst xs) \<longrightarrow> h' x = h2 x"
        "pl_TotalQty pl' = int64 (pl_TotalQty pl2 - or_LeavesQty (h2 r))"
      by (rule level_links_remove)
    have clone: "Order_Clone (h' x) = Order_Clone (h2 x)" for x using rem(3) by (simp add: same_data_def)
    have st: "static (h' x) = static (h2 x)" "entry_ok (h' x) side p k = entry_ok (h2 x) side p k" for x k
      by (rule static_data [OF clone], rule entry_ok_data [OF clone])
    have "level_ok h' side p pl' xs"
      using rem(2,5) fill(2,3) \<open>or_LeavesQty (h2 r) = 0\<close> \<open>m = l\<close> by (simp add: level_ok_def st(2))
    moreover have "order_ok (h' r0) (q - m)"
      using h2(1) rem(4) agg(3) by simp
    moreover have "or_ID (h' r) = or_ID (ob_heap ob r)"
      using staticD(1) [OF st(1), of r] staticD(1) [of "h2 r" "ob_heap ob r"] h2(2) by simp
    moreover have "match_remove side p r ob1 = notify r (set_level side p pl' (ob1\<lparr>ob_heap := h', ob_orders := (ob_orders ob1)(or_ID (h' r) := None)\<rparr>))"
      using rem(1) \<open>or_LeavesQty (h2 r) = 0\<close> by (simp add: match_remove_def ob1(1,3))
    moreover have "p \<in> set (keys side ob1)" using lv(1) ob1(4) by (simp add: keys_map_of)
    moreover have "\<forall>x. x \<noteq> r0 \<and> x \<notin> fst ` set ((r, l) # xs) \<longrightarrow> h' x = ob_heap ob x"
      using rem(4) h2(3) by simp
    ultimately show thesis using False
      by (intro that [of pl']) (simp_all add: one ob1 h2(2) st(1) keys_set_level)
  qed
qed

text \<open>One iteration keeps the relation to the queues, with what was taken from the head of the queue.\<close>

lemma match_one_inv:
  assumes inv: "book_inv {r0} ob B" and agg: "aggressor r0 q side ob B" "0 < q" and B: "B side p = (r, l) # xs" "0 < l"
    and ob': "ob' = match_one clk r0 side p r ob" and ys: "ys = (if q < l then (r, l - q) # xs else xs)"
  shows "book_inv {r0} ob' (put_queue side p ys B)" "aggressor r0 (q - min q l) side ob' (put_queue side p ys B)"
    "ob_onTrade ob' = ob_onTrade ob" "keys s ob' = keys s ob" "static (ob_heap ob' x) = static (ob_heap ob x)"
    "trades ob' = trades ob @ (if ob_onTrade ob then [trade_between (ob_heap ob r0) (ob_heap ob r) p (min q l)] else [])"
proof -
  have ok: "levels_ok ob B" "orders_ok {r0} ob B" using inv by (simp_all add: book_inv_def)
  obtain pl where pl: "map_of (levels side ob) p = Some pl"
    using levels_okD(2) [OF ok(1), of side p] B(1) by (cases "map_of (levels side ob) p") auto
  have lv: "level_ok (ob_heap ob) side p pl ((r, l) # xs)" using levels_okD(1) [OF ok(1) pl] B(1) by simp
  have r0: "\<not> resting B r0" "order_ok (ob_heap ob r0) q" "IsBuy (ob_heap ob r0) = (\<not> side)" using agg(1) by (simp_all add: aggressor_def)
  have r0': "r0 \<notin> fst ` set ((r, l) # xs)" using r0(1) restingI [of r0 B side p] B(1) by auto
  obtain pl' where eff: "\<forall>s q'. map_of (levels s ob') q' = (if s = side \<and> q' = p then Some pl' else map_of (levels s ob) q')"
    "\<forall>s. keys s ob' = keys s ob \<and> best s ob' = best s ob" "ob_sequence ob' = ob_sequence ob" "ob_onTrade ob' = ob_onTrade ob"
    "level_ok (ob_heap ob') side p pl' (if q < l then (r, l - q) # xs else xs)"
    "ob_orders ob' = (if q < l then ob_orders ob else (ob_orders ob)(or_ID (ob_heap ob r) := None))"
    "order_ok (ob_heap ob' r0) (q - min q l)" "\<forall>x. static (ob_heap ob' x) = static (ob_heap ob x)"
    "\<forall>x. x \<noteq> r0 \<and> x \<notin> fst ` set ((r, l) # xs) \<longrightarrow> ob_heap ob' x = ob_heap ob x"
    "trades ob' = trades ob @ (if ob_onTrade ob then [trade_between (ob_heap ob r0) (ob_heap ob r) p (min q l)] else [])"
    by (rule match_one_effect [OF pl lv r0(2) agg(2) r0' refl ob'])
  show "ob_onTrade ob' = ob_onTrade ob" "keys s ob' = keys s ob" "static (ob_heap ob' x) = static (ob_heap ob x)"
    "trades ob' = trades ob @ (if ob_onTrade ob then [trade_between (ob_heap ob r0) (ob_heap ob r) p (min q l)] else [])"
    using eff(2,4,8,10) by simp_all
  have st: "static (ob_heap ob' x) = static (ob_heap ob x)" for x using eff(8) by simp
  have sub: "fst ` set ys \<subseteq> fst ` set (B side p)" by (auto simp: ys B(1))
  have "r \<notin> fst ` set xs" using lv by (simp add: level_ok_def level_links_def)
  then have gone: "fst ` set (B side p) - fst ` set ys = (if q < l then {} else {r})" by (auto simp: ys B(1))
  show "book_inv {r0} ob' (put_queue side p ys B)"
  proof (rule book_inv_put [OF inv sub])
    show "level_ok (ob_heap ob') side p pl' ys" using eff(5) ys by simp
    show "or_ID (ob_heap ob' x) = or_ID (ob_heap ob x) \<and> IsLimit (ob_heap ob' x) = IsLimit (ob_heap ob x)" for x
      using staticD(1,8) [OF st] by simp
    show "ob_orders ob' i = (if i \<in> (or_ID \<circ> ob_heap ob) ` (fst ` set (B side p) - fst ` set ys) then None else ob_orders ob i)" for i
      using eff(6) by (simp add: gone)
  qed (use eff r0(1) B(1) in simp_all)
  show "aggressor r0 (q - min q l) side ob' (put_queue side p ys B)"
    using eff(7) r0 resting_put [OF ok(1) sub, of r0] staticD(7) [OF st, of r0] by (simp add: aggressor_def)
qed

subsection \<open>Matching takes from the best level in order of arrival\<close>

definition head_ref :: "(nat \<times> int) list \<Rightarrow> nat option" where
  "head_ref xs = (case xs of [] \<Rightarrow> None | x # _ \<Rightarrow> Some (fst x))"

lemma dseg_head: "dseg h p c (map fst xs) l None \<Longrightarrow> c = head_ref xs"
  by (cases xs) (simp_all add: head_ref_def)

lemma put_queue_same [simp]: "put_queue side p (B side p) B = B" "put_queue side p ys (put_queue side p xs B) = put_queue side p ys B"
  by (simp_all add: put_queue_def)

lemma fifo_fill_zero [simp]: "fifo_fill 0 xs = ([], xs)"
  by (cases xs) auto

lemma level_head:
  assumes "level_ok h side p pl xs"
  shows "pl_Orders pl = head_ref xs" "PriceLevel_IsEmpty pl \<longleftrightarrow> xs = []"
proof -
  show "pl_Orders pl = head_ref xs"
    using assms by (intro dseg_head) (auto simp: level_ok_def level_links_def)
  then show "PriceLevel_IsEmpty pl \<longleftrightarrow> xs = []"
    by (simp add: PriceLevel_IsEmpty_def head_ref_def split: list.split)
qed

lemma level_of_queue:
  assumes "levels_ok ob B" "B side p \<noteq> []"
  obtains pl where "map_of (levels side ob) p = Some pl" "level_at side p ob = pl" "level_ok (ob_heap ob) side p pl (B side p)"
    "pl_Orders pl = head_ref (B side p)"
proof -
  obtain pl where pl: "map_of (levels side ob) p = Some pl"
    using levels_okD(2) [OF assms(1), of side p] assms(2) by (cases "map_of (levels side ob) p") auto
  moreover from this have lv: "level_ok (ob_heap ob) side p pl (B side p)" by (rule levels_okD(1) [OF assms(1)])
  moreover from lv have "pl_Orders pl = head_ref (B side p)" by (rule level_head)
  ultimately show thesis using that by (simp add: level_at_def)
qed

lemma level_ok_next:
  assumes "level_ok h side p pl ((r, l) # xs)"
  shows "or_next (h r) = head_ref xs" "0 < l"
  using assms dseg_head [of h "Some r" "or_next (h r)" xs] by (auto simp: level_ok_def level_links_def entry_ok_def)

lemma match_level_stops:
  "or_LeavesQty (ob_heap ob r0) \<le> 0 \<or> it_current it = None \<Longrightarrow> match_level clk r0 side p it ob = Some ob"
  by (subst match_level.simps) (auto simp: HasNext_def)

lemma match_level_step:
  "it_current it = Some r \<Longrightarrow> 0 < or_LeavesQty (ob_heap ob r0) \<Longrightarrow>
     match_level clk r0 side p it ob =
       match_level clk r0 side p (it\<lparr>it_current := or_next (ob_heap ob r)\<rparr>) (match_one clk r0 side p r ob)"
  by (subst match_level.simps) (simp add: HasNext_def Iterator_Next_def)

lemma aggressor_leaves: "aggressor r0 q side ob B \<Longrightarrow> or_LeavesQty (ob_heap ob r0) = q \<and> 0 \<le> q"
  by (simp add: aggressor_def order_ok_def)

lemma trade_between_static:
  "static a = static a' \<Longrightarrow> static b = static b' \<Longrightarrow> trade_between a b p m = trade_between a' b' p m"
  using staticD(1,7) [of a a'] staticD(1) [of b b'] by (simp add: trade_between_def)

lemma match_level_fifo:
  assumes "book_inv {r0} ob B" "aggressor r0 q side ob B" "fifo_fill q (B side p) = (ts, rest)" "it_current it = head_ref (B side p)"
  shows "\<exists>ob'. match_level clk r0 side p it ob = Some ob' \<and> book_inv {r0} ob' (put_queue side p rest B) \<and>
     aggressor r0 (q - sum_list (map snd ts)) side ob' (put_queue side p rest B) \<and>
     (\<forall>s. keys s ob' = keys s ob) \<and> (\<forall>x. static (ob_heap ob' x) = static (ob_heap ob x)) \<and> ob_onTrade ob' = ob_onTrade ob \<and>
     trades ob' = trades ob @ (if ob_onTrade ob then map (\<lambda>(r, m). trade_between (ob_heap ob r0) (ob_heap ob r) p m) ts else [])"
  using assms
proof (induction "B side p" arbitrary: B ob q ts it)
  case Nil
  then show ?case using match_level_stops [of ob r0 it clk side p] put_queue_same(1) [of side p B]
    by (auto simp: head_ref_def)
next
  case (Cons x xs)
  obtain r l where x: "x = (r, l)" by fastforce
  have B: "B side p = (r, l) # xs" using Cons.hyps(2) x by simp
  have lv: "levels_ok ob B" using Cons.prems(1) by (simp add: book_inv_def)
  obtain pl where "level_ok (ob_heap ob) side p pl ((r, l) # xs)"
    using level_of_queue [OF lv, of side p] B by auto
  note nxt = level_ok_next [OF this]
  have q: "or_LeavesQty (ob_heap ob r0) = q" "0 \<le> q" using aggressor_leaves [OF Cons.prems(2)] by simp_all
  show ?case
  proof (cases "q = 0")
    case True
    then show ?thesis using Cons.prems B match_level_stops [of ob r0 it clk side p] q put_queue_same(1) [of side p B] by auto
  next
    case False
    define ys where "ys = (if q < l then (r, l - q) # xs else xs)"
    define ob1 where "ob1 = match_one clk r0 side p r ob"
    have pos: "0 < q" using q False by simp
    note one = match_one_inv [OF Cons.prems(1,2) pos B nxt(2) ob1_def ys_def]
    have step: "match_level clk r0 side p it ob = match_level clk r0 side p (it\<lparr>it_current := head_ref xs\<rparr>) ob1"
      using match_level_step [of it r ob r0 clk side p] Cons.prems(4) B nxt(1) pos q(1) by (simp add: head_ref_def ob1_def)
    show ?thesis
    proof (cases "q < l")
      case True
      then have "match_level clk r0 side p (it\<lparr>it_current := head_ref xs\<rparr>) ob1 = Some ob1"
        using aggressor_leaves [OF one(2)] by (intro match_level_stops) simp
      then show ?thesis using step one True Cons.prems(3) B pos by (auto simp: ys_def)
    next
      case le: False
      obtain ts' where ts': "fifo_fill (q - l) xs = (ts', rest)" "ts = (r, l) # ts'"
        using Cons.prems(3) B le pos by (auto split: prod.splits)
      have "aggressor r0 (q - l) side ob1 (put_queue side p xs B)" "book_inv {r0} ob1 (put_queue side p xs B)"
        using one(1,2) le by (simp_all add: ys_def)
      from Cons.hyps(1) [OF _ this(2,1), of ts' "it\<lparr>it_current := head_ref xs\<rparr>"] ts'(1)
      obtain ob' where run: "match_level clk r0 side p (it\<lparr>it_current := head_ref xs\<rparr>) ob1 = Some ob'"
        "book_inv {r0} ob' (put_queue side p rest B)" "aggressor r0 (q - l - sum_list (map snd ts')) side ob' (put_queue side p rest B)"
        "\<forall>s. keys s ob' = keys s ob1" "\<forall>x. static (ob_heap ob' x) = static (ob_heap ob1 x)" "ob_onTrade ob' = ob_onTrade ob1"
        "trades ob' = trades ob1 @ (if ob_onTrade ob1 then map (\<lambda>(r, m). trade_between (ob_heap ob1 r0) (ob_heap ob1 r) p m) ts' else [])"
        by auto
      have "trade_between (ob_heap ob1 r0) (ob_heap ob1 x) p m = trade_between (ob_heap ob r0) (ob_heap ob x) p m" for x m
        by (intro trade_between_static one(5))
      then have "trades ob' = trades ob @ (if ob_onTrade ob then map (\<lambda>(r, m). trade_between (ob_heap ob r0) (ob_heap ob r) p m) ts else [])"
        using run(7) one(3,6) ts'(2) le pos nxt(2) by (simp add: min_absorb2 case_prod_unfold)
      moreover have "aggressor r0 (q - sum_list (map snd ts)) side ob' (put_queue side p rest B)"
        using run(3) ts'(2) by (simp add: algebra_simps)
      ultimately show ?thesis using step run one(3-5) by simp
    qed
  qed
qed
lemma fifo_fill_all:
  assumes "fifo_fill q xs = (ts, rest)" "0 \<le> q" "\<forall>x \<in> set xs. 0 < snd x"
  shows "rest \<noteq> [] \<Longrightarrow> sum_list (map snd ts) = q" "rest = [] \<Longrightarrow> xs \<noteq> [] \<Longrightarrow> sum_list (map snd xs) \<le> q"
  using assms
proof (induction xs arbitrary: q ts)
  case (Cons x xs)
  obtain r l where x: "x = (r, l)" by fastforce
  {
    case 1
    then show ?case using Cons.IH(1) [of "q - l"] x by (auto split: if_splits prod.splits)
  next
    case 2
    then show ?case using Cons.IH(2) [of "q - l"] x by (cases xs) (auto split: if_splits prod.splits)
  }
qed simp_all

lemma is_best_unique: "is_best side B p \<Longrightarrow> is_best side B q \<Longrightarrow> p = q"
  by (cases side) (auto simp: is_best_def intro: antisym)

lemma book_rel_keys:
  assumes "book_rel ob B"
  shows "p \<in> set (keys side ob) \<longleftrightarrow> B side p \<noteq> []"
proof -
  have "levels_ok ob B" using assms by (simp add: book_rel_def book_inv_def)
  then have "map_of (levels side ob) p = None \<Longrightarrow> B side p = []" by (rule levels_okD(2))
  then show ?thesis using assms by (auto simp: book_rel_def keys_map_of)
qed

lemma book_rel_best:
  assumes "book_rel ob B"
  shows "best side ob = Some p \<longleftrightarrow> is_best side B p" "best side ob = None \<longleftrightarrow> (\<forall>p. B side p = [])"
proof -
  have ok: "best_ok side (best side ob) (set (keys side ob))"
    using assms by (simp add: book_rel_def book_inv_def keys_ok_def)
  show "best side ob = None \<longleftrightarrow> (\<forall>p. B side p = [])"
    using ok book_rel_keys [OF assms, of _ side] by (cases "best side ob") (auto simp: best_ok_def)
  show "best side ob = Some p \<longleftrightarrow> is_best side B p"
  proof (cases "best side ob")
    case None
    then have "\<forall>q. q \<notin> set (keys side ob)" using ok by (simp add: best_ok_def)
    then show ?thesis using None book_rel_keys [OF assms, of _ side] by (simp add: is_best_def)
  next
    case (Some q)
    then have "is_best side B q" using ok book_rel_keys [OF assms, of _ side] by (cases side) (auto simp: best_ok_def is_best_def)
    then show ?thesis using Some is_best_unique by auto
  qed
qed

text \<open>The loop over the levels: it returns after the best level, or panics when that level is used up.\<close>

lemma match_loop_best:
  assumes inv: "book_inv {r0} ob B" and agg: "aggressor r0 q side ob B" "0 < q" and B: "B side p \<noteq> []" "crosses (ob_heap ob r0) p"
    and fill: "fifo_fill q (B side p) = (ts, rest)"
  shows "\<exists>ob'. match_loop clk r0 (Some p) ob = Some (ob', rest = []) \<and> book_inv {r0} ob' (put_queue side p rest B) \<and>
     aggressor r0 (q - sum_list (map snd ts)) side ob' (put_queue side p rest B) \<and>
     (\<forall>s. keys s ob' = keys s ob) \<and> (\<forall>x. static (ob_heap ob' x) = static (ob_heap ob x)) \<and> ob_onTrade ob' = ob_onTrade ob \<and>
     trades ob' = trades ob @ (if ob_onTrade ob then map (\<lambda>(r, m). trade_between (ob_heap ob r0) (ob_heap ob r) p m) ts else [])"
proof -
  have lv: "levels_ok ob B" using inv by (simp add: book_inv_def)
  obtain pl where pl: "map_of (levels side ob) p = Some pl" "level_at side p ob = pl" "level_ok (ob_heap ob) side p pl (B side p)"
      "pl_Orders pl = head_ref (B side p)"
    by (rule level_of_queue [OF lv B(1)])
  obtain r l xs where hd: "B side p = (r, l) # xs" using B(1) by (cases "B side p") auto
  have r: "pl_Orders pl = Some r" "IsBuy (ob_heap ob r) = side" "pl_Price pl = p"
    using pl(3,4) hd by (simp_all add: head_ref_def level_ok_def level_links_def entry_ok_def)
  have q: "or_LeavesQty (ob_heap ob r0) = q" "IsBuy (ob_heap ob r0) = (\<not> side)"
    using aggressor_leaves [OF agg(1)] agg(1) by (simp_all add: aggressor_def)
  have can: "IsMarket (ob_heap ob r0) \<or> CanMatch (ob_heap ob r0) (zero_Order\<lparr>or_Price := p, or_Side := or_Side (ob_heap ob r)\<rparr>)"
    using B(2) r(2) q(2) by (auto simp: crosses_def CanMatch_def IsBuy_def)
  have it: "it_current (Iterator pl) = head_ref (B side p)" using pl(4) by (simp add: Iterator_def)
  from match_level_fifo [OF inv agg(1) fill it, of clk] obtain ob1 where run:
    "match_level clk r0 side p (Iterator pl) ob = Some ob1" "book_inv {r0} ob1 (put_queue side p rest B)"
    "aggressor r0 (q - sum_list (map snd ts)) side ob1 (put_queue side p rest B)"
    "\<forall>s. keys s ob1 = keys s ob" "\<forall>x. static (ob_heap ob1 x) = static (ob_heap ob x)" "ob_onTrade ob1 = ob_onTrade ob"
    "trades ob1 = trades ob @ (if ob_onTrade ob then map (\<lambda>(r, m). trade_between (ob_heap ob r0) (ob_heap ob r) p m) ts else [])"
    by blast
  have "p \<in> set (keys side ob1)" using run(4) pl(1) by (simp add: keys_map_of)
  then obtain pl1 where pl1: "map_of (levels side ob1) p = Some pl1" by (auto simp: keys_map_of)
  have lv1: "levels_ok ob1 (put_queue side p rest B)" using run(2) by (simp add: book_inv_def)
  have ok1: "level_ok (ob_heap ob1) side p pl1 rest" using levels_okD(1) [OF lv1 pl1] by simp
  have empty: "level_at side p ob1 = pl1" "PriceLevel_IsEmpty pl1 \<longleftrightarrow> rest = []" "rest = [] \<Longrightarrow> pl_Orders pl1 = None"
    using pl1 level_head [OF ok1] by (simp_all add: level_at_def head_ref_def)
  have "match_loop clk r0 (Some p) ob = Some (ob1, rest = [])"
    using can q r agg(2) pl(2) run(1) empty
    by (subst match_loop.simps) (auto simp: Let_def removeEmptyPriceLevel_def)
  then show ?thesis using run by blast
qed

end
