(* ===== verification/MatchingBook.thy ===== *)
theory MatchingBook
  imports MatchingLevels
begin

text \<open>
  The operations of the order book keep the relation of \<^verbatim>\<open>MatchingLevels\<close> and do what the specification says: adding an order that rests,
  that is not kept, or that takes from the best level, and cancelling a resting order. Then the books that a caller can reach, the
  properties, and the defects: an order that uses up the best level panics, cancelling an order that was filled on arrival drops the orders
  that rest at its price, and a bid at a negative price may not be quoted.
\<close>

subsection \<open>Adding an order\<close>

text \<open>What the caller has to respect: the order is not one the book knows, its quantity is positive, the price of a limit order is positive
  and below the largest 64-bit integer, and the sequence numbers are not used up.\<close>

definition add_ok :: "nat \<Rightarrow> OrderBook \<Rightarrow> bool" where
  "add_ok r ob \<longleftrightarrow> r \<notin> ran (ob_orders ob) \<and> 0 < or_Quantity (ob_heap ob r) \<and> or_Quantity (ob_heap ob r) < 2 ^ 63 \<and>
     (IsLimit (ob_heap ob r) \<longrightarrow> 0 < or_Price (ob_heap ob r) \<and> or_Price (ob_heap ob r) < 2 ^ 63 - 1) \<and> ob_sequence ob < - 1"

lemma less_plus_one:
  fixes w :: "'a::len word"
  assumes "w < - 1"
  shows "w < w + 1"
proof -
  have "1 + w \<noteq> 0" using assms by (metis add.commute eq_neg_iff_add_eq_0 less_irrefl)
  then show ?thesis using unatSuc [of w] by (simp add: word_less_nat_alt add.commute)
qed

lemma orders_okI:
  assumes "\<And>r. resting B r \<Longrightarrow> ob_orders ob (or_ID (ob_heap ob r)) = Some r"
    and "\<And>i r. ob_orders ob i = Some r \<Longrightarrow> or_ID (ob_heap ob r) = i \<and> i \<le> ob_sequence ob"
    and "\<And>i r. ob_orders ob i = Some r \<Longrightarrow> r \<notin> X \<Longrightarrow> IsLimit (ob_heap ob r) \<Longrightarrow> 0 < or_LeavesQty (ob_heap ob r) \<Longrightarrow> resting B r"
  shows "orders_ok X ob B"
  using assms by (simp add: orders_ok_def)

lemma orders_okD:
  assumes "orders_ok X ob B"
  shows "resting B r \<Longrightarrow> ob_orders ob (or_ID (ob_heap ob r)) = Some r"
    and "ob_orders ob i = Some r \<Longrightarrow> or_ID (ob_heap ob r) = i \<and> i \<le> ob_sequence ob"
    and "ob_orders ob i = Some r \<Longrightarrow> r \<notin> X \<Longrightarrow> IsLimit (ob_heap ob r) \<Longrightarrow> 0 < or_LeavesQty (ob_heap ob r) \<Longrightarrow> resting B r"
  using assms by (simp_all add: orders_ok_def)

lemma book_inv_heap:
  assumes "book_inv X ob B" "\<And>x. resting B x \<Longrightarrow> h' x = ob_heap ob x" "\<And>x. static (h' x) = static (ob_heap ob x)"
    and "\<And>x. x \<notin> X \<Longrightarrow> or_LeavesQty (h' x) = or_LeavesQty (ob_heap ob x)"
  shows "book_inv X (ob\<lparr>ob_heap := h'\<rparr>) B"
proof -
  have inv: "keys_ok ob" "levels_ok ob B" "orders_ok X ob B" using assms(1) by (simp_all add: book_inv_def)
  have "keys_ok (ob\<lparr>ob_heap := h'\<rparr>)" using inv(1) by (simp add: keys_ok_def)
  moreover have "levels_ok (ob\<lparr>ob_heap := h'\<rparr>) B"
  proof (rule levels_okI)
    fix s q pl assume "map_of (levels s (ob\<lparr>ob_heap := h'\<rparr>)) q = Some pl"
    then have "level_ok (ob_heap ob) s q pl (B s q)" using levels_okD(1) [OF inv(2)] by simp
    then show "level_ok (ob_heap (ob\<lparr>ob_heap := h'\<rparr>)) s q pl (B s q)"
      using level_ok_cong [of "B s q" h' "ob_heap ob"] assms(2) restingI [of _ B s q] by simp
  qed (use levels_okD(2) [OF inv(2)] in simp)
  moreover have "orders_ok X (ob\<lparr>ob_heap := h'\<rparr>) B"
  proof (rule orders_okI)
    show "resting B r" if "ob_orders (ob\<lparr>ob_heap := h'\<rparr>) i = Some r" "r \<notin> X" "IsLimit (ob_heap (ob\<lparr>ob_heap := h'\<rparr>) r)"
      "0 < or_LeavesQty (ob_heap (ob\<lparr>ob_heap := h'\<rparr>) r)" for i r
      using that staticD(8) [OF assms(3)] assms(4) by (intro orders_okD(3) [OF inv(3), of i r]) simp_all
  qed (use orders_okD(1,2) [OF inv(3)] staticD(1) [OF assms(3)] in simp_all)
  ultimately show ?thesis by (simp add: book_inv_def)
qed

lemma book_rel_not_resting:
  assumes "book_rel ob B" "r \<notin> ran (ob_orders ob)"
  shows "\<not> resting B r"
  using assms by (auto simp: book_rel_def book_inv_def orders_ok_def ran_def)

lemma accept_order_inv:
  assumes rel: "book_rel ob B" and ok: "add_ok r ob" and ob1: "ob1 = accept_order clk r ob"
  shows "book_inv {r} ob1 B" "aggressor r (or_Quantity (ob_heap ob r)) (\<not> IsBuy (ob_heap ob r)) ob1 B"
    "levels s ob1 = levels s ob" "keys s ob1 = keys s ob" "best s ob1 = best s ob" "trades ob1 = trades ob" "ob_onTrade ob1 = ob_onTrade ob"
    "ob_heap ob1 r = (ob_heap ob r)\<lparr>or_Status := StatusNew, or_LeavesQty := or_Quantity (ob_heap ob r), or_FilledQty := 0,
                  or_Timestamp := clk (ob_ticks ob), or_ID := ob_sequence ob + 1\<rparr>"
    "x \<noteq> r \<Longrightarrow> ob_heap ob1 x = ob_heap ob x"
proof -
  have r: "\<not> resting B r" using book_rel_not_resting rel ok by (simp add: add_ok_def)
  have inv: "keys_ok ob" "levels_ok ob B" "orders_ok {} ob B" using rel by (simp_all add: book_rel_def book_inv_def)
  show lv: "levels s ob1 = levels s ob" "keys s ob1 = keys s ob" "best s ob1 = best s ob" "trades ob1 = trades ob" "ob_onTrade ob1 = ob_onTrade ob"
    "ob_heap ob1 r = (ob_heap ob r)\<lparr>or_Status := StatusNew, or_LeavesQty := or_Quantity (ob_heap ob r), or_FilledQty := 0,
                  or_Timestamp := clk (ob_ticks ob), or_ID := ob_sequence ob + 1\<rparr>"
    "x \<noteq> r \<Longrightarrow> ob_heap ob1 x = ob_heap ob x" for s x
    by (simp_all add: ob1 accept_order_def Let_def keys_def trades_def)
  show "aggressor r (or_Quantity (ob_heap ob r)) (\<not> IsBuy (ob_heap ob r)) ob1 B"
    using r ok lv(6) by (simp add: aggressor_def order_ok_def add_ok_def IsBuy_def)
  have "keys_ok ob1" using inv(1) lv by (simp add: keys_ok_def)
  moreover have "levels_ok ob1 B"
  proof (rule levels_okI)
    fix s q pl assume "map_of (levels s ob1) q = Some pl"
    then have "level_ok (ob_heap ob) s q pl (B s q)" using levels_okD(1) [OF inv(2)] lv by simp
    moreover have "ob_heap ob1 x = ob_heap ob x" if "x \<in> fst ` set (B s q)" for x
      using that r restingI [of x B s q] by (cases "x = r") (simp_all add: lv(7))
    ultimately show "level_ok (ob_heap ob1) s q pl (B s q)"
      using level_ok_cong [of "B s q" "ob_heap ob1" "ob_heap ob"] by simp
  qed (use levels_okD(2) [OF inv(2)] lv in simp)
  moreover have "orders_ok {r} ob1 B"
  proof (rule orders_okI)
    have seq: "ob_sequence ob1 = ob_sequence ob + 1" "ob_orders ob1 = (ob_orders ob)(ob_sequence ob + 1 \<mapsto> r)"
      "ob_sequence ob < ob_sequence ob + 1"
      using ok less_plus_one [of "ob_sequence ob"] by (simp_all add: ob1 accept_order_def Let_def add_ok_def)
    show "ob_orders ob1 (or_ID (ob_heap ob1 x)) = Some x" if x: "resting B x" for x
    proof -
      note o1 = orders_okD(1) [OF inv(3) x]
      have "x \<noteq> r" using r x by blast
      moreover have "or_ID (ob_heap ob x) \<noteq> ob_sequence ob + 1" using orders_okD(2) [OF inv(3) o1] seq(3) by (metis leD)
      ultimately show ?thesis using o1 seq(2) lv(7) [of x] by simp
    qed
    fix i x assume i: "ob_orders ob1 i = Some x"
    have old: "ob_orders ob i = Some x \<and> x \<noteq> r" if "i \<noteq> ob_sequence ob + 1"
      using i that seq(2) ok by (auto simp: add_ok_def ran_def)
    show "or_ID (ob_heap ob1 x) = i \<and> i \<le> ob_sequence ob1"
      using i old orders_okD(2) [OF inv(3), of i x] seq lv(6) lv(7) [of x] by (cases "i = ob_sequence ob + 1") auto
    show "resting B x" if "x \<notin> {r}" "IsLimit (ob_heap ob1 x)" "0 < or_LeavesQty (ob_heap ob1 x)"
      using that i old orders_okD(3) [OF inv(3), of i x] seq lv(7) [of x] by (cases "i = ob_sequence ob + 1") auto
  qed
  ultimately show "book_inv {r} ob1 B" by (simp add: book_inv_def)
qed

text \<open>The status that \<^verbatim>\<open>matchOrder\<close> leaves in an order that asks for immediate execution.\<close>

lemma matchOrder_status:
  assumes "match_loop clk r (best (\<not> IsBuy (ob_heap ob r)) ob) ob = Some (ob1, False)" "book_inv {r} ob1 B" "\<not> resting B r"
  obtains h' where "matchOrder clk r ob = Some (ob1\<lparr>ob_heap := h'\<rparr>, False)" "book_inv {r} (ob1\<lparr>ob_heap := h'\<rparr>) B"
    "or_LeavesQty (h' r) = or_LeavesQty (ob_heap ob1 r)" "or_FilledQty (h' r) = or_FilledQty (ob_heap ob1 r)"
    "\<forall>x. static (h' x) = static (ob_heap ob1 x)"
proof -
  define o1 where "o1 = ob_heap ob1 r"
  define o2 where "o2 = (if or_TimeInForce o1 = TIFIOC \<and> or_LeavesQty o1 > 0 then o1\<lparr>or_Status := StatusCanceled\<rparr> else o1)"
  define o3 where "o3 = (if or_TimeInForce o2 = TIFFOK \<and> or_FilledQty o2 < or_Quantity o2 then o2\<lparr>or_Status := StatusCanceled\<rparr> else o2)"
  let ?h = "(ob_heap ob1)(r := o3)"
  have st: "static o3 = static (ob_heap ob1 r)" "or_LeavesQty o3 = or_LeavesQty (ob_heap ob1 r)"
      "or_FilledQty o3 = or_FilledQty (ob_heap ob1 r)"
    by (simp_all add: o3_def o2_def o1_def static_def)
  have "matchOrder clk r ob = Some (ob1\<lparr>ob_heap := ?h\<rparr>, False)"
    by (simp only: matchOrder_def assms(1) option.map prod.case if_False Let_def o3_def o2_def o1_def)
  moreover have "book_inv {r} (ob1\<lparr>ob_heap := ?h\<rparr>) B"
    using assms(3) st by (intro book_inv_heap [OF assms(2)]) auto
  ultimately show thesis using that [of ?h] st by simp
qed
text \<open>Adding to the book.\<close>

lemma updateBestPrices_simps [simp]:
  "levels s (updateBestPrices side p ob) = levels s ob" "keys s (updateBestPrices side p ob) = keys s ob"
  "ob_heap (updateBestPrices side p ob) = ob_heap ob" "ob_orders (updateBestPrices side p ob) = ob_orders ob"
  "ob_sequence (updateBestPrices side p ob) = ob_sequence ob" "ob_onTrade (updateBestPrices side p ob) = ob_onTrade ob"
  "trades (updateBestPrices side p ob) = trades ob"
  by (simp_all add: updateBestPrices_def Let_def keys_def trades_def split: option.split)

lemma best_updateBestPrices:
  "best s (updateBestPrices side p ob) =
     (if s = side then
        (case best side ob of
           None \<Rightarrow> Some p
         | Some q \<Rightarrow> if (if side then pl_Price (level_at side p ob) > pl_Price (level_at side q ob)
                        else pl_Price (level_at side p ob) < pl_Price (level_at side q ob)) then Some p else Some q)
      else best s ob)"
  by (cases s; cases side) (simp_all add: updateBestPrices_def best_def Let_def split: option.split)

lemma level_at_price:
  assumes "levels_ok ob B" "p \<in> set (keys side ob)"
  shows "pl_Price (level_at side p ob) = p"
proof -
  obtain pl where "map_of (levels side ob) p = Some pl" using assms(2) by (auto simp: keys_map_of)
  then show ?thesis using levels_okD(1) [OF assms(1), of side p pl] by (simp add: level_at_def level_ok_def level_links_def)
qed

lemma keys_ok_insert:
  assumes "keys_ok ob" "levels_ok ob2 B2"
    and keys: "\<And>s. keys s ob2 = (if s = side \<and> p \<notin> set (keys side ob) then keys s ob @ [p] else keys s ob)"
    and best: "\<And>s. best s ob2 = best s ob"
    and p: "0 < p" "p < 2 ^ 63 - 1" "\<forall>q \<in> set (keys (\<not> side) ob). if side then p < q else q < p"
  shows "keys_ok (updateBestPrices side p ob2)"
proof -
  have set: "set (keys s ob2) = (if s = side then insert p (set (keys s ob)) else set (keys s ob))" for s
    by (auto simp: keys)
  have price: "pl_Price (level_at side q ob2) = q" if "q \<in> insert p (set (keys side ob))" for q
    using level_at_price [OF assms(2), of q side] that set [of side] by simp
  have old: "distinct (keys s ob)" "best_ok s (best s ob) (set (keys s ob))" "\<forall>p \<in> set (keys s ob). 0 < p \<and> p < 2 ^ 63 - 1"
      "\<forall>p \<in> set (keys True ob). \<forall>q \<in> set (keys False ob). p < q" for s
    using assms(1) by (simp_all add: keys_ok_def)
  have "best_ok s (best s (updateBestPrices side p ob2)) (set (keys s ob2))" for s
  proof (cases "s = side")
    case True
    have "\<And>q. best side ob = Some q \<Longrightarrow> q \<in> set (keys side ob)" using old(2) [of side] by (auto simp: best_ok_def)
    then show ?thesis
      using True old(2) [of side] price by (cases "best side ob"; cases side) (auto simp: best_ok_def best_updateBestPrices best set)
  qed (use old(2) set in \<open>simp add: best_updateBestPrices best\<close>)
  moreover have "\<forall>p \<in> set (keys True ob2). \<forall>q \<in> set (keys False ob2). p < q"
    using old(4) p(3) by (cases side) (auto simp: set)
  moreover have "distinct (keys s ob2)" "\<forall>p \<in> set (keys s ob2). 0 < p \<and> p < 2 ^ 63 - 1" for s
    using old(1,3) [of s] p(1,2) by (auto simp: keys)
  ultimately show ?thesis by (simp add: keys_ok_def)
qed
lemma resting_append: "resting (put_queue side p (B side p @ [(r, l)]) B) x \<longleftrightarrow> resting B x \<or> x = r"
proof
  assume "resting (put_queue side p (B side p @ [(r, l)]) B) x"
  then obtain s q where "x \<in> fst ` set (put_queue side p (B side p @ [(r, l)]) B s q)" unfolding resting_def by blast
  then have "x \<in> fst ` set (B s q) \<or> x = r" by (cases "s = side \<and> q = p") auto
  then show "resting B x \<or> x = r" using restingI [of x B s q] by blast
next
  assume "resting B x \<or> x = r"
  then show "resting (put_queue side p (B side p @ [(r, l)]) B) x"
  proof
    assume "resting B x"
    then obtain s q where "x \<in> fst ` set (B s q)" unfolding resting_def by blast
    then have "x \<in> fst ` set (put_queue side p (B side p @ [(r, l)]) B s q)" by (cases "s = side \<and> q = p") auto
    then show ?thesis by (rule restingI)
  qed (rule restingI [of _ _ side p], simp)
qed

lemma addToBook_inv:
  assumes inv: "book_inv {r} ob B" and r: "\<not> resting B r" "entry_ok (ob_heap ob r) side p l" "ob_orders ob (or_ID (ob_heap ob r)) = Some r"
    and p: "0 < p" "p < 2 ^ 63 - 1" "\<forall>q \<in> set (keys (\<not> side) ob). if side then p < q else q < p"
  obtains ob' where "addToBook r ob = Some ob'" "book_inv {} ob' (put_queue side p (B side p @ [(r, l)]) B)" "trades ob' = trades ob"
    "ob_onTrade ob' = ob_onTrade ob" "\<forall>x. static (ob_heap ob' x) = static (ob_heap ob x)"
    "\<forall>s. set (keys s ob') = (if s = side then insert p (set (keys s ob)) else set (keys s ob))"
proof -
  let ?B = "put_queue side p (B side p @ [(r, l)]) B"
  have ok: "keys_ok ob" "levels_ok ob B" "orders_ok {r} ob B" using inv by (simp_all add: book_inv_def)
  define pl0 where "pl0 = (case map_of (levels side ob) p of Some pl \<Rightarrow> pl | None \<Rightarrow> PriceLevelPool_Get p (ob_pool ob))"
  have "level_ok (ob_heap ob) side p pl0 (B side p)"
    using levels_okD [OF ok(2), of side p]
    by (cases "map_of (levels side ob) p") (simp_all add: pl0_def level_ok_def level_links_def PriceLevelPool_Get_def int32_def int64_def)
  moreover have "r \<notin> fst ` set (B side p)" using r(1) restingI [of r B side p] by blast
  ultimately obtain h' pl' where add: "PriceLevel_AddOrder r (ob_heap ob) pl0 = Some (h', pl')"
      "level_ok h' side p pl' (B side p @ [(r, l)])" "same_data (ob_heap ob) h'" "\<forall>x. x \<notin> insert r (fst ` set (B side p)) \<longrightarrow> h' x = ob_heap ob x"
    using r(2) by (rule level_ok_add)
  define ob2 where "ob2 = set_level side p pl' (ob\<lparr>ob_heap := h'\<rparr>)"
  let ?ob = "updateBestPrices side p ob2"
  have buy: "IsBuy (ob_heap ob r) = side" "or_Price (ob_heap ob r) = p" using r(2) by (simp_all add: entry_ok_def)
  then have run: "addToBook r ob = Some ?ob"
    by (simp only: addToBook_def Let_def pl0_def [symmetric] add(1) option.map prod.case ob2_def)
  have clone: "Order_Clone (h' x) = Order_Clone (ob_heap ob x)" for x using add(3) by (simp add: same_data_def)
  have st: "static (h' x) = static (ob_heap ob x)" for x by (rule static_data [OF clone])
  have lv: "levels_ok ?ob ?B" "levels_ok ob2 ?B"
    using add(4) r(1) by (auto intro!: levels_ok_put [OF ok(2), of _ side p pl'] simp: ob2_def add(2))
  have keys: "keys s ob2 = (if s = side \<and> p \<notin> set (keys side ob) then keys s ob @ [p] else keys s ob)" for s
    by (simp add: ob2_def set_level_def keys_def update_keys)
  have "keys_ok ?ob"
    by (rule keys_ok_insert [OF ok(1) lv(2) keys _ p]) (simp add: ob2_def)
  moreover have "orders_ok {} ?ob ?B"
  proof (rule orders_okI)
    have heap: "ob_heap ob2 = h'" "ob_orders ob2 = ob_orders ob" "ob_sequence ob2 = ob_sequence ob" by (simp_all add: ob2_def)
    show "ob_orders ?ob (or_ID (ob_heap ?ob x)) = Some x" if "resting ?B x" for x
      using that orders_okD(1) [OF ok(3), of x] r(3) staticD(1) [OF st, of x] by (auto simp: heap resting_append)
    fix i x assume i: "ob_orders ?ob i = Some x"
    then show "or_ID (ob_heap ?ob x) = i \<and> i \<le> ob_sequence ?ob"
      using orders_okD(2) [OF ok(3), of i x] staticD(1) [OF st, of x] by (simp add: heap)
    assume "IsLimit (ob_heap ?ob x)" "0 < or_LeavesQty (ob_heap ?ob x)"
    then show "resting ?B x"
      using i orders_okD(3) [OF ok(3), of i x] staticD(8) [OF st, of x] clone [of x]
      by (cases "x = r") (simp_all add: heap resting_append Order_Clone_eq)
  qed
  ultimately have "book_inv {} ?ob ?B" using lv(1) by (simp add: book_inv_def)
  moreover have "\<forall>s. set (keys s ?ob) = (if s = side then insert p (set (keys s ob)) else set (keys s ob))"
    by (auto simp: keys)
  ultimately show thesis
    by (intro that [OF run]) (simp_all add: ob2_def st)
qed

text \<open>The order is done with: it is filled, or its type does not rest.\<close>

lemma book_inv_done:
  assumes "book_inv {r} ob B" "IsLimit (ob_heap ob r) \<Longrightarrow> or_LeavesQty (ob_heap ob r) \<le> 0"
  shows "book_inv {} ob B"
proof -
  have ok: "orders_ok {r} ob B" using assms(1) by (simp add: book_inv_def)
  have "orders_ok {} ob B"
  proof (rule orders_okI)
    fix i x assume "ob_orders ob i = Some x" "IsLimit (ob_heap ob x)" "0 < or_LeavesQty (ob_heap ob x)"
    then show "resting B x" using orders_okD(3) [OF ok, of i x] assms(2) by (cases "x = r") auto
  qed (use orders_okD(1,2) [OF ok] in simp_all)
  then show ?thesis using assms(1) by (simp add: book_inv_def)
qed

lemma book_inv_notify [simp]: "book_inv X (notify r ob) B = book_inv X ob B"
  by (simp only: book_inv_def keys_ok_def levels_ok_def orders_ok_def notify_simps)

lemma crosses_cong: "or_Type a = or_Type b \<Longrightarrow> or_Side a = or_Side b \<Longrightarrow> or_Price a = or_Price b \<Longrightarrow> crosses a p = crosses b p"
  by (simp add: crosses_def IsMarket_def IsBuy_def)

lemma canMatchImmediately_iff:
  assumes "book_rel ob B" "\<And>s. levels s ob1 = levels s ob" "\<And>s. best s ob1 = best s ob"
  shows "canMatchImmediately ob1 o1 \<longleftrightarrow> (\<exists>p. is_best (\<not> IsBuy o1) B p \<and> crosses o1 p)"
proof -
  have lv: "levels_ok ob B" using assms(1) by (simp add: book_rel_def book_inv_def)
  have at: "level_at s p ob1 = level_at s p ob" for s p by (simp add: level_at_def assms(2))
  have price: "pl_Price (level_at s p ob1) = p" if "is_best s B p" for s p
    using level_at_price [OF lv, of p s] book_rel_keys [OF assms(1), of p s] that at by (simp add: is_best_def)
  have bst: "best s ob1 = Some p \<longleftrightarrow> is_best s B p" for s p using book_rel_best(1) [OF assms(1)] assms(3) by simp
  have uniq: "is_best s B p \<Longrightarrow> (\<exists>q. is_best s B q \<and> crosses o1 q) \<longleftrightarrow> crosses o1 p" for s p
    using is_best_unique by blast
  have can: "canMatchImmediately ob1 o1 \<longleftrightarrow> (case best (\<not> IsBuy o1) ob1 of None \<Rightarrow> False
      | Some p \<Rightarrow> crosses o1 (pl_Price (level_at (\<not> IsBuy o1) p ob1)))"
    by (cases "IsBuy o1") (auto simp: canMatchImmediately_def crosses_def best_def split: option.split)
  show ?thesis
  proof (cases "best (\<not> IsBuy o1) ob1")
    case None
    then show ?thesis using can bst by (metis option.distinct(1) option.simps(4))
  next
    case (Some p)
    then show ?thesis using can bst [of "\<not> IsBuy o1" p] price uniq [of "\<not> IsBuy o1" p] by simp
  qed
qed

lemma fifo_fill_refs: "fifo_fill q xs = (ts, rest) \<Longrightarrow> fst ` set ts \<subseteq> fst ` set xs \<and> fst ` set rest \<subseteq> fst ` set xs"
proof (induction q xs arbitrary: ts rest rule: fifo_fill.induct)
  case (2 q r l xs)
  obtain ts' rest' where rec: "fifo_fill (q - l) xs = (ts', rest')" by fastforce
  have "fst ` set ts' \<subseteq> fst ` set xs \<and> fst ` set rest' \<subseteq> fst ` set xs" if "0 < q" "l \<le> q"
    using 2(1) [OF _ _ rec] that by simp
  moreover have "ts = [] \<and> rest = (r, l) # xs \<or> ts = [(r, q)] \<and> rest = (r, l - q) # xs \<or>
      0 < q \<and> l \<le> q \<and> ts = (r, l) # ts' \<and> rest = rest'"
    using 2(2) rec by (cases "q \<le> 0"; cases "q < l") auto
  ultimately show ?case by (elim disjE conjE) (simp_all, blast+)
qed simp

text \<open>The report of the trades of an incoming order, which has got the next sequence number as its identifier.\<close>

definition spec_trades :: "OrderBook \<Rightarrow> nat \<Rightarrow> (nat \<times> int) list \<Rightarrow> (64 word \<times> 64 word \<times> int \<times> int) list" where
  "spec_trades ob r ts =
     map (\<lambda>(x, m). trade_between ((ob_heap ob r)\<lparr>or_ID := ob_sequence ob + 1\<rparr>) (ob_heap ob x) (or_Price (ob_heap ob x)) m) ts"

lemma add_matches:
  assumes rel: "book_rel ob B" and ok: "add_ok r ob" and p: "is_best (\<not> IsBuy (ob_heap ob r)) B p" "crosses (ob_heap ob r) p"
    and fill: "fifo_fill (or_Quantity (ob_heap ob r)) (B (\<not> IsBuy (ob_heap ob r)) p) = (ts, rest)" and side: "side = (\<not> IsBuy (ob_heap ob r))"
  shows "\<exists>ob2. match_loop clk r (best side (accept_order clk r ob)) (accept_order clk r ob) = Some (ob2, rest = []) \<and>
     book_inv {r} ob2 (put_queue side p rest B) \<and>
     aggressor r (or_Quantity (ob_heap ob r) - sum_list (map snd ts)) side ob2 (put_queue side p rest B) \<and>
     (\<forall>s. keys s ob2 = keys s ob) \<and> static (ob_heap ob2 r) = static (ob_heap (accept_order clk r ob) r) \<and> ob_onTrade ob2 = ob_onTrade ob \<and>
     trades ob2 = trades ob @ (if ob_onTrade ob then spec_trades ob r ts else [])"
proof -
  define ob1 where "ob1 = accept_order clk r ob"
  note acc = accept_order_inv [OF rel ok ob1_def]
  have q: "0 < or_Quantity (ob_heap ob r)" using ok by (simp add: add_ok_def)
  have B: "B side p \<noteq> []" "crosses (ob_heap ob1 r) p"
    using p crosses_cong [of "ob_heap ob1 r" "ob_heap ob r" p] by (simp_all add: is_best_def side acc(8))
  have best: "best side ob1 = Some p" using book_rel_best(1) [OF rel] p(1) acc(5) by (simp add: side)
  have agg: "aggressor r (or_Quantity (ob_heap ob r)) side ob1 B" "fifo_fill (or_Quantity (ob_heap ob r)) (B side p) = (ts, rest)"
    using acc(2) fill by (simp_all add: side)
  from match_loop_best [OF acc(1) agg(1) q B agg(2), of clk] obtain ob2 where run:
    "match_loop clk r (Some p) ob1 = Some (ob2, rest = [])" "book_inv {r} ob2 (put_queue side p rest B)"
    "aggressor r (or_Quantity (ob_heap ob r) - sum_list (map snd ts)) side ob2 (put_queue side p rest B)"
    "\<forall>s. keys s ob2 = keys s ob1" "\<forall>x. static (ob_heap ob2 x) = static (ob_heap ob1 x)" "ob_onTrade ob2 = ob_onTrade ob1"
    "trades ob2 = trades ob1 @ (if ob_onTrade ob1 then map (\<lambda>(x, m). trade_between (ob_heap ob1 r) (ob_heap ob1 x) p m) ts else [])"
    by blast
  have "trade_between (ob_heap ob1 r) (ob_heap ob1 x) p m =
      trade_between ((ob_heap ob r)\<lparr>or_ID := ob_sequence ob + 1\<rparr>) (ob_heap ob x) (or_Price (ob_heap ob x)) m" if x: "x \<in> fst ` set ts" for x m
  proof -
    have lv: "levels_ok ob B" using rel by (simp add: book_rel_def book_inv_def)
    have x': "x \<in> fst ` set (B side p)" using fifo_fill_refs [OF agg(2)] x by blast
    then have "x \<noteq> r" using acc(2) restingI [of x B side p] by (auto simp: aggressor_def)
    then show ?thesis using levels_ok_entry(1) [OF lv x'] acc(8) acc(9) [of x] by (simp add: trade_between_def IsBuy_def)
  qed
  then have "map (\<lambda>(x, m). trade_between (ob_heap ob1 r) (ob_heap ob1 x) p m) ts = spec_trades ob r ts"
    unfolding spec_trades_def by (intro map_cong) (auto simp: case_prod_unfold)
  then show ?thesis
    using run acc(4,6,7) best by (simp add: ob1_def)
qed

lemma AddOrder_eq:
  assumes "add_ok r ob" "ob1 = accept_order clk r ob"
  shows "OrderBook_AddOrder clk (Some r) ob =
     Option.bind (if IsMarket (ob_heap ob1 r) \<or> canMatchImmediately ob1 (ob_heap ob1 r) then matchOrder clk r ob1 else Some (ob1, False))
       (\<lambda>(ob2, panicked).
          if panicked then Some (ob2, Panicked)
          else map_option (\<lambda>ob3. (notify r ob3, Returned None))
            (if or_LeavesQty (ob_heap ob2 r) > 0 \<and> or_Type (ob_heap ob2 r) = OrderTypeLimit then addToBook r ob2 else Some ob2))"
  using assms by (simp add: OrderBook_AddOrder_def add_ok_def Let_def)

lemma accept_order_cross:
  assumes rel: "book_rel ob B" and ok: "add_ok r ob" and ob1: "ob1 = accept_order clk r ob"
  shows "canMatchImmediately ob1 (ob_heap ob1 r) \<longleftrightarrow> (\<exists>p. is_best (\<not> IsBuy (ob_heap ob r)) B p \<and> crosses (ob_heap ob r) p)"
    "IsBuy (ob_heap ob1 r) = IsBuy (ob_heap ob r)" "IsMarket (ob_heap ob1 r) = IsMarket (ob_heap ob r)"
    "IsLimit (ob_heap ob1 r) = IsLimit (ob_heap ob r)"
proof -
  note acc = accept_order_inv [OF rel ok ob1]
  show same: "IsBuy (ob_heap ob1 r) = IsBuy (ob_heap ob r)" "IsMarket (ob_heap ob1 r) = IsMarket (ob_heap ob r)"
      "IsLimit (ob_heap ob1 r) = IsLimit (ob_heap ob r)"
    by (simp_all add: acc(8) IsBuy_def IsMarket_def IsLimit_def)
  show "canMatchImmediately ob1 (ob_heap ob1 r) \<longleftrightarrow> (\<exists>p. is_best (\<not> IsBuy (ob_heap ob r)) B p \<and> crosses (ob_heap ob r) p)"
    using canMatchImmediately_iff [OF rel acc(3,5), of "ob_heap ob1 r"] crosses_cong [of "ob_heap ob1 r" "ob_heap ob r"]
    by (simp add: same(1)) (simp add: acc(8))
qed

lemma AddOrder_takes:
  assumes rel: "book_rel ob B" and ok: "add_ok r ob" and p: "is_best (\<not> IsBuy (ob_heap ob r)) B p" "crosses (ob_heap ob r) p"
    and fill: "fifo_fill (or_Quantity (ob_heap ob r)) (B (\<not> IsBuy (ob_heap ob r)) p) = (ts, rest)" "rest \<noteq> []"
  shows "\<exists>ob'. OrderBook_AddOrder clk (Some r) ob = Some (ob', Returned None) \<and>
     book_rel ob' (put_queue (\<not> IsBuy (ob_heap ob r)) p rest B) \<and>
     or_LeavesQty (ob_heap ob' r) = 0 \<and> or_FilledQty (ob_heap ob' r) = or_Quantity (ob_heap ob r) \<and> ob_onTrade ob' = ob_onTrade ob \<and>
     trades ob' = trades ob @ (if ob_onTrade ob then spec_trades ob r ts else [])"
proof -
  define side where "side = (\<not> IsBuy (ob_heap ob r))"
  define ob1 where "ob1 = accept_order clk r ob"
  let ?B = "put_queue side p rest B" and ?q = "or_Quantity (ob_heap ob r)"
  note acc = accept_order_inv [OF rel ok ob1_def] and cross = accept_order_cross [OF rel ok ob1_def]
  from add_matches [OF rel ok p fill(1) side_def, of clk] obtain ob2 where run:
    "match_loop clk r (best side ob1) ob1 = Some (ob2, rest = [])" "book_inv {r} ob2 ?B"
    "aggressor r (?q - sum_list (map snd ts)) side ob2 ?B"
    "\<forall>s. keys s ob2 = keys s ob" "static (ob_heap ob2 r) = static (ob_heap ob1 r)" "ob_onTrade ob2 = ob_onTrade ob"
    "trades ob2 = trades ob @ (if ob_onTrade ob then spec_trades ob r ts else [])"
    unfolding ob1_def by blast
  have lv: "levels_ok ob B" using rel by (simp add: book_rel_def book_inv_def)
  obtain pl where "level_ok (ob_heap ob) side p pl (B side p)"
    using level_of_queue [OF lv, of side p] p(1) by (auto simp: is_best_def side_def)
  then have "sum_list (map snd ts) = ?q"
    using fifo_fill_all(1) [OF fill(1)] fill(2) ok by (simp add: level_ok_def entry_ok_def add_ok_def side_def)
  then have r: "order_ok (ob_heap ob2 r) 0" "\<not> resting ?B r" using run(3) by (simp_all add: aggressor_def)
  have loop: "match_loop clk r (best (\<not> IsBuy (ob_heap ob1 r)) ob1) ob1 = Some (ob2, False)"
    using run(1) fill(2) cross(2) by (simp add: side_def)
  obtain h' where m: "matchOrder clk r ob1 = Some (ob2\<lparr>ob_heap := h'\<rparr>, False)" "book_inv {r} (ob2\<lparr>ob_heap := h'\<rparr>) ?B"
      "or_LeavesQty (h' r) = or_LeavesQty (ob_heap ob2 r)" "or_FilledQty (h' r) = or_FilledQty (ob_heap ob2 r)"
      "\<forall>x. static (h' x) = static (ob_heap ob2 x)"
    by (rule matchOrder_status [OF loop run(2) r(2)])
  have l: "or_LeavesQty (h' r) = 0" "or_FilledQty (h' r) = ?q"
    using r(1) m(3,4) staticD(5) [OF run(5)] acc(8) by (simp_all add: order_ok_def)
  then have inv: "book_inv {} (ob2\<lparr>ob_heap := h'\<rparr>) ?B" by (intro book_inv_done [OF m(2)]) simp
  have "OrderBook_AddOrder clk (Some r) ob = Some (notify r (ob2\<lparr>ob_heap := h'\<rparr>), Returned None)"
    using AddOrder_eq [OF ok ob1_def] cross(1) p m(1) l(1) by (auto simp: side_def)
  moreover have "book_rel (notify r (ob2\<lparr>ob_heap := h'\<rparr>)) ?B"
    using inv run(4) rel fill(2) by (auto simp: book_rel_def)
  ultimately show ?thesis using l run(6,7) by (simp add: side_def)
qed

text \<open>An order that uses up the best level never returns: the empty level is dereferenced.\<close>

lemma best_ok_unique: "best_ok s b P \<Longrightarrow> best_ok s b' P \<Longrightarrow> b = b'"
  by (cases s; cases b; cases b') (auto simp: best_ok_def intro: antisym)

lemma AddOrder_exhausts:
  assumes rel: "book_rel ob B" and ok: "add_ok r ob" and p: "is_best (\<not> IsBuy (ob_heap ob r)) B p" "crosses (ob_heap ob r) p"
    and fill: "fifo_fill (or_Quantity (ob_heap ob r)) (B (\<not> IsBuy (ob_heap ob r)) p) = (ts, [])"
  shows "\<exists>ob'. OrderBook_AddOrder clk (Some r) ob = Some (ob', Panicked) \<and> PriceLevel_IsEmpty (level_at (\<not> IsBuy (ob_heap ob r)) p ob') \<and>
     pl_Price (level_at (\<not> IsBuy (ob_heap ob r)) p ob') = p \<and> best (\<not> IsBuy (ob_heap ob r)) ob' = Some p \<and>
     trades ob' = trades ob @ (if ob_onTrade ob then spec_trades ob r ts else [])"
proof -
  define side where "side = (\<not> IsBuy (ob_heap ob r))"
  define ob1 where "ob1 = accept_order clk r ob"
  note cross = accept_order_cross [OF rel ok ob1_def]
  from add_matches [OF rel ok p fill side_def, of clk] obtain ob2 where run:
    "match_loop clk r (best side ob1) ob1 = Some (ob2, True)" "book_inv {r} ob2 (put_queue side p [] B)"
    "\<forall>s. keys s ob2 = keys s ob" "trades ob2 = trades ob @ (if ob_onTrade ob then spec_trades ob r ts else [])"
    unfolding ob1_def by auto
  have "OrderBook_AddOrder clk (Some r) ob = Some (ob2, Panicked)"
    using AddOrder_eq [OF ok ob1_def] cross(1,2) p run(1) by (auto simp: side_def matchOrder_def)
  moreover have "best side ob2 = best side ob"
    using run(2,3) rel by (intro best_ok_unique [of side _ "set (keys side ob)"]) (simp_all add: book_rel_def book_inv_def keys_ok_def)
  moreover have "best side ob = Some p" using book_rel_best(1) [OF rel] p(1) by (simp add: side_def)
  moreover have "PriceLevel_IsEmpty (level_at side p ob2) \<and> pl_Price (level_at side p ob2) = p"
  proof -
    have "p \<in> set (keys side ob2)" using run(3) book_rel_keys [OF rel, of p side] p(1) by (simp add: is_best_def side_def)
    then obtain pl where pl: "map_of (levels side ob2) p = Some pl" by (auto simp: keys_map_of)
    have lv: "levels_ok ob2 (put_queue side p [] B)" using run(2) by (simp add: book_inv_def)
    from level_head(2) [OF levels_okD(1) [OF lv pl]] levels_okD(1) [OF lv pl] pl show ?thesis
      by (simp add: level_at_def level_ok_def level_links_def)
  qed
  ultimately show ?thesis using run(4) by (simp add: side_def)
qed

lemma no_cross_keys:
  assumes rel: "book_rel ob B" and no: "\<And>p. is_best (\<not> IsBuy o1) B p \<Longrightarrow> \<not> crosses o1 p"
  shows "\<forall>q \<in> set (keys (\<not> IsBuy o1) ob). if IsBuy o1 then or_Price o1 < q else q < or_Price o1"
proof
  fix q assume q: "q \<in> set (keys (\<not> IsBuy o1) ob)"
  have ok: "best_ok (\<not> IsBuy o1) (best (\<not> IsBuy o1) ob) (set (keys (\<not> IsBuy o1) ob))"
    using rel by (simp add: book_rel_def book_inv_def keys_ok_def)
  then obtain p where p: "best (\<not> IsBuy o1) ob = Some p" using q by (cases "best (\<not> IsBuy o1) ob") (auto simp: best_ok_def)
  then have "\<not> crosses o1 p" using no book_rel_best(1) [OF rel] by simp
  then show "if IsBuy o1 then or_Price o1 < q else q < or_Price o1"
    using ok p q by (cases "IsBuy o1") (auto simp: best_ok_def crosses_def)
qed

lemma AddOrder_rests:
  assumes rel: "book_rel ob B" and ok: "add_ok r ob" and no: "\<And>p. is_best (\<not> IsBuy (ob_heap ob r)) B p \<Longrightarrow> \<not> crosses (ob_heap ob r) p"
    and lim: "IsLimit (ob_heap ob r)" and side: "side = IsBuy (ob_heap ob r)" and p: "p = or_Price (ob_heap ob r)"
  shows "\<exists>ob'. OrderBook_AddOrder clk (Some r) ob = Some (ob', Returned None) \<and>
     book_rel ob' (put_queue side p (B side p @ [(r, or_Quantity (ob_heap ob r))]) B) \<and> trades ob' = trades ob \<and> ob_onTrade ob' = ob_onTrade ob"
proof -
  define ob1 where "ob1 = accept_order clk r ob"
  let ?B = "put_queue side p (B side p @ [(r, or_Quantity (ob_heap ob r))]) B"
  note acc = accept_order_inv [OF rel ok ob1_def] and cross = accept_order_cross [OF rel ok ob1_def]
  have r: "\<not> resting B r" "order_ok (ob_heap ob1 r) (or_Quantity (ob_heap ob r))" using acc(2) by (simp_all add: aggressor_def)
  have "\<not> IsMarket (ob_heap ob r)" using lim by (simp add: IsLimit_def IsMarket_def OrderTypeLimit_def OrderTypeMarket_def)
  then have stay: "\<not> (IsMarket (ob_heap ob1 r) \<or> canMatchImmediately ob1 (ob_heap ob1 r))"
    using cross(1,3) no by auto
  have q: "0 < or_Quantity (ob_heap ob r)" "0 < p" "p < 2 ^ 63 - 1" using ok lim by (simp_all add: add_ok_def p)
  have entry: "entry_ok (ob_heap ob1 r) side p (or_Quantity (ob_heap ob r))"
    using r(2) q(1) cross(2,4) lim acc(8) by (simp add: entry_ok_def side p)
  have "ob_orders ob1 (or_ID (ob_heap ob1 r)) = Some r"
    by (simp add: ob1_def accept_order_def Let_def)
  moreover have "\<forall>q \<in> set (keys (\<not> side) ob1). if side then p < q else q < p"
    unfolding side p acc(4) by (rule no_cross_keys [OF rel no])
  ultimately obtain ob' where add: "addToBook r ob1 = Some ob'" "book_inv {} ob' ?B" "trades ob' = trades ob1" "ob_onTrade ob' = ob_onTrade ob1"
      "\<forall>x. static (ob_heap ob' x) = static (ob_heap ob1 x)"
      "\<forall>s. set (keys s ob') = (if s = side then insert p (set (keys s ob1)) else set (keys s ob1))"
    using addToBook_inv [OF acc(1) r(1) entry _ q(2,3)] by metis
  have "or_LeavesQty (ob_heap ob1 r) > 0 \<and> or_Type (ob_heap ob1 r) = OrderTypeLimit"
    using q(1) lim by (simp add: acc(8) IsLimit_def)
  then have "OrderBook_AddOrder clk (Some r) ob = Some (notify r ob', Returned None)"
    using AddOrder_eq [OF ok ob1_def] stay add(1) by simp
  moreover have "book_rel (notify r ob') ?B"
    using add(2,6) acc(4) book_rel_keys [OF rel] by (auto simp: book_rel_def)
  ultimately show ?thesis using add(3,4) acc(6,7) by simp
qed

lemma AddOrder_not_kept:
  assumes rel: "book_rel ob B" and ok: "add_ok r ob" and no: "\<And>p. is_best (\<not> IsBuy (ob_heap ob r)) B p \<Longrightarrow> \<not> crosses (ob_heap ob r) p"
    and lim: "\<not> IsLimit (ob_heap ob r)"
  shows "\<exists>ob'. OrderBook_AddOrder clk (Some r) ob = Some (ob', Returned None) \<and> book_rel ob' B \<and> trades ob' = trades ob \<and>
     ob_onTrade ob' = ob_onTrade ob"
proof -
  define ob1 where "ob1 = accept_order clk r ob"
  note acc = accept_order_inv [OF rel ok ob1_def] and cross = accept_order_cross [OF rel ok ob1_def]
  have keeps: "\<exists>h'. (if IsMarket (ob_heap ob1 r) \<or> canMatchImmediately ob1 (ob_heap ob1 r) then matchOrder clk r ob1 else Some (ob1, False)) =
      Some (ob1\<lparr>ob_heap := h'\<rparr>, False) \<and> book_inv {r} (ob1\<lparr>ob_heap := h'\<rparr>) B \<and> static (h' r) = static (ob_heap ob1 r)"
  proof (cases "IsMarket (ob_heap ob r)")
    case True
    then have "best (\<not> IsBuy (ob_heap ob r)) ob = None"
      using no book_rel_best(1) [OF rel] by (cases "best (\<not> IsBuy (ob_heap ob r)) ob") (auto simp: crosses_def)
    then have "match_loop clk r (best (\<not> IsBuy (ob_heap ob1 r)) ob1) ob1 = Some (ob1, False)"
      using cross(2) acc(5) by (subst match_loop.simps) simp
    then show ?thesis
      using matchOrder_status [of clk r ob1 ob1 B] acc(1,2) True cross(3) by (metis aggressor_def)
  next
    case False
    then have "\<not> (IsMarket (ob_heap ob1 r) \<or> canMatchImmediately ob1 (ob_heap ob1 r))" using cross(1,3) no by auto
    then show ?thesis using acc(1) by (intro exI [of _ "ob_heap ob1"]) simp
  qed
  then obtain h' where h': "(if IsMarket (ob_heap ob1 r) \<or> canMatchImmediately ob1 (ob_heap ob1 r) then matchOrder clk r ob1 else Some (ob1, False)) =
      Some (ob1\<lparr>ob_heap := h'\<rparr>, False)" "book_inv {r} (ob1\<lparr>ob_heap := h'\<rparr>) B" "static (h' r) = static (ob_heap ob1 r)"
    by blast
  have type: "\<not> IsLimit (h' r)" using staticD(8) [OF h'(3)] lim cross(4) by simp
  then have inv: "book_inv {} (ob1\<lparr>ob_heap := h'\<rparr>) B" by (intro book_inv_done [OF h'(2)]) simp
  have "OrderBook_AddOrder clk (Some r) ob = Some (notify r (ob1\<lparr>ob_heap := h'\<rparr>), Returned None)"
    using AddOrder_eq [OF ok ob1_def] h'(1) type by (simp add: IsLimit_def)
  moreover have "book_rel (notify r (ob1\<lparr>ob_heap := h'\<rparr>)) B"
    using inv acc(4) rel by (simp add: book_rel_def)
  ultimately show ?thesis using acc(6,7) by simp
qed

text \<open>The three cases together.\<close>

lemma AddOrder_refines:
  assumes "book_rel ob B" "add_ok r ob" "spec_add B r (ob_heap ob r) B' ts"
  shows "\<exists>ob'. OrderBook_AddOrder clk (Some r) ob = Some (ob', Returned None) \<and> book_rel ob' B' \<and> ob_onTrade ob' = ob_onTrade ob \<and>
     trades ob' = trades ob @ (if ob_onTrade ob then spec_trades ob r ts else [])"
  using assms(3)
proof cases
  case rests
  then show ?thesis using AddOrder_rests [OF assms(1,2) rests(3,4) refl refl, of clk] by (auto simp: spec_trades_def)
next
  case not_kept
  then show ?thesis using AddOrder_not_kept [OF assms(1,2) not_kept(3,4), of clk] by (auto simp: spec_trades_def)
next
  case (takes p rest)
  then show ?thesis using AddOrder_takes [OF assms(1,2) takes(2-5), of clk] by auto
qed

subsection \<open>Cancelling an order\<close>

lemma scan_bids_best:
  assumes "\<forall>(k, pl) \<in> set ls. pl_Price pl = k \<and> \<not> PriceLevel_IsEmpty pl"
  shows "(\<forall>k \<in> fst ` set ls. k \<le> m) \<and> scan_bids ls m b = b \<or>
     (\<exists>k \<in> fst ` set ls. scan_bids ls m b = Some k \<and> m < k \<and> (\<forall>q \<in> fst ` set ls. q \<le> k))"
  using assms
proof (induction ls m b rule: scan_bids.induct)
  case (2 k pl ls m b)
  then show ?case by (cases "k > m") auto
qed simp

lemma scan_asks_best:
  assumes "\<forall>(k, pl) \<in> set ls. pl_Price pl = k \<and> \<not> PriceLevel_IsEmpty pl"
  shows "(\<forall>k \<in> fst ` set ls. m \<le> k) \<and> scan_asks ls m b = b \<or>
     (\<exists>k \<in> fst ` set ls. scan_asks ls m b = Some k \<and> k < m \<and> (\<forall>q \<in> fst ` set ls. k \<le> q))"
  using assms
proof (induction ls m b rule: scan_asks.induct)
  case (2 k pl ls m b)
  then show ?case by (cases "k < m") auto
qed simp

lemma scan_best_ok:
  assumes "\<forall>(k, pl) \<in> set ls. pl_Price pl = k \<and> \<not> PriceLevel_IsEmpty pl" "\<forall>k \<in> fst ` set ls. 0 < k \<and> k < 2 ^ 63 - 1"
  shows "best_ok True (scan_bids ls 0 None) (fst ` set ls)" "best_ok False (scan_asks ls (2 ^ 63 - 1) None) (fst ` set ls)"
proof -
  have bid: "best_ok True b K" if "(\<forall>k \<in> K. k \<le> 0) \<and> b = None \<or> (\<exists>k \<in> K. b = Some k \<and> 0 < k \<and> (\<forall>q \<in> K. q \<le> k))" "\<forall>k \<in> K. 0 < k" for b K
    using that by (cases b) (fastforce simp: best_ok_def)+
  have ask: "best_ok False b K" if "(\<forall>k \<in> K. m \<le> k) \<and> b = None \<or> (\<exists>k \<in> K. b = Some k \<and> k < m \<and> (\<forall>q \<in> K. k \<le> q))" "\<forall>k \<in> K. k < m" for b K m
    using that by (cases b) (fastforce simp: best_ok_def)+
  show "best_ok True (scan_bids ls 0 None) (fst ` set ls)"
    by (rule bid [OF scan_bids_best [OF assms(1)]]) (use assms(2) in blast)
  show "best_ok False (scan_asks ls (2 ^ 63 - 1) None) (fst ` set ls)"
    by (rule ask [OF scan_asks_best [OF assms(1)]]) (use assms(2) in blast)
qed

definition rescan :: "bool \<Rightarrow> OrderBook \<Rightarrow> OrderBook" where
  "rescan buy ob = (if buy then updateBestBid ob else updateBestAsk ob)"

lemma rescan_simps [simp]:
  "levels s (rescan buy ob) = levels s ob" "ob_heap (rescan buy ob) = ob_heap ob" "ob_orders (rescan buy ob) = ob_orders ob"
  "ob_sequence (rescan buy ob) = ob_sequence ob" "trades (rescan buy ob) = trades ob" "ob_onTrade (rescan buy ob) = ob_onTrade ob"
  by (simp_all add: rescan_def updateBestBid_def updateBestAsk_def trades_def)

lemma best_rescan: "best s (rescan buy ob) =
   (if s = buy then (if buy then scan_bids (levels True ob) 0 None else scan_asks (levels False ob) (2 ^ 63 - 1) None) else best s ob)"
  by (cases s; cases buy) (simp_all add: rescan_def updateBestBid_def updateBestAsk_def best_def levels_def)

lemma book_inv_cong:
  assumes "\<And>s. levels s ob' = levels s ob \<and> best s ob' = best s ob" "ob_heap ob' = ob_heap ob" "ob_orders ob' = ob_orders ob"
    "ob_sequence ob' = ob_sequence ob"
  shows "book_inv X ob' B = book_inv X ob B"
proof -
  have "keys s ob' = keys s ob" for s using assms(1) by (simp add: keys_def)
  then show ?thesis using assms by (simp only: book_inv_def keys_ok_def levels_ok_def orders_ok_def)
qed

lemma book_inv_delete:
  assumes inv: "book_inv X ob B" and B: "B side p = []" "\<And>q. q \<in> set (keys side ob) \<Longrightarrow> q \<noteq> p \<Longrightarrow> B side q \<noteq> []"
    and ob': "\<And>s. levels s ob' = (if s = side then AList.delete p (levels side ob) else levels s ob)"
      "\<And>s. best s ob' = (if s = side then (if side then scan_bids (levels True ob') 0 None else scan_asks (levels False ob') (2 ^ 63 - 1) None) else best s ob)"
      "ob_heap ob' = ob_heap ob" "ob_orders ob' = ob_orders ob" "ob_sequence ob' = ob_sequence ob"
  shows "book_inv X ob' B" "set (keys s ob') = (if s = side then set (keys s ob) - {p} else set (keys s ob))"
proof -
  have ok: "keys_ok ob" "levels_ok ob B" "orders_ok X ob B" using inv by (simp_all add: book_inv_def)
  have map: "map_of (levels s ob') q = (if s = side \<and> q = p then None else map_of (levels s ob) q)" for s q
    by (simp add: ob'(1) delete_conv')
  show keys: "set (keys s ob') = (if s = side then set (keys s ob) - {p} else set (keys s ob))" for s
    using delete_keys [of p "levels side ob"] by (auto simp: keys_def ob'(1) set_map [symmetric] simp del: set_map)
  have lv: "levels_ok ob' B"
  proof (rule levels_okI)
    show "level_ok (ob_heap ob') s q pl (B s q)" if "map_of (levels s ob') q = Some pl" for s q pl
      using that map [of s q] levels_okD(1) [OF ok(2), of s q pl] ob'(3) by (simp split: if_splits)
    show "B s q = []" if "map_of (levels s ob') q = None" for s q
      using that map [of s q] levels_okD(2) [OF ok(2), of s q] B(1) by (auto split: if_splits)
  qed
  have dist: "distinct (keys s ob')" for s
    using ok(1) by (simp add: keys_ok_def keys_def ob'(1) distinct_delete)
  have range: "\<forall>k \<in> set (keys s ob'). 0 < k \<and> k < 2 ^ 63 - 1" for s
    using ok(1) keys by (auto simp: keys_ok_def split: if_splits)
  have full: "\<forall>(k, pl) \<in> set (levels side ob'). pl_Price pl = k \<and> \<not> PriceLevel_IsEmpty pl"
  proof (clarify)
    fix k pl assume k: "(k, pl) \<in> set (levels side ob')"
    then have m: "map_of (levels side ob') k = Some pl" using dist [of side] by (simp add: keys_def)
    note lvk = levels_okD(1) [OF lv m]
    have "k \<in> set (keys side ob')" using m by (simp add: keys_map_of)
    then have "B side k \<noteq> []" using keys B(2) by auto
    then show "pl_Price pl = k \<and> \<not> PriceLevel_IsEmpty pl"
      using level_head(2) [OF lvk] lvk by (simp add: level_ok_def level_links_def)
  qed
  have "best_ok s (best s ob') (set (keys s ob'))" for s
  proof (cases "s = side")
    case True
    have "\<forall>k \<in> fst ` set (levels side ob'). 0 < k \<and> k < 2 ^ 63 - 1" using range [of side] by (simp add: keys_def)
    note scan = scan_best_ok [OF full this]
    show ?thesis using True scan by (cases side) (simp_all add: ob'(2) keys_def)
  next
    case False
    then show ?thesis using ok(1) keys [of s] ob'(2) [of s] by (simp add: keys_ok_def)
  qed
  moreover have "\<forall>p \<in> set (keys True ob'). \<forall>q \<in> set (keys False ob'). p < q"
    using ok(1) keys by (auto simp: keys_ok_def split: if_splits)
  ultimately have "keys_ok ob'" using dist range by (simp add: keys_ok_def)
  moreover have "orders_ok X ob' B" using ok(3) ob'(3-5) by (simp add: orders_ok_def)
  ultimately show "book_inv X ob' B" using lv by (simp add: book_inv_def)
qed

lemma delete_update_same: "AList.delete k (AList.update k v al) = AList.delete k al"
  by (induction al) (auto simp: AList.delete_eq)

lemma filter_fst_neq: "r \<notin> fst ` set xs \<Longrightarrow> filter (\<lambda>x. fst x \<noteq> r) xs = xs"
  by (induction xs) auto

lemma static_Status [simp]: "static (o1\<lparr>or_Status := v\<rparr>) = static o1"
  by (simp add: static_def)

lemma spec_cancel_put:
  assumes "levels_ok ob B" "B side p = as @ (r, l) # bs"
  shows "spec_cancel r B = put_queue side p (as @ bs) B"
proof (intro ext)
  fix s q
  have dist: "distinct (map fst (B side p))"
    using levels_okD [OF assms(1), of side p] assms(2) by (cases "map_of (levels side ob) p") (auto simp: level_ok_def level_links_def)
  show "spec_cancel r B s q = put_queue side p (as @ bs) B s q"
  proof (cases "s = side \<and> q = p")
    case True
    then show ?thesis using dist by (simp add: spec_cancel_def assms(2) filter_fst_neq)
  next
    case False
    have "r \<in> fst ` set (B side p)" by (simp add: assms(2))
    then have "r \<notin> fst ` set (B s q)"
      using False levels_ok_entry(1,2) [OF assms(1), of r s q] levels_ok_entry(1,2) [OF assms(1), of r side p] by auto
    then show ?thesis using False by (auto simp: spec_cancel_def filter_fst_neq)
  qed
qed

lemma cancel_unlinks:
  assumes rel: "book_rel ob B" and i: "ob_orders ob i = Some r" and B: "B side p = as @ (r, l) # bs" and pl: "map_of (levels side ob) p = Some pl"
  obtains h' pl' where "PriceLevel_RemoveOrder r (ob_heap ob) pl = (h', pl', as @ bs = [])"
    "book_inv {} (set_level side p pl' (ob\<lparr>ob_heap := h'(r := (h' r)\<lparr>or_Status := StatusCanceled\<rparr>), ob_orders := (ob_orders ob)(i := None)\<rparr>))
       (put_queue side p (as @ bs) B)"
proof -
  have ok: "levels_ok ob B" "orders_ok {} ob B" "book_inv {} ob B" using rel by (simp_all add: book_rel_def book_inv_def)
  have lv: "level_ok (ob_heap ob) side p pl (as @ (r, l) # bs)" using levels_okD(1) [OF ok(1) pl] B by simp
  obtain h' pl' where rem: "PriceLevel_RemoveOrder r (ob_heap ob) pl = (h', pl', as @ bs = [])" "level_ok h' side p pl' (as @ bs)"
      "same_data (ob_heap ob) h'" "\<forall>x. x \<notin> fst ` set (as @ (r, l) # bs) \<longrightarrow> h' x = ob_heap ob x"
    by (rule level_ok_remove [OF lv])
  define h2 where "h2 = h'(r := (h' r)\<lparr>or_Status := StatusCanceled\<rparr>)"
  define ob1 where "ob1 = set_level side p pl' (ob\<lparr>ob_heap := h2, ob_orders := (ob_orders ob)(i := None)\<rparr>)"
  have st: "static (h2 x) = static (ob_heap ob x)" for x
  proof -
    have "Order_Clone (h' x) = Order_Clone (ob_heap ob x)" using rem(3) by (simp add: same_data_def)
    then show ?thesis using static_data [of "h' x" "ob_heap ob x"] by (cases "x = r") (simp_all add: h2_def)
  qed
  have dist: "r \<notin> fst ` set (as @ bs)" using lv by (auto simp: level_ok_def level_links_def)
  have "h2 x = h' x" if "x \<in> fst ` set (as @ bs)" for x using that dist by (cases "x = r") (simp_all add: h2_def)
  then have lv2: "level_ok h2 side p pl' (as @ bs)"
    using rem(2) level_ok_cong [of "as @ bs" h2 h'] by blast
  have id: "or_ID (ob_heap ob r) = i" using orders_okD(2) [OF ok(2) i] by simp
  have sub: "fst ` set (as @ bs) \<subseteq> fst ` set (B side p)" "fst ` set (B side p) - fst ` set (as @ bs) = {r}"
    using dist by (auto simp: B)
  have "p \<in> set (keys side ob)" using pl by (simp add: keys_map_of)
  then have "book_inv {} ob1 (put_queue side p (as @ bs) B)"
  proof (intro book_inv_put [OF ok(3) sub(1)])
    show "level_ok (ob_heap ob1) side p pl' (as @ bs)" using lv2 by (simp add: ob1_def)
    show "or_ID (ob_heap ob1 x) = or_ID (ob_heap ob x) \<and> IsLimit (ob_heap ob1 x) = IsLimit (ob_heap ob x)" for x
      using staticD(1,8) [OF st, of x] by (simp add: ob1_def)
    show "ob_heap ob1 x = ob_heap ob x" if "x \<notin> fst ` set (B side p)" for x
      using that rem(4) by (auto simp: ob1_def h2_def B)
    show "ob_orders ob1 j = (if j \<in> (or_ID \<circ> ob_heap ob) ` (fst ` set (B side p) - fst ` set (as @ bs)) then None else ob_orders ob j)" for j
      unfolding sub(2) using id by (simp add: ob1_def)
  qed (simp_all add: ob1_def keys_set_level)
  then show thesis using that [OF rem(1)] by (simp add: ob1_def h2_def)
qed

lemma CancelOrder_refines:
  assumes rel: "book_rel ob B" and i: "ob_orders ob i = Some r" "resting B r"
  shows "\<exists>ob'. CancelOrder i ob = (ob', None) \<and> book_rel ob' (spec_cancel r B) \<and> or_Status (ob_heap ob' r) = StatusCanceled \<and>
     ob_orders ob' i = None \<and> trades ob' = trades ob \<and> ob_onTrade ob' = ob_onTrade ob"
proof -
  have ok: "levels_ok ob B" using rel by (simp add: book_rel_def book_inv_def)
  obtain side p where rB: "r \<in> fst ` set (B side p)" using i(2) unfolding resting_def by blast
  note entry = levels_ok_entry [OF ok rB]
  obtain pl where pl: "map_of (levels side ob) p = Some pl" using entry(3) by (auto simp: keys_map_of)
  obtain as l bs where B: "B side p = as @ (r, l) # bs" using rB by (auto simp: in_set_conv_decomp)
  obtain h' pl' where rem: "PriceLevel_RemoveOrder r (ob_heap ob) pl = (h', pl', as @ bs = [])" and
      inv1: "book_inv {} (set_level side p pl' (ob\<lparr>ob_heap := h'(r := (h' r)\<lparr>or_Status := StatusCanceled\<rparr>), ob_orders := (ob_orders ob)(i := None)\<rparr>))
        (put_queue side p (as @ bs) B)"
    by (rule cancel_unlinks [OF rel i(1) B pl])
  define h2 where "h2 = h'(r := (h' r)\<lparr>or_Status := StatusCanceled\<rparr>)"
  define ob1 where "ob1 = set_level side p pl' (ob\<lparr>ob_heap := h2, ob_orders := (ob_orders ob)(i := None)\<rparr>)"
  note inv1 = inv1 [folded h2_def, folded ob1_def]
  have cancel: "CancelOrder i ob = (notify r (ob2\<lparr>ob_heap := h2, ob_orders := (ob_orders ob)(i := None)\<rparr>), None)"
    if "removeFromBook r ob = ob2" "ob_heap ob2 = h'" "ob_orders ob2 = ob_orders ob" for ob2
    using that i(1) by (simp add: CancelOrder_def Let_def h2_def)
  have rfb: "removeFromBook r ob =
      (if as @ bs = [] then rescan side ((set_levels side (AList.delete p (levels side ob)) (ob\<lparr>ob_heap := h'\<rparr>))\<lparr>ob_pool := PriceLevelPool_Put pl'\<rparr>)
       else set_level side p pl' (ob\<lparr>ob_heap := h'\<rparr>))"
    using rem pl entry(1,2) by (simp add: removeFromBook_def Let_def rescan_def)
  define ob2 where "ob2 = (removeFromBook r ob)\<lparr>ob_heap := h2, ob_orders := (ob_orders ob)(i := None)\<rparr>"
  have run: "CancelOrder i ob = (notify r ob2, None)"
    using cancel [OF refl] by (simp add: ob2_def rfb)
  have rest: "ob_heap ob2 = h2" "ob_orders ob2 i = None" "trades ob2 = trades ob" "ob_onTrade ob2 = ob_onTrade ob"
    by (simp_all add: ob2_def rfb trades_def rescan_def updateBestBid_def updateBestAsk_def)
  have keys1: "keys s ob1 = keys s ob" for s using entry(3) by (simp add: ob1_def keys_set_level)
  have others: "put_queue side p (as @ bs) B s q \<noteq> []" if "q \<in> set (keys s ob)" "\<not> (s = side \<and> q = p)" for s q
    using that book_rel_keys [OF rel, of q s] by auto
  have "book_rel ob2 (put_queue side p (as @ bs) B)"
  proof (cases "as @ bs = []")
    case True
    have lvs: "levels s ob2 = (if s = side then AList.delete p (levels side ob1) else levels s ob1)" for s
      using True by (simp add: ob2_def rfb ob1_def set_level_def delete_update_same)
    have "best s ob2 = (if s = side then (if side then scan_bids (levels True ob2) 0 None else scan_asks (levels False ob2) (2 ^ 63 - 1) None)
        else best s ob1)" for s
      using True by (simp add: ob2_def rfb ob1_def best_rescan)
    note del = book_inv_delete [OF inv1 _ _ lvs this]
    have "book_inv {} ob2 (put_queue side p (as @ bs) B)"
      using True others [of _ side] keys1 by (intro del(1)) (simp_all add: ob2_def rfb ob1_def)
    moreover have keys2: "set (keys s ob2) = (if s = side then set (keys s ob1) - {p} else set (keys s ob1))" for s
      using True others [of _ side] keys1 by (intro del(2)) (simp_all add: ob2_def rfb ob1_def)
    have "put_queue side p (as @ bs) B s q \<noteq> []" if "q \<in> set (keys s ob2)" for s q
      by (rule others) (use that keys1 keys2 in \<open>auto split: if_splits\<close>)
    ultimately show ?thesis unfolding book_rel_def by blast
  next
    case False
    then have rfb2: "removeFromBook r ob = set_level side p pl' (ob\<lparr>ob_heap := h'\<rparr>)" by (simp only: rfb if_False)
    have "book_inv {} ob2 (put_queue side p (as @ bs) B) = book_inv {} ob1 (put_queue side p (as @ bs) B)"
      by (intro book_inv_cong) (simp_all add: ob2_def rfb2 ob1_def set_level_def)
    moreover have "keys s ob2 = keys s ob" for s using entry(3) by (simp add: ob2_def rfb2 keys_set_level)
    moreover have "put_queue side p (as @ bs) B s q \<noteq> []" if "q \<in> set (keys s ob)" for s q
      using others [OF that] False by (cases "s = side \<and> q = p") auto
    ultimately show ?thesis using inv1 unfolding book_rel_def by metis
  qed
  then show ?thesis
    using run rest spec_cancel_put [OF ok B] by (simp add: book_rel_def h2_def)
qed

subsection \<open>Reachable books\<close>

text \<open>
  The steps of a caller that uses the book as intended: it sets the callbacks, prepares orders that the book does not know,
  adds orders, and cancels limit orders that are still open. A call that panics is not a step.
\<close>

definition book_init :: "OrderBook \<Rightarrow> bool" where
  "book_init ob \<longleftrightarrow> (\<exists>symbol symbolID h. ob = NewOrderBook symbol symbolID h)"

inductive book_step :: "(nat \<Rightarrow> int) \<Rightarrow> OrderBook \<Rightarrow> OrderBook \<Rightarrow> bool" for clk where
  callbacks: "book_step clk ob (SetCallbacks onTrade onOrderUpdate ob)"
| prepare: "r \<notin> ran (ob_orders ob) \<Longrightarrow> book_step clk ob (ob\<lparr>ob_heap := (ob_heap ob)(r := o1)\<rparr>)"
| add: "add_ok r ob \<Longrightarrow> OrderBook_AddOrder clk (Some r) ob = Some (ob', Returned e) \<Longrightarrow> book_step clk ob ob'"
| cancel: "ob_orders ob i = Some r \<Longrightarrow> IsLimit (ob_heap ob r) \<Longrightarrow> 0 < or_LeavesQty (ob_heap ob r) \<Longrightarrow>
     CancelOrder i ob = (ob', e) \<Longrightarrow> book_step clk ob ob'"

text \<open>A specified addition exists unless the best level would be used up.\<close>

lemma spec_add_cases:
  assumes "book_rel ob B"
  obtains (spec) B' ts where "spec_add B r o1 B' ts"
  | (exhausts) p ts where "is_best (\<not> IsBuy o1) B p" "crosses o1 p" "fifo_fill (or_Quantity o1) (B (\<not> IsBuy o1) p) = (ts, [])"
proof (cases "\<exists>p. is_best (\<not> IsBuy o1) B p \<and> crosses o1 p")
  case True
  then obtain p ts rest where "is_best (\<not> IsBuy o1) B p" "crosses o1 p" "fifo_fill (or_Quantity o1) (B (\<not> IsBuy o1) p) = (ts, rest)"
    by (metis prod.exhaust)
  then show thesis using exhausts spec spec_add.takes [of o1 B p ts rest r] by (cases "rest = []") auto
next
  case False
  then show thesis
    using spec spec_add.rests [of o1 B r] spec_add.not_kept [of o1 B r] by (cases "IsLimit o1") blast+
qed

lemma book_rel_new: "book_rel (NewOrderBook symbol symbolID h) (\<lambda>_ _. [])"
  by (simp add: book_rel_def book_inv_def keys_ok_def levels_ok_def orders_ok_def NewOrderBook_def keys_def levels_def best_def best_ok_def resting_def)

lemma book_rel_cong:
  assumes "\<And>s. levels s ob' = levels s ob \<and> best s ob' = best s ob" "ob_heap ob' = ob_heap ob" "ob_orders ob' = ob_orders ob"
    "ob_sequence ob' = ob_sequence ob"
  shows "book_rel ob' B = book_rel ob B"
  using book_inv_cong [OF assms] assms(1) by (simp add: book_rel_def keys_def)

lemma book_rel_prepare:
  assumes "book_rel ob B" "r \<notin> ran (ob_orders ob)"
  shows "book_rel (ob\<lparr>ob_heap := (ob_heap ob)(r := o1)\<rparr>) B"
proof -
  let ?ob = "ob\<lparr>ob_heap := (ob_heap ob)(r := o1)\<rparr>"
  have ok: "keys_ok ob" "levels_ok ob B" "orders_ok {} ob B" using assms(1) by (simp_all add: book_rel_def book_inv_def)
  have r: "\<not> resting B r" by (rule book_rel_not_resting [OF assms])
  have "levels_ok ?ob B"
  proof (rule levels_okI)
    fix s q pl assume "map_of (levels s ?ob) q = Some pl"
    then have "level_ok (ob_heap ob) s q pl (B s q)" using levels_okD(1) [OF ok(2)] by simp
    moreover have "ob_heap ?ob x = ob_heap ob x" if "x \<in> fst ` set (B s q)" for x
      using r restingI [of x B s q] that by (cases "x = r") simp_all
    ultimately show "level_ok (ob_heap ?ob) s q pl (B s q)" using level_ok_cong [of "B s q" "ob_heap ?ob" "ob_heap ob"] by blast
  qed (use levels_okD(2) [OF ok(2)] in simp)
  moreover have "orders_ok {} ?ob B"
  proof (rule orders_okI)
    show "ob_orders ?ob (or_ID (ob_heap ?ob x)) = Some x" if "resting B x" for x
      using orders_okD(1) [OF ok(3) that] r that by (cases "x = r") simp_all
    fix i x assume i: "ob_orders ?ob i = Some x"
    then have "x \<noteq> r" using assms(2) by (auto simp: ran_def)
    then show "or_ID (ob_heap ?ob x) = i \<and> i \<le> ob_sequence ?ob"
      "IsLimit (ob_heap ?ob x) \<Longrightarrow> 0 < or_LeavesQty (ob_heap ?ob x) \<Longrightarrow> resting B x"
      using i orders_okD(2,3) [OF ok(3), of i x] by simp_all
  qed
  moreover have "keys_ok ?ob" using ok(1) by (simp add: keys_ok_def)
  ultimately show ?thesis using assms(1) by (simp add: book_rel_def book_inv_def)
qed

definition book_wf :: "OrderBook \<Rightarrow> bool" where
  "book_wf ob \<longleftrightarrow> (\<exists>B. book_rel ob B)"

lemma book_wf_step:
  assumes "book_wf ob" "book_step clk ob ob'"
  shows "book_wf ob'"
proof -
  obtain B where rel: "book_rel ob B" using assms(1) by (auto simp: book_wf_def)
  from assms(2) show ?thesis
  proof cases
    case (callbacks onTrade onOrderUpdate)
    then have "book_rel ob' B = book_rel ob B"
      by (intro book_rel_cong) (simp_all add: SetCallbacks_def levels_def best_def)
    then show ?thesis using rel by (auto simp: book_wf_def)
  next
    case (prepare r o1)
    then show ?thesis using book_rel_prepare [OF rel] by (auto simp: book_wf_def)
  next
    case (add r e)
    show ?thesis
    proof (rule spec_add_cases [OF rel, of r "ob_heap ob r"])
      fix B' ts assume "spec_add B r (ob_heap ob r) B' ts"
      from AddOrder_refines [OF rel add(1) this, of clk] add(2) show ?thesis by (auto simp: book_wf_def)
    next
      fix p ts assume "is_best (\<not> IsBuy (ob_heap ob r)) B p" "crosses (ob_heap ob r) p"
        "fifo_fill (or_Quantity (ob_heap ob r)) (B (\<not> IsBuy (ob_heap ob r)) p) = (ts, [])"
      from AddOrder_exhausts [OF rel add(1) this, of clk] add(2) show ?thesis by auto
    qed
  next
    case (cancel i r e)
    have "resting B r" using orders_okD(3) [of "{}" ob B i r] cancel(1-3) rel by (simp add: book_rel_def book_inv_def)
    from CancelOrder_refines [OF rel cancel(1) this] cancel(4) show ?thesis by (auto simp: book_wf_def)
  qed
qed

interpretation book: inductive_invariant book_init "book_step clk" book_wf
  by unfold_locales (auto simp: book_init_def book_wf_def intro: book_rel_new book_wf_step [unfolded book_wf_def])

text \<open>What a well-formed book shows.\<close>

lemma book_rel_level:
  assumes rel: "book_rel ob B" and p: "best side ob = Some p"
  shows "is_best side B p" "pl_Price (level_at side p ob) = p" "pl_TotalQty (level_at side p ob) = int64 (sum_list (map snd (B side p)))"
proof -
  have lv: "levels_ok ob B" using rel by (simp add: book_rel_def book_inv_def)
  show best: "is_best side B p" using book_rel_best(1) [OF rel] p by simp
  then obtain pl where pl: "level_at side p ob = pl" "level_ok (ob_heap ob) side p pl (B side p)"
    using level_of_queue [OF lv, of side p] by (auto simp: is_best_def)
  then show "pl_Price (level_at side p ob) = p" "pl_TotalQty (level_at side p ob) = int64 (sum_list (map snd (B side p)))"
    by (simp_all add: level_ok_def level_links_def)
qed

text \<open>The best price of a side of the specification with its open quantity, \<open>(0, 0)\<close> when the side is empty.\<close>

definition spec_bbo :: "bool \<Rightarrow> spec_book \<Rightarrow> int \<times> int \<Rightarrow> bool" where
  "spec_bbo side B pq \<longleftrightarrow>
     (if \<exists>p. B side p \<noteq> [] then is_best side B (fst pq) \<and> snd pq = int64 (sum_list (map snd (B side (fst pq)))) else pq = (0, 0))"

lemma book_rel_GetBBO:
  assumes rel: "book_rel ob B" and bbo: "GetBBO ob = (bp, bq, ap, aq)"
  shows "spec_bbo True B (bp, bq)" "spec_bbo False B (ap, aq)" "\<And>p q. B True p \<noteq> [] \<Longrightarrow> B False q \<noteq> [] \<Longrightarrow> p < q"
proof -
  have val: "spec_bbo side B (case best side ob of None \<Rightarrow> (0, 0) | Some p \<Rightarrow> (pl_Price (level_at side p ob), pl_TotalQty (level_at side p ob)))" for side
  proof (cases "best side ob")
    case None
    then show ?thesis using book_rel_best(2) [OF rel, of side] by (simp add: spec_bbo_def)
  next
    case (Some p)
    note lv = book_rel_level [OF rel Some]
    then show ?thesis using Some by (auto simp: spec_bbo_def is_best_def)
  qed
  show "spec_bbo True B (bp, bq)" "spec_bbo False B (ap, aq)"
    using val [of True] val [of False] bbo by (auto simp: GetBBO_def best_def Let_def)
  show "p < q" if "B True p \<noteq> []" "B False q \<noteq> []" for p q
    using that rel book_rel_keys [OF rel] by (simp add: book_rel_def book_inv_def keys_ok_def)
qed

text \<open>A best level without orders makes every crossing order panic.\<close>

lemma empty_best_panics:
  assumes "best side ob = Some p" "PriceLevel_IsEmpty (level_at side p ob)" "pl_Price (level_at side p ob) = p"
    and r: "0 < or_Quantity (ob_heap ob r)" "IsBuy (ob_heap ob r) = (\<not> side)" "crosses (ob_heap ob r) p"
  shows "\<exists>ob'. OrderBook_AddOrder clk (Some r) ob = Some (ob', Panicked)"
proof -
  define ob1 where "ob1 = accept_order clk r ob"
  let ?o = "ob_heap ob1 r"
  have same: "IsBuy ?o = (\<not> side)" "IsMarket ?o = IsMarket (ob_heap ob r)" "or_Price ?o = or_Price (ob_heap ob r)" "0 < or_LeavesQty ?o"
      "level_at side p ob1 = level_at side p ob" "best side ob1 = Some p"
    using r assms(1) by (simp_all add: ob1_def accept_order_def Let_def IsBuy_def IsMarket_def level_at_def)
  have "IsMarket ?o \<or> canMatchImmediately ob1 ?o"
    using r(3) same assms(3) r(2) by (cases side) (auto simp: crosses_def canMatchImmediately_def best_def split: option.split)
  moreover have "match_loop clk r (Some p) ob1 = Some (ob1, True)"
    using same assms(2) match_level_stops [of ob1 r "Iterator (level_at side p ob)" clk side p]
    by (subst match_loop.simps) (auto simp: Let_def PriceLevel_IsEmpty_def removeEmptyPriceLevel_def Iterator_def)
  ultimately show ?thesis
    using same(1,6) r(1) by (auto simp: OrderBook_AddOrder_def Let_def ob1_def [symmetric] matchOrder_def)
qed

lemma fifo_fill_exhausts:
  assumes "sum_list (map snd xs) \<le> q" "\<forall>x \<in> set xs. 0 < snd x"
  shows "\<exists>ts. fifo_fill q xs = (ts, [])"
  using assms
proof (induction q xs rule: fifo_fill.induct)
  case (2 q r l xs)
  have "0 \<le> sum_list (map snd xs)" using 2(3) by (intro sum_list_nonneg) force
  then have "\<not> q \<le> 0" "\<not> q < l" using 2(2,3) by simp_all
  moreover from this obtain ts where "fifo_fill (q - l) xs = (ts, [])" using 2 by auto
  ultimately show ?case by simp
qed simp

subsection \<open>Demonstration\<close>

declare list_tail.simps [code] match_level.simps [code] match_loop.simps [code]

definition demo_order :: "byte \<Rightarrow> int \<Rightarrow> int \<Rightarrow> Order" where
  "demo_order side price qty = zero_Order\<lparr>or_Side := side, or_Price := price, or_Quantity := qty\<rparr>"

definition demo_heap :: heap where
  "demo_heap = (\<lambda>_. zero_Order)(0 := demo_order SideSell 100 10, 1 := demo_order SideBuy 100 5, 2 := demo_order SideBuy 100 7,
     3 := demo_order SideBuy 100 10)"

definition demo_clk :: "nat \<Rightarrow> int" where
  "demo_clk k = int k"

definition demo_book :: OrderBook where
  "demo_book = SetCallbacks True True (NewOrderBook ''ACME'' 1 demo_heap)"

definition book_after :: "nat \<Rightarrow> OrderBook \<Rightarrow> OrderBook" where
  "book_after r ob = (case OrderBook_AddOrder demo_clk (Some r) ob of None \<Rightarrow> ob | Some (ob', _) \<Rightarrow> ob')"

definition demo_queue :: spec_book where
  "demo_queue = put_queue False 100 [(0, 10)] (\<lambda>_ _. [])"

lemma demo_add_ok: "add_ok 0 demo_book" "add_ok 3 (book_after 0 demo_book)" "add_ok 1 (book_after 0 demo_book)"
proof -
  have max: "(0 :: 64 word) < - 1" "(1 :: 64 word) < - 1" by code_simp+
  show "add_ok 0 demo_book"
    using max(1) by (simp add: add_ok_def demo_book_def SetCallbacks_def NewOrderBook_def demo_heap_def demo_order_def zero_Order_def)
  have ord: "ob_orders (book_after 0 demo_book) = [1 \<mapsto> 0]"
    by (simp add: book_after_def demo_book_def SetCallbacks_def NewOrderBook_def OrderBook_AddOrder_def accept_order_def Let_def
      demo_heap_def demo_order_def zero_Order_def IsMarket_def OrderTypeMarket_def OrderTypeLimit_def canMatchImmediately_def IsBuy_def
      SideBuy_def SideSell_def addToBook_def PriceLevel_AddOrder_def PriceLevel_link_def levels_def PriceLevelPool_Get_def)
  have "or_Quantity (ob_heap (book_after 0 demo_book) 1) = 5 \<and> or_Price (ob_heap (book_after 0 demo_book) 1) = 100 \<and>
      or_Quantity (ob_heap (book_after 0 demo_book) 3) = 10 \<and> or_Price (ob_heap (book_after 0 demo_book) 3) = 100 \<and>
      ob_sequence (book_after 0 demo_book) = 1"
    by code_simp
  then show "add_ok 3 (book_after 0 demo_book)" "add_ok 1 (book_after 0 demo_book)" using max(2) by (simp_all add: add_ok_def ord)
qed

lemma demo_book_rel: "book_rel demo_book (\<lambda>_ _. [])" "reach book_init (book_step demo_clk) demo_book"
proof -
  have "book_rel demo_book (\<lambda>_ _. []) = book_rel (NewOrderBook ''ACME'' 1 demo_heap) (\<lambda>_ _. [])"
    by (rule book_rel_cong) (simp_all add: demo_book_def SetCallbacks_def levels_def best_def)
  then show "book_rel demo_book (\<lambda>_ _. [])" using book_rel_new by simp
  have "reach book_init (book_step demo_clk) (NewOrderBook ''ACME'' 1 demo_heap)"
    by (rule reach_init) (auto simp: book_init_def)
  then show "reach book_init (book_step demo_clk) demo_book"
    unfolding demo_book_def by (rule reach_step) (rule book_step.callbacks)
qed

lemma demo_spec_add: "spec_add (\<lambda>_ _. []) 0 (ob_heap demo_book 0) demo_queue []"
proof -
  have o0: "ob_heap demo_book 0 = demo_order SideSell 100 10"
    by (simp add: demo_book_def SetCallbacks_def NewOrderBook_def demo_heap_def)
  have o1: "\<not> IsBuy (demo_order SideSell 100 10)" "or_Price (demo_order SideSell 100 10) = 100" "or_Quantity (demo_order SideSell 100 10) = 10"
      "IsLimit (demo_order SideSell 100 10)"
    by (simp_all add: demo_order_def zero_Order_def IsBuy_def SideSell_def SideBuy_def IsLimit_def OrderTypeLimit_def)
  show ?thesis
    using spec_add.rests [of "demo_order SideSell 100 10" "\<lambda>_ _. []" 0] o1 by (simp add: o0 demo_queue_def is_best_def)
qed

lemma demo_after:
  "OrderBook_AddOrder demo_clk (Some 0) demo_book = Some (book_after 0 demo_book, Returned None)"
  "book_rel (book_after 0 demo_book) demo_queue" "reach book_init (book_step demo_clk) (book_after 0 demo_book)"
proof -
  obtain ob' where run: "OrderBook_AddOrder demo_clk (Some 0) demo_book = Some (ob', Returned None)" "book_rel ob' demo_queue"
    using AddOrder_refines [OF demo_book_rel(1) demo_add_ok(1) demo_spec_add, of demo_clk] by blast
  then have eq: "book_after 0 demo_book = ob'" by (simp add: book_after_def)
  then show "OrderBook_AddOrder demo_clk (Some 0) demo_book = Some (book_after 0 demo_book, Returned None)"
    "book_rel (book_after 0 demo_book) demo_queue" using run by simp_all
  show "reach book_init (book_step demo_clk) (book_after 0 demo_book)"
    using demo_book_rel(2) by (rule reach_step) (rule book_step.add [OF demo_add_ok(1) run(1) [folded eq]])
qed

lemma demo_orders:
  "IsBuy (ob_heap (book_after 0 demo_book) 3)" "crosses (ob_heap (book_after 0 demo_book) 3) 100" "or_Quantity (ob_heap (book_after 0 demo_book) 3) = 10"
  "IsBuy (ob_heap (book_after 0 demo_book) 1)" "crosses (ob_heap (book_after 0 demo_book) 1) 100" "or_Quantity (ob_heap (book_after 0 demo_book) 1) = 5"
  by code_simp+

lemma demo_best: "is_best False demo_queue 100"
  by (simp add: is_best_def demo_queue_def)

lemma demo_takes: "spec_add demo_queue 1 (ob_heap (book_after 0 demo_book) 1) (put_queue False 100 [(0, 5)] demo_queue) [(0, 5)]"
  using spec_add.takes [of "ob_heap (book_after 0 demo_book) 1" demo_queue 100 "[(0, 5)]" "[(0, 5)]" 1] demo_orders demo_best
  by (simp add: demo_queue_def)

subsection \<open>Properties\<close>

text \<open>
  C3. The book implements its specification, one queue of open orders per side and price. Let an order be added to a well-formed book that
  does not know it, with a positive quantity and, for a limit order, a price that is positive and below the largest 64-bit integer,
  while sequence numbers are left; and let the specification cover it, that is, unless it would use up the best opposite level. Then
  the call returns without an error and does what the specification says: a limit order that does not cross joins the end of the queue of
  its price; an order of another type that does not cross changes no queue; a crossing order is filled completely from the queue of the best
  opposite price, the oldest order first, each trade at the price of the resting order and between the right identifiers. Cancelling a
  resting order removes it and nothing else.
\<close>

theorem book_refines_queues:
  assumes "book_rel ob B"
  shows "(add_ok r ob \<and> spec_add B r (ob_heap ob r) B' ts \<longrightarrow>
       (\<exists>ob'. OrderBook_AddOrder clk (Some r) ob = Some (ob', Returned None) \<and> book_rel ob' B' \<and>
          trades ob' = trades ob @ (if ob_onTrade ob then spec_trades ob r ts else []))) \<and>
     (ob_orders ob i = Some r \<and> resting B r \<longrightarrow>
       (\<exists>ob'. CancelOrder i ob = (ob', None) \<and> book_rel ob' (spec_cancel r B) \<and> trades ob' = trades ob \<and>
          or_Status (ob_heap ob' r) = StatusCanceled))"
proof (intro conjI impI; elim conjE)
  assume "add_ok r ob" "spec_add B r (ob_heap ob r) B' ts"
  from AddOrder_refines [OF assms this, of clk]
  show "\<exists>ob'. OrderBook_AddOrder clk (Some r) ob = Some (ob', Returned None) \<and> book_rel ob' B' \<and>
      trades ob' = trades ob @ (if ob_onTrade ob then spec_trades ob r ts else [])" by blast
next
  assume "ob_orders ob i = Some r" "resting B r"
  from CancelOrder_refines [OF assms this]
  show "\<exists>ob'. CancelOrder i ob = (ob', None) \<and> book_rel ob' (spec_cancel r B) \<and> trades ob' = trades ob \<and>
      or_Status (ob_heap ob' r) = StatusCanceled" by blast
qed

theorem book_refines_queues_witness:
  "\<exists>ob'. OrderBook_AddOrder demo_clk (Some 1) (book_after 0 demo_book) = Some (ob', Returned None) \<and>
     book_rel ob' (put_queue False 100 [(0, 5)] demo_queue)"
  using book_refines_queues [OF demo_after(2), of 1 "put_queue False 100 [(0, 5)] demo_queue" "[(0, 5)]" demo_clk] demo_add_ok(3) demo_takes
  by blast

text \<open>
  C14. Well-formedness is kept. A caller sets the callbacks, prepares orders that the book does not know, adds orders and cancels limit
  orders that are still open; the orders it adds have a positive quantity and, if they are limit orders, a price that is positive and
  below the largest 64-bit integer, and the sequence numbers are not used up. As long as no call panics, the book represents
  queues: every level is a proper doubly linked list of open orders of its side and price with the right count and
  total, the best prices are the extreme ones, the sides do not cross, and the quotes of \<^verbatim>\<open>GetBBO\<close> are the best prices with their open
  quantities. Adding such an order to such a book never loops forever.
\<close>

theorem book_well_formed:
  assumes "reach book_init (book_step clk) ob"
  shows "\<exists>B. book_rel ob B \<and> (case GetBBO ob of (bp, bq, ap, aq) \<Rightarrow> spec_bbo True B (bp, bq) \<and> spec_bbo False B (ap, aq)) \<and>
     (\<forall>p q. B True p \<noteq> [] \<and> B False q \<noteq> [] \<longrightarrow> p < q) \<and>
     (\<forall>r. add_ok r ob \<longrightarrow> OrderBook_AddOrder clk (Some r) ob \<noteq> None)"
proof -
  obtain B where rel: "book_rel ob B" using book.reach_inv [OF assms] by (auto simp: book_wf_def)
  obtain bp bq ap aq where bbo: "GetBBO ob = (bp, bq, ap, aq)" by (metis prod.exhaust)
  have "OrderBook_AddOrder clk (Some r) ob \<noteq> None" if "add_ok r ob" for r
  proof (rule spec_add_cases [OF rel, of r "ob_heap ob r"])
    fix B' ts assume "spec_add B r (ob_heap ob r) B' ts"
    from AddOrder_refines [OF rel that this, of clk] show ?thesis by auto
  next
    fix p ts assume "is_best (\<not> IsBuy (ob_heap ob r)) B p" "crosses (ob_heap ob r) p"
      "fifo_fill (or_Quantity (ob_heap ob r)) (B (\<not> IsBuy (ob_heap ob r)) p) = (ts, [])"
    from AddOrder_exhausts [OF rel that this, of clk] show ?thesis by auto
  qed
  then show ?thesis using rel book_rel_GetBBO [OF rel bbo] bbo by auto
qed

theorem book_well_formed_witness:
  "reach book_init (book_step demo_clk) (book_after 0 demo_book) \<and> GetBBO (book_after 0 demo_book) = (0, 0, 100, 10) \<and>
     (\<exists>B. book_rel (book_after 0 demo_book) B \<and> spec_bbo False B (100, 10))"
proof -
  have bbo: "GetBBO (book_after 0 demo_book) = (0, 0, 100, 10)" by code_simp
  then show ?thesis using book_well_formed [OF demo_after(3)] demo_after(3) by auto
qed

text \<open>Prices below one are not supported: the scan for the best bid starts with a price of 0. Two bids at negative prices rest, the better
  one is cancelled, and the book quotes no bid although one is open.\<close>

lemma book_negative_price_not_quoted:
  "let h = (\<lambda>_. zero_Order)(0 := demo_order SideBuy (- 5) 1, 1 := demo_order SideBuy (- 3) 1);
       b2 = book_after 1 (book_after 0 (NewOrderBook ''ACME'' 1 h)); b3 = fst (CancelOrder 2 b2)
   in GetBBO b2 = (- 3, 1, 0, 0) \<and> GetBBO b3 = (0, 0, 0, 0) \<and> ob_orders b3 1 = Some 0 \<and> or_LeavesQty (ob_heap b3 0) = 1"
  by code_simp

text \<open>
  C20. Using up the best level breaks the book. In a well-formed book, an order that crosses the best opposite price and asks for at
  least the quantity that is open there does not return: \<^verbatim>\<open>removeEmptyPriceLevel\<close> dereferences the first order of the level, which has
  none. The level stays in place: if the next call in the state that the panic leaves adds an order of the same side with a positive
  quantity that crosses the same price, it panics as well.
\<close>

theorem book_exhausted_level_panics:
  assumes "book_rel ob B" "add_ok r ob" "is_best (\<not> IsBuy (ob_heap ob r)) B p" "crosses (ob_heap ob r) p"
    and "sum_list (map snd (B (\<not> IsBuy (ob_heap ob r)) p)) \<le> or_Quantity (ob_heap ob r)"
  shows "\<exists>ob'. OrderBook_AddOrder clk (Some r) ob = Some (ob', Panicked) \<and>
     (\<forall>r2. 0 < or_Quantity (ob_heap ob' r2) \<and> IsBuy (ob_heap ob' r2) = IsBuy (ob_heap ob r) \<and> crosses (ob_heap ob' r2) p \<longrightarrow>
        (\<exists>ob''. OrderBook_AddOrder clk (Some r2) ob' = Some (ob'', Panicked)))"
proof -
  define side where "side = (\<not> IsBuy (ob_heap ob r))"
  have lv: "levels_ok ob B" using assms(1) by (simp add: book_rel_def book_inv_def)
  obtain pl where "level_ok (ob_heap ob) side p pl (B side p)"
    using level_of_queue [OF lv, of side p] assms(3) by (auto simp: is_best_def side_def)
  then have "\<forall>x \<in> set (B side p). 0 < snd x" by (simp add: level_ok_def entry_ok_def)
  then obtain ts where "fifo_fill (or_Quantity (ob_heap ob r)) (B (\<not> IsBuy (ob_heap ob r)) p) = (ts, [])"
    using fifo_fill_exhausts assms(5) unfolding side_def by blast
  from AddOrder_exhausts [OF assms(1-4) this, of clk] obtain ob' where ob':
    "OrderBook_AddOrder clk (Some r) ob = Some (ob', Panicked)" "PriceLevel_IsEmpty (level_at side p ob')"
    "pl_Price (level_at side p ob') = p" "best side ob' = Some p"
    unfolding side_def by blast
  show ?thesis
    using ob'(1) empty_best_panics [OF ob'(4,2,3), of _ clk] by (auto simp: side_def)
qed

theorem book_exhausted_level_panics_witness:
  "\<exists>ob'. OrderBook_AddOrder demo_clk (Some 3) (book_after 0 demo_book) = Some (ob', Panicked)"
proof -
  have "is_best (\<not> IsBuy (ob_heap (book_after 0 demo_book) 3)) demo_queue 100"
    "sum_list (map snd (demo_queue (\<not> IsBuy (ob_heap (book_after 0 demo_book) 3)) 100)) \<le> or_Quantity (ob_heap (book_after 0 demo_book) 3)"
    using demo_orders demo_best by (simp_all add: demo_queue_def)
  from book_exhausted_level_panics [OF demo_after(2) demo_add_ok(2) this(1) demo_orders(2) this(2), of demo_clk]
  show ?thesis by blast
qed

text \<open>A sell of 10 at 100 rests, a buy of 5 takes half of it and is completely filled, the sell is cancelled, and a buy of 7 at 100 rests.\<close>

definition demo_mixed :: OrderBook where
  "demo_mixed = book_after 2 (fst (CancelOrder 1 (book_after 1 (book_after 0 demo_book))))"

lemma demo_mixed_rel: "book_rel demo_mixed (put_queue True 100 [(2, 7)] (\<lambda>_ _. []))"
proof -
  define b2 where "b2 = book_after 1 (book_after 0 demo_book)"
  define b3 where "b3 = fst (CancelOrder 1 b2)"
  have "\<exists>ob'. OrderBook_AddOrder demo_clk (Some 1) (book_after 0 demo_book) = Some (ob', Returned None) \<and>
      book_rel ob' (put_queue False 100 [(0, 5)] demo_queue)"
    using AddOrder_refines [OF demo_after(2) demo_add_ok(3) demo_takes, of demo_clk] by blast
  then have rel2: "book_rel b2 (put_queue False 100 [(0, 5)] demo_queue)" by (auto simp: b2_def book_after_def)
  moreover have "ob_orders b2 1 = Some 0" unfolding b2_def by code_simp
  moreover have "resting (put_queue False 100 [(0, 5)] demo_queue) 0"
    by (rule restingI [of _ _ False 100]) simp
  ultimately have "\<exists>ob'. CancelOrder 1 b2 = (ob', None) \<and> book_rel ob' (spec_cancel 0 (put_queue False 100 [(0, 5)] demo_queue))"
    using CancelOrder_refines by blast
  then have "book_rel b3 (spec_cancel 0 (put_queue False 100 [(0, 5)] demo_queue))" by (auto simp: b3_def)
  moreover have "spec_cancel 0 (put_queue False 100 [(0, 5)] demo_queue) = (\<lambda>_ _. [])"
    by (simp add: fun_eq_iff spec_cancel_def demo_queue_def put_queue_def)
  ultimately have rel3: "book_rel b3 (\<lambda>_ _. [])" by simp
  have eval: "or_ID (ob_heap b3 2) = 0" "ob_orders b3 0 = None" "ob_sequence b3 = 2" "or_Quantity (ob_heap b3 2) = 7" "or_Price (ob_heap b3 2) = 100"
      "IsBuy (ob_heap b3 2)" "IsLimit (ob_heap b3 2)" "(2 :: 64 word) < - 1"
    unfolding b3_def b2_def by code_simp+
  have "2 \<notin> ran (ob_orders b3)"
  proof
    assume "2 \<in> ran (ob_orders b3)"
    then obtain i where i: "ob_orders b3 i = Some 2" by (auto simp: ran_def)
    have "orders_ok {} b3 (\<lambda>_ _. [])" using rel3 by (simp add: book_rel_def book_inv_def)
    from orders_okD(2) [OF this i] have "i = 0" using eval(1) by simp
    then show False using i eval(2) by simp
  qed
  then have ok: "add_ok 2 b3" using eval by (simp add: add_ok_def)
  have "spec_add (\<lambda>_ _. []) 2 (ob_heap b3 2) (put_queue True 100 [(2, 7)] (\<lambda>_ _. [])) []"
    using spec_add.rests [of "ob_heap b3 2" "\<lambda>_ _. []" 2] eval by (simp add: is_best_def)
  from AddOrder_refines [OF rel3 ok this, of demo_clk] show ?thesis
    by (auto simp: demo_mixed_def b3_def b2_def book_after_def [of 2])
qed

text \<open>
  C21. Cancelling an order that rests nowhere drops others. In a well-formed book, let an order be known under an identifier, for instance
  because it was filled when it arrived, but be in no level and so without links, and let open orders rest at its side and price. Then
  cancelling it succeeds and removes their whole level: the book has no level of that side and price any more, although the map of orders
  still has every order that rested there, and each is as open as before.
\<close>

theorem book_cancel_filled_drops_resting:
  assumes "book_rel ob B" "ob_orders ob i = Some r" "\<not> resting B r" "or_next (ob_heap ob r) = None" "or_prev (ob_heap ob r) = None"
    and "side = IsBuy (ob_heap ob r)" "p = or_Price (ob_heap ob r)" "B side p \<noteq> []"
  shows "\<exists>ob'. CancelOrder i ob = (ob', None) \<and> p \<notin> set (keys side ob') \<and>
     (\<forall>(x, l) \<in> set (B side p). ob_heap ob' x = ob_heap ob x \<and> ob_orders ob' (or_ID (ob_heap ob' x)) = Some x \<and>
        or_LeavesQty (ob_heap ob' x) = l \<and> 0 < l)"
proof -
  have ok: "levels_ok ob B" "orders_ok {} ob B" using assms(1) by (simp_all add: book_rel_def book_inv_def)
  obtain pl where pl: "map_of (levels side ob) p = Some pl" "level_ok (ob_heap ob) side p pl (B side p)"
    using level_of_queue [OF ok(1) assms(8)] by blast
  define ob1 where "ob1 = removeFromBook r ob"
  have "\<exists>pl'. PriceLevel_RemoveOrder r (ob_heap ob) pl = (ob_heap ob, pl', True)"
    using assms(4,5) by (simp add: PriceLevel_RemoveOrder_def Let_def fun_upd_idem)
  then obtain pl' where "PriceLevel_RemoveOrder r (ob_heap ob) pl = (ob_heap ob, pl', True)" ..
  then have ob1: "levels side ob1 = AList.delete p (levels side ob)" "ob_heap ob1 = ob_heap ob" "ob_orders ob1 = ob_orders ob"
    using pl(1) assms(6,7) by (simp_all add: ob1_def removeFromBook_def updateBestBid_def updateBestAsk_def levels_def set_levels_def Let_def)
  define ob2 where "ob2 = ob1\<lparr>ob_heap := (ob_heap ob1)(r := (ob_heap ob1 r)\<lparr>or_Status := StatusCanceled\<rparr>), ob_orders := (ob_orders ob1)(i := None)\<rparr>"
  have run: "CancelOrder i ob = (notify r ob2, None)" using assms(2) by (simp add: CancelOrder_def Let_def ob1_def ob2_def)
  have same: "levels side (notify r ob2) = levels side ob1" "ob_heap (notify r ob2) = ob_heap ob2" "ob_orders (notify r ob2) = ob_orders ob2"
    by (simp_all add: notify_def ob2_def levels_def)
  have "p \<notin> set (keys side (notify r ob2))" unfolding keys_def same(1) ob1(1) delete_keys by simp
  moreover have "ob_heap ob2 x = ob_heap ob x \<and> ob_orders ob2 (or_ID (ob_heap ob x)) = Some x \<and> or_LeavesQty (ob_heap ob x) = l \<and> 0 < l"
    if x: "(x, l) \<in> set (B side p)" for x l
  proof -
    have rest: "resting B x" using x by (intro restingI [of x B side p]) force
    then have "x \<noteq> r" using assms(3) by auto
    moreover have "ob_orders ob (or_ID (ob_heap ob x)) = Some x" using orders_okD(1) [OF ok(2) rest] .
    moreover have "or_LeavesQty (ob_heap ob x) = l \<and> 0 < l" using pl(2) x by (force simp: level_ok_def entry_ok_def order_ok_def)
    ultimately show ?thesis using assms(2) by (auto simp: ob2_def ob1)
  qed
  ultimately show ?thesis using run same by auto
qed

theorem book_cancel_filled_drops_resting_witness:
  "\<exists>ob'. or_Status (ob_heap demo_mixed 1) = StatusFilled \<and> GetBBO demo_mixed = (100, 7, 0, 0) \<and> CancelOrder 2 demo_mixed = (ob', None) \<and>
     100 \<notin> set (keys True ob') \<and> ob_orders ob' (or_ID (ob_heap ob' 2)) = Some 2 \<and> or_LeavesQty (ob_heap ob' 2) = 7"
proof -
  have eval: "ob_orders demo_mixed 2 = Some 1" "or_next (ob_heap demo_mixed 1) = None" "or_prev (ob_heap demo_mixed 1) = None"
      "True = IsBuy (ob_heap demo_mixed 1)" "100 = or_Price (ob_heap demo_mixed 1)" "or_Status (ob_heap demo_mixed 1) = StatusFilled"
      "GetBBO demo_mixed = (100, 7, 0, 0)"
    unfolding demo_mixed_def by code_simp+
  let ?B = "put_queue True 100 [(2 :: nat, 7 :: int)] (\<lambda>_ _. [])"
  have "\<not> resting ?B 1" "?B True 100 \<noteq> []" by (auto simp: resting_def put_queue_def split: if_splits)
  from book_cancel_filled_drops_resting [OF demo_mixed_rel eval(1) this(1) eval(2-5) this(2)] eval(6,7) show ?thesis
    by (auto simp: put_queue_def)
qed

end
