(* ===== verification/Kson.thy ===== *)
theory Kson
  imports Prelude "HOL-Library.AList" "HOL-Library.Sublist"
begin

text \<open>
  The configuration language (\<^verbatim>\<open>pkg/kson/kson.go\<close>): the parser, its helpers and the accessors. Bytes are characters; \<^verbatim>\<open>src[pos:]\<close>, what the
  parser has not read yet, is the list \<open>p_rest\<close>. Parsed values are trees; a Go map is an association list with one entry per key.
  Errors are values that carry the line and the arguments of the message. The loops of \<^verbatim>\<open>object\<close>, \<^verbatim>\<open>array\<close> and \<^verbatim>\<open>document\<close> need not end;
  they take fuel, one unit per iteration, and \<open>None\<close> says that it was not enough.

  The environment is an argument, \<open>getenv\<close>; so is \<open>parseFloat\<close>, the conversion of the standard library to \<^verbatim>\<open>float64\<close>, with the type of the
  floats: every result holds for all of them.
\<close>

subsection \<open>Values and errors\<close>

datatype 'f kval =
    KNil
  | KBool bool
  | KInt int
  | KFloat 'f
  | KString string
  | KMap "(string \<times> 'f kval) list"
  | KList "'f kval list"

datatype kson_error =
    InvalidKeyChar nat char
  | EmptyKey nat
  | ExpectedEquals nat string
  | UnterminatedObject nat
  | ExpectedColon nat string
  | UnterminatedArray nat
  | UnterminatedString nat
  | EmptyObjectKey nat
  | KeyConflict nat string string

record parser =
  p_rest :: string
  p_line :: nat

abbreviation (input) newline :: char where "newline \<equiv> CHR 0x0A"
abbreviation (input) carriage :: char where "carriage \<equiv> CHR 0x0D"
abbreviation (input) tab :: char where "tab \<equiv> CHR 0x09"
abbreviation (input) backslash :: char where "backslash \<equiv> CHR 0x5C"
abbreviation (input) dquote :: char where "dquote \<equiv> CHR 0x22"
abbreviation (input) squote :: char where "squote \<equiv> CHR 0x27"

definition code :: "char \<Rightarrow> nat" where
  "code c = of_char c"

definition between :: "char \<Rightarrow> char \<Rightarrow> char \<Rightarrow> bool" where
  "between lo hi c \<longleftrightarrow> code lo \<le> code c \<and> code c \<le> code hi"

definition isKeyByte :: "char \<Rightarrow> bool" where
  "isKeyByte c \<longleftrightarrow> between CHR ''a'' CHR ''z'' c \<or> between CHR ''A'' CHR ''Z'' c \<or> between CHR ''0'' CHR ''9'' c \<or>
     c = CHR ''_'' \<or> c = CHR ''-'' \<or> c = CHR ''.'' \<or> c = CHR ''/''"

subsection \<open>The parts of the standard library that the parser uses\<close>

text \<open>\<^verbatim>\<open>strings.ToUpper\<close> on ASCII, which keys are. \<^verbatim>\<open>strings.ToLower\<close> as far as a comparison with an ASCII word can see it: besides
  the ASCII capitals, U+0130 becomes \<^verbatim>\<open>i\<close> and the Kelvin sign \<^verbatim>\<open>k\<close>; other characters stay outside ASCII.\<close>

definition upper :: "char \<Rightarrow> char" where
  "upper c = (if between CHR ''a'' CHR ''z'' c then char_of (code c - 32) else c)"

definition lower :: "char \<Rightarrow> char" where
  "lower c = (if between CHR ''A'' CHR ''Z'' c then char_of (code c + 32) else c)"

fun ToLower :: "string \<Rightarrow> string" where
  "ToLower (c # d # e # cs) =
     (if c = CHR 0xC4 \<and> d = CHR 0xB0 then CHR ''i'' # ToLower (e # cs)
      else if c = CHR 0xE2 \<and> d = CHR 0x84 \<and> e = CHR 0xAA then CHR ''k'' # ToLower cs
      else lower c # ToLower (d # e # cs))"
| "ToLower [c, d] = (if c = CHR 0xC4 \<and> d = CHR 0xB0 then ''i'' else [lower c, lower d])"
| "ToLower [c] = [lower c]"
| "ToLower [] = []"

text \<open>\<^verbatim>\<open>strconv.ParseInt(s, 10, 64)\<close>.\<close>

definition isDigit :: "char \<Rightarrow> bool" where
  "isDigit c \<longleftrightarrow> between CHR ''0'' CHR ''9'' c"

definition digits_val :: "string \<Rightarrow> int" where
  "digits_val ds = foldl (\<lambda>n d. 10 * n + int (code d - code CHR ''0'')) 0 ds"

definition ParseInt :: "string \<Rightarrow> int option" where
  "ParseInt s =
     (let neg = (s \<noteq> [] \<and> hd s = CHR ''-'');
          ds = (if s \<noteq> [] \<and> (hd s = CHR ''-'' \<or> hd s = CHR ''+'') then tl s else s);
          n = (if neg then - digits_val ds else digits_val ds)
      in if ds \<noteq> [] \<and> list_all isDigit ds \<and> in_int64 n then Some n else None)"

text \<open>\<^verbatim>\<open>strings.TrimRightFunc(s, unicode.IsSpace)\<close>: the spaces of ASCII and Latin-1 and the wider ones, in UTF-8; \<open>trim_rev\<close> works on the
  reversed string.\<close>

definition ascii_space :: "char \<Rightarrow> bool" where
  "ascii_space c \<longleftrightarrow> c = CHR '' '' \<or> between CHR 0x09 CHR 0x0D c"

definition wide_space :: "char \<Rightarrow> char \<Rightarrow> char \<Rightarrow> bool" where
  "wide_space a b c \<longleftrightarrow>
     a = CHR 0xE1 \<and> b = CHR 0x9A \<and> c = CHR 0x80 \<or>
     a = CHR 0xE2 \<and> b = CHR 0x80 \<and> (between CHR 0x80 CHR 0x8A c \<or> c = CHR 0xA8 \<or> c = CHR 0xA9 \<or> c = CHR 0xAF) \<or>
     a = CHR 0xE2 \<and> b = CHR 0x81 \<and> c = CHR 0x9F \<or>
     a = CHR 0xE3 \<and> b = CHR 0x80 \<and> c = CHR 0x80"

fun trim_rev :: "string \<Rightarrow> string" where
  "trim_rev [] = []"
| "trim_rev (c # cs) =
     (if ascii_space c then trim_rev cs
      else
        (case cs of
           [] \<Rightarrow> [c]
         | b # bs \<Rightarrow>
             if b = CHR 0xC2 \<and> (c = CHR 0x85 \<or> c = CHR 0xA0) then trim_rev bs
             else
               (case bs of
                  [] \<Rightarrow> c # cs
                | a # as \<Rightarrow> if wide_space a b c then trim_rev as else c # cs)))"

definition TrimRight :: "string \<Rightarrow> string" where
  "TrimRight s = rev (trim_rev (rev s))"

text \<open>\<^verbatim>\<open>os.Expand\<close> with its \<^verbatim>\<open>getShellName\<close>: the name after a dollar sign and the number of bytes it takes.\<close>

definition isShellSpecialVar :: "char \<Rightarrow> bool" where
  "isShellSpecialVar c \<longleftrightarrow> c \<in> set ''*#$@!?-'' \<or> isDigit c"

definition isAlphaNum :: "char \<Rightarrow> bool" where
  "isAlphaNum c \<longleftrightarrow> c = CHR ''_'' \<or> isDigit c \<or> between CHR ''a'' CHR ''z'' c \<or> between CHR ''A'' CHR ''Z'' c"

definition getShellName :: "string \<Rightarrow> string \<times> nat" where
  "getShellName s =
     (if s \<noteq> [] \<and> hd s = CHR ''{'' then
        (if length s > 2 \<and> isShellSpecialVar (s ! 1) \<and> s ! 2 = CHR ''}'' then ([s ! 1], 3)
         else
           (let name = takeWhile (\<lambda>c. c \<noteq> CHR ''}'') (tl s) in
            if CHR ''}'' \<notin> set (tl s) then ([], 1)
            else if name = [] then ([], 2)
            else (name, length name + 2)))
      else if s \<noteq> [] \<and> isShellSpecialVar (hd s) then ([hd s], 1)
      else (let name = takeWhile isAlphaNum s in (name, length name)))"

function Expand :: "(string \<Rightarrow> string) \<Rightarrow> string \<Rightarrow> string" where
  "Expand mapping [] = []"
| "Expand mapping (c # cs) =
     (if c = CHR ''$'' \<and> cs \<noteq> [] then
        (case getShellName cs of
           (name, w) \<Rightarrow>
             (if name = [] \<and> w > 0 then [] else if name = [] then [c] else mapping name) @ Expand mapping (drop w cs))
      else c # Expand mapping cs)"
  by pat_completeness auto

termination Expand
  by (relation "measure (\<lambda>(m, s). length s)") auto

subsection \<open>Scalars\<close>

definition inferType :: "(string \<Rightarrow> 'f option) \<Rightarrow> string \<Rightarrow> 'f kval" where
  "inferType parseFloat s =
     (let l = ToLower s in
      if l \<in> {''true'', ''yes'', ''on''} then KBool True
      else if l \<in> {''false'', ''no'', ''off''} then KBool False
      else if l \<in> {''null'', ''~'', ''nil''} then KNil
      else
        (case ParseInt s of
           Some i \<Rightarrow> KInt i
         | None \<Rightarrow> (case parseFloat s of Some f \<Rightarrow> KFloat f | None \<Rightarrow> KString s)))"

definition expandEnv :: "(string \<Rightarrow> string) \<Rightarrow> string \<Rightarrow> string" where
  "expandEnv getenv s = Expand getenv s"

fun scalar_loop :: "string \<Rightarrow> nat \<Rightarrow> string \<Rightarrow> string \<times> string" where
  "scalar_loop acc inBrace [] = (rev acc, [])"
| "scalar_loop acc inBrace (c # cs) =
     (if c = CHR ''$'' \<and> cs \<noteq> [] \<and> hd cs = CHR ''{'' then scalar_loop (CHR ''{'' # c # acc) (inBrace + 1) (tl cs)
      else if c = CHR ''}'' then (if inBrace > 0 then scalar_loop (c # acc) (inBrace - 1) cs else (rev acc, c # cs))
      else if inBrace = 0 \<and> (c = newline \<or> c = carriage \<or> c = CHR ''#'' \<or> c = CHR '','' \<or> c = CHR '']'') then (rev acc, c # cs)
      else if c = newline \<or> c = carriage then (rev acc, c # cs)
      else scalar_loop (c # acc) inBrace cs)"

definition kson_scalar :: "(string \<Rightarrow> string) \<Rightarrow> (string \<Rightarrow> 'f option) \<Rightarrow> parser \<Rightarrow> 'f kval \<times> parser" where
  "kson_scalar getenv parseFloat p =
     (case scalar_loop [] 0 (p_rest p) of
        (raw, rest) \<Rightarrow> (inferType parseFloat (expandEnv getenv (TrimRight raw)), p\<lparr>p_rest := rest\<rparr>))"

definition unescape :: "char \<Rightarrow> char" where
  "unescape c = (if c = CHR ''n'' then newline else if c = CHR ''t'' then tab else if c = CHR ''r'' then carriage else c)"

fun quoted_loop :: "char \<Rightarrow> string \<Rightarrow> nat \<Rightarrow> string \<Rightarrow> nat + string \<times> nat \<times> string" where
  "quoted_loop delim acc line [] = Inl line"
| "quoted_loop delim acc line (c # cs) =
     (if c = delim then Inr (rev acc, line, cs)
      else if c = backslash \<and> cs \<noteq> [] then quoted_loop delim (unescape (hd cs) # acc) line (tl cs)
      else quoted_loop delim (c # acc) (if c = newline then line + 1 else line) cs)"

definition kson_quoted :: "(string \<Rightarrow> string) \<Rightarrow> char \<Rightarrow> parser \<Rightarrow> kson_error + string \<times> parser" where
  "kson_quoted getenv delim p =
     (case quoted_loop delim [] (p_line p) (tl (p_rest p)) of
        Inl line \<Rightarrow> Inl (UnterminatedString line)
      | Inr (s, line, rest) \<Rightarrow> Inr (expandEnv getenv s, \<lparr>p_rest = rest, p_line = line\<rparr>))"

subsection \<open>Skipping\<close>

definition skipBlanks :: "parser \<Rightarrow> parser" where
  "skipBlanks p = p\<lparr>p_rest := dropWhile (\<lambda>c. c = CHR '' '' \<or> c = tab) (p_rest p)\<rparr>"

definition skipInline :: "parser \<Rightarrow> parser" where
  "skipInline p = p\<lparr>p_rest := dropWhile (\<lambda>c. c = CHR '' '' \<or> c = tab) (p_rest p)\<rparr>"

fun skip_newlines :: "nat \<Rightarrow> string \<Rightarrow> parser" where
  "skip_newlines line [] = \<lparr>p_rest = [], p_line = line\<rparr>"
| "skip_newlines line (c # cs) =
     (let line = (if c = newline \<or> c = carriage then line + 1 else line) in
      if c \<noteq> CHR '' '' \<and> c \<noteq> tab \<and> c \<noteq> newline \<and> c \<noteq> carriage then \<lparr>p_rest = c # cs, p_line = line\<rparr>
      else skip_newlines line cs)"

definition skipBlanksAndNewlines :: "parser \<Rightarrow> parser" where
  "skipBlanksAndNewlines p = skip_newlines (p_line p) (p_rest p)"

definition skipToEOL :: "parser \<Rightarrow> parser" where
  "skipToEOL p = p\<lparr>p_rest := dropWhile (\<lambda>c. c \<noteq> newline) (p_rest p)\<rparr>"

definition advance :: "parser \<Rightarrow> parser" where
  "advance p =
     (case p_rest p of
        [] \<Rightarrow> p
      | c # cs \<Rightarrow> \<lparr>p_rest = cs, p_line = (if c = newline then p_line p + 1 else p_line p)\<rparr>)"

definition expect :: "char \<Rightarrow> parser \<Rightarrow> bool \<times> parser" where
  "expect c p = (if p_rest p \<noteq> [] \<and> hd (p_rest p) = c then (True, p\<lparr>p_rest := tl (p_rest p)\<rparr>) else (False, p))"

subsection \<open>Keys\<close>

fun key_loop :: "string \<Rightarrow> string \<Rightarrow> char + string \<times> string" where
  "key_loop acc [] = Inr (rev acc, [])"
| "key_loop acc (c # cs) =
     (if c = CHR ''='' \<or> c = CHR '' '' \<or> c = tab \<or> c = newline \<or> c = carriage then Inr (rev acc, c # cs)
      else if \<not> isKeyByte c then Inl c
      else key_loop (c # acc) cs)"

definition kson_key :: "parser \<Rightarrow> kson_error + string \<times> parser" where
  "kson_key p =
     (case key_loop [] (p_rest p) of
        Inl c \<Rightarrow> Inl (InvalidKeyChar (p_line p) c)
      | Inr (k, rest) \<Rightarrow> if k = [] then Inl (EmptyKey (p_line p)) else Inr (k, p\<lparr>p_rest := rest\<rparr>))"

definition bareObjectKey :: "parser \<Rightarrow> kson_error + string \<times> parser" where
  "bareObjectKey p =
     (let k = takeWhile (\<lambda>c. \<not> (c = CHR '':'' \<or> c = CHR '' '' \<or> c = tab)) (p_rest p) in
      if k = [] then Inl (EmptyObjectKey (p_line p)) else Inr (k, p\<lparr>p_rest := drop (length k) (p_rest p)\<rparr>))"

subsection \<open>Objects, arrays and values\<close>

type_synonym 'f parsed = "(kson_error + 'f kval \<times> parser) option"

text \<open>\<open>kson_object\<close> and \<open>kson_array\<close> are the loops after the opening bracket, with what was read so far.\<close>

function (sequential) kson_value :: "(string \<Rightarrow> string) \<Rightarrow> (string \<Rightarrow> 'f option) \<Rightarrow> nat \<Rightarrow> parser \<Rightarrow> 'f parsed"
  and kson_object :: "(string \<Rightarrow> string) \<Rightarrow> (string \<Rightarrow> 'f option) \<Rightarrow> nat \<Rightarrow> (string \<times> 'f kval) list \<Rightarrow> parser \<Rightarrow> 'f parsed"
  and kson_array :: "(string \<Rightarrow> string) \<Rightarrow> (string \<Rightarrow> 'f option) \<Rightarrow> nat \<Rightarrow> 'f kval list \<Rightarrow> parser \<Rightarrow> 'f parsed" where
  "kson_value getenv parseFloat fuel p =
     (case p_rest p of
        [] \<Rightarrow> Some (Inr (KString [], p))
      | c # cs \<Rightarrow>
          if c = newline then Some (Inr (KString [], p))
          else if c = CHR ''{'' then kson_object getenv parseFloat fuel [] (p\<lparr>p_rest := cs\<rparr>)
          else if c = CHR ''['' then kson_array getenv parseFloat fuel [] (p\<lparr>p_rest := cs\<rparr>)
          else if c = dquote \<or> c = squote then
            Some (case kson_quoted getenv c p of Inl e \<Rightarrow> Inl e | Inr (s, p1) \<Rightarrow> Inr (KString s, p1))
          else Some (Inr (kson_scalar getenv parseFloat p)))"
| "kson_object getenv parseFloat 0 obj p = None"
| "kson_object getenv parseFloat (Suc fuel) obj p =
     (let p = skipBlanksAndNewlines p in
      case p_rest p of
        [] \<Rightarrow> Some (Inl (UnterminatedObject (p_line p)))
      | c # cs \<Rightarrow>
          if c = CHR ''}'' then Some (Inr (KMap obj, p\<lparr>p_rest := cs\<rparr>))
          else if c = CHR '','' then kson_object getenv parseFloat fuel obj (p\<lparr>p_rest := cs\<rparr>)
          else
            (case (if c = dquote \<or> c = squote then kson_quoted getenv c p else bareObjectKey p) of
               Inl e \<Rightarrow> Some (Inl e)
             | Inr (k, p1) \<Rightarrow>
                 (case expect CHR '':'' (skipInline p1) of
                    (False, p2) \<Rightarrow> Some (Inl (ExpectedColon (p_line p2) k))
                  | (True, p2) \<Rightarrow>
                      (case kson_value getenv parseFloat fuel (skipInline p2) of
                         None \<Rightarrow> None
                       | Some (Inl e) \<Rightarrow> Some (Inl e)
                       | Some (Inr (v, p3)) \<Rightarrow> kson_object getenv parseFloat fuel (AList.update k v obj) (skipInline p3)))))"
| "kson_array getenv parseFloat 0 arr p = None"
| "kson_array getenv parseFloat (Suc fuel) arr p =
     (let p = skipBlanksAndNewlines p in
      case p_rest p of
        [] \<Rightarrow> Some (Inl (UnterminatedArray (p_line p)))
      | c # cs \<Rightarrow>
          if c = CHR '']'' then Some (Inr (KList arr, p\<lparr>p_rest := cs\<rparr>))
          else if c = CHR '','' then kson_array getenv parseFloat fuel arr (p\<lparr>p_rest := cs\<rparr>)
          else
            (case kson_value getenv parseFloat fuel p of
               None \<Rightarrow> None
             | Some (Inl e) \<Rightarrow> Some (Inl e)
             | Some (Inr (v, p1)) \<Rightarrow> kson_array getenv parseFloat fuel (arr @ [v]) (skipInline p1)))"
  by pat_completeness auto

termination
  by (relation "measure (\<lambda>x. case x of Inl (_, _, n, _) \<Rightarrow> 2 * n + 1 | Inr (Inl (_, _, n, _, _)) \<Rightarrow> 2 * n | Inr (Inr (_, _, n, _, _)) \<Rightarrow> 2 * n)") auto

subsection \<open>Documents\<close>

text \<open>\<^verbatim>\<open>setNested\<close>: the part of the key before the first dot, and the rest.\<close>

definition split_dot :: "string \<Rightarrow> string \<times> string option" where
  "split_dot key =
     (if CHR ''.'' \<in> set key
      then (let head = takeWhile (\<lambda>c. c \<noteq> CHR ''.'') key in (head, Some (drop (length head + 1) key)))
      else (key, None))"

lemma split_dot_shorter: "split_dot key = (head, Some tail) \<Longrightarrow> length tail < length key"
  by (auto simp: split_dot_def Let_def split: if_splits dest: length_pos_if_in_set)

function setNested :: "(string \<times> 'f kval) list \<Rightarrow> string \<Rightarrow> 'f kval \<Rightarrow> string \<times> string + (string \<times> 'f kval) list" where
  "setNested m key val =
     (case split_dot key of
        (head, None) \<Rightarrow> Inr (AList.update head val m)
      | (head, Some tail) \<Rightarrow>
          (case map_of m head of
             None \<Rightarrow> map_sum id (\<lambda>sub. AList.update head (KMap sub) m) (setNested [] tail val)
           | Some (KMap sub) \<Rightarrow> map_sum id (\<lambda>sub. AList.update head (KMap sub) m) (setNested sub tail val)
           | Some _ \<Rightarrow> Inl (head, tail)))"
  by pat_completeness auto

termination
  by (relation "measure (\<lambda>(m, key, val). length key)") (auto intro: split_dot_shorter [OF sym])

definition env_key :: "string \<Rightarrow> string" where
  "env_key key = ''KSON_'' @ map (\<lambda>c. upper (if c = CHR ''.'' then CHR ''_'' else c)) key"

fun kson_document :: "(string \<Rightarrow> string) \<Rightarrow> (string \<Rightarrow> 'f option) \<Rightarrow> nat \<Rightarrow> (string \<times> 'f kval) list \<Rightarrow> parser \<Rightarrow>
  (kson_error + (string \<times> 'f kval) list) option" where
  "kson_document getenv parseFloat 0 out p = None"
| "kson_document getenv parseFloat (Suc fuel) out p =
     (let p = skipBlanks p in
      case p_rest p of
        [] \<Rightarrow> Some (Inr out)
      | c # cs \<Rightarrow>
          if c = CHR ''#'' then kson_document getenv parseFloat fuel out (skipToEOL p)
          else if c = newline \<or> c = carriage then kson_document getenv parseFloat fuel out (advance p)
          else
            (case kson_key p of
               Inl e \<Rightarrow> Some (Inl e)
             | Inr (key, p1) \<Rightarrow>
                 (case expect CHR ''='' (skipInline p1) of
                    (False, p2) \<Rightarrow> Some (Inl (ExpectedEquals (p_line p2) key))
                  | (True, p2) \<Rightarrow>
                      (case kson_value getenv parseFloat fuel (skipInline p2) of
                         None \<Rightarrow> None
                       | Some (Inl e) \<Rightarrow> Some (Inl e)
                       | Some (Inr (v, p3)) \<Rightarrow>
                           (let override = getenv (env_key key);
                                val = (if override \<noteq> [] then inferType parseFloat override else v)
                            in case setNested out key val of
                                 Inl (head, tail) \<Rightarrow> Some (Inl (KeyConflict (p_line p3) head tail))
                               | Inr out1 \<Rightarrow>
                                   (let p4 = skipInline p3;
                                        p5 = (if p_rest p4 \<noteq> [] \<and> hd (p_rest p4) = CHR ''#'' then skipToEOL p4 else p4);
                                        p6 = (if p_rest p5 \<noteq> [] \<and> (hd (p_rest p5) = newline \<or> hd (p_rest p5) = carriage)
                                              then advance p5 else p5)
                                    in kson_document getenv parseFloat fuel out1 p6))))))"

definition kson_Parse :: "(string \<Rightarrow> string) \<Rightarrow> (string \<Rightarrow> 'f option) \<Rightarrow> nat \<Rightarrow> string \<Rightarrow>
  (kson_error + (string \<times> 'f kval) list) option" where
  "kson_Parse getenv parseFloat fuel src = kson_document getenv parseFloat fuel [] \<lparr>p_rest = src, p_line = 1\<rparr>"

subsection \<open>Accessors\<close>

function kson_Get :: "(string \<times> 'f kval) list \<Rightarrow> string \<Rightarrow> 'f kval" where
  "kson_Get m path =
     (case split_dot path of
        (head, None) \<Rightarrow> (case map_of m head of None \<Rightarrow> KNil | Some v \<Rightarrow> v)
      | (head, Some tail) \<Rightarrow>
          (case map_of m head of
             None \<Rightarrow> KNil
           | Some (KMap sub) \<Rightarrow> kson_Get sub tail
           | Some _ \<Rightarrow> KNil))"
  by pat_completeness auto

termination
  by (relation "measure (\<lambda>(m, path). length path)") (auto intro: split_dot_shorter [OF sym])

text \<open>\<open>sprint\<close> is \<^verbatim>\<open>fmt.Sprintf("%v", v)\<close> and \<open>trunc\<close> the conversion of a float to \<^verbatim>\<open>int64\<close>.\<close>

definition kson_GetString :: "('f kval \<Rightarrow> string) \<Rightarrow> (string \<times> 'f kval) list \<Rightarrow> string \<Rightarrow> string \<Rightarrow> string" where
  "kson_GetString sprint m path dflt =
     (case kson_Get m path of KNil \<Rightarrow> dflt | KString t \<Rightarrow> t | v \<Rightarrow> sprint v)"

definition kson_GetInt :: "('f \<Rightarrow> int) \<Rightarrow> (string \<times> 'f kval) list \<Rightarrow> string \<Rightarrow> int \<Rightarrow> int" where
  "kson_GetInt trunc m path dflt =
     (case kson_Get m path of
        KInt t \<Rightarrow> t
      | KFloat t \<Rightarrow> trunc t
      | KString t \<Rightarrow> (case ParseInt t of Some i \<Rightarrow> i | None \<Rightarrow> dflt)
      | _ \<Rightarrow> dflt)"

definition kson_GetBool :: "(string \<times> 'f kval) list \<Rightarrow> string \<Rightarrow> bool \<Rightarrow> bool" where
  "kson_GetBool m path dflt =
     (case kson_Get m path of
        KBool t \<Rightarrow> t
      | KString t \<Rightarrow>
          if ToLower t \<in> {''true'', ''yes'', ''on'', ''1''} then True
          else if ToLower t \<in> {''false'', ''no'', ''off'', ''0''} then False
          else dflt
      | KInt t \<Rightarrow> t \<noteq> 0
      | _ \<Rightarrow> dflt)"

definition kson_GetMap :: "(string \<times> 'f kval) list \<Rightarrow> string \<Rightarrow> (string \<times> 'f kval) list option" where
  "kson_GetMap m path = (case kson_Get m path of KMap sub \<Rightarrow> Some sub | _ \<Rightarrow> None)"

subsection \<open>Setting and getting\<close>

text \<open>The parts of a dotted key.\<close>

function parts :: "string \<Rightarrow> string list" where
  "parts key = (case split_dot key of (head, None) \<Rightarrow> [head] | (head, Some tail) \<Rightarrow> head # parts tail)"
  by pat_completeness auto

termination
  by (relation "measure length") (auto intro: split_dot_shorter [OF sym])

definition related :: "string \<Rightarrow> string \<Rightarrow> bool" where
  "related k k' \<longleftrightarrow> prefix (parts k) (parts k') \<or> prefix (parts k') (parts k)"

declare setNested.simps [simp del] kson_Get.simps [simp del] parts.simps [simp del]

lemma parts_nonempty: "parts k \<noteq> []"
  by (subst parts.simps) (simp split: prod.split option.split)

lemma setNested_cases:
  assumes "setNested m k v = Inr m'"
  obtains (leaf) "snd (split_dot k) = None" "m' = AList.update (fst (split_dot k)) v m"
  | (nested) tail sub sub' where "snd (split_dot k) = Some tail" "setNested sub tail v = Inr sub'"
      "m' = AList.update (fst (split_dot k)) (KMap sub') m"
      "map_of m (fst (split_dot k)) = Some (KMap sub) \<or> map_of m (fst (split_dot k)) = None \<and> sub = []"
  using assms setNested.simps [of m k v]
  by (auto split: prod.splits option.splits kval.splits simp: map_sum_def split: sum.splits)

lemma Get_leaf: "snd (split_dot k) = None \<Longrightarrow> kson_Get m k = (case map_of m (fst (split_dot k)) of None \<Rightarrow> KNil | Some v \<Rightarrow> v)"
  by (cases "split_dot k") (subst kson_Get.simps, simp)

lemma Get_nested: "snd (split_dot k) = Some tail \<Longrightarrow>
   kson_Get m k = (case map_of m (fst (split_dot k)) of Some (KMap sub) \<Rightarrow> kson_Get sub tail | _ \<Rightarrow> KNil)"
  by (subst kson_Get.simps) (auto split: prod.split option.split kval.split)

lemma parts_leaf: "snd (split_dot k) = None \<Longrightarrow> parts k = [fst (split_dot k)]"
  by (cases "split_dot k") (subst parts.simps, simp)

lemma parts_nested: "snd (split_dot k) = Some tail \<Longrightarrow> parts k = fst (split_dot k) # parts tail"
  by (cases "split_dot k") (subst parts.simps, simp)

lemma Get_setNested: "setNested m k v = Inr m' \<Longrightarrow> kson_Get m' k = v"
proof (induction k arbitrary: m m' rule: parts.induct)
  case (1 k)
  from 1(2) show ?case
  proof (cases rule: setNested_cases)
    case leaf
    then show ?thesis by (simp add: Get_leaf update_conv')
  next
    case (nested tail sub sub')
    have "kson_Get sub' tail = v"
      using 1(1) [of "fst (split_dot k)" "Some tail" tail sub sub'] nested(1,2) by (metis prod.collapse)
    then show ?thesis using nested by (simp add: Get_nested update_conv')
  qed
qed

lemma Get_nil: "kson_Get [] k = KNil"
  by (subst kson_Get.simps) (simp split: prod.split option.split)

lemma Get_setNested_other:
  "setNested m k v = Inr m' \<Longrightarrow> \<not> related k k' \<Longrightarrow> kson_Get m' k' = kson_Get m k'"
proof (induction k arbitrary: m m' k' rule: parts.induct)
  case (1 k)
  from 1(2) show ?case
  proof (cases rule: setNested_cases)
    case leaf
    have "fst (split_dot k') \<noteq> fst (split_dot k)"
    proof
      assume eq: "fst (split_dot k') = fst (split_dot k)"
      have "prefix (parts k) (parts k')"
        using eq parts_leaf [OF leaf(1)] parts_leaf [of k'] parts_nested [of k'] by (cases "snd (split_dot k')") simp_all
      then show False using 1(3) by (simp add: related_def)
    qed
    then show ?thesis
      using leaf by (cases "snd (split_dot k')") (simp_all add: Get_leaf Get_nested update_conv')
  next
    case (nested tail sub sub')
    show ?thesis
    proof (cases "fst (split_dot k') = fst (split_dot k)")
      case True
      have "snd (split_dot k') \<noteq> None"
      proof
        assume "snd (split_dot k') = None"
        then show False using 1(3) True parts_leaf [of k'] parts_nested [OF nested(1)] by (simp add: related_def)
      qed
      then obtain tail' where tail': "snd (split_dot k') = Some tail'" by blast
      have "\<not> related tail tail'"
        using 1(3) True parts_nested [OF nested(1)] parts_nested [OF tail'] by (simp add: related_def)
      then have "kson_Get sub' tail' = kson_Get sub tail'"
        using 1(1) [of "fst (split_dot k)" "Some tail" tail sub sub' tail'] nested(1,2) by (metis prod.collapse)
      then show ?thesis using nested True tail' by (auto simp: Get_nested update_conv' Get_nil)
    next
      case False
      then show ?thesis using nested by (cases "snd (split_dot k')") (simp_all add: Get_leaf Get_nested update_conv')
    qed
  qed
qed

subsection \<open>A parser that does not return\<close>

lemma scalar_stuck: "p_rest p = c # cs \<Longrightarrow> c = CHR ''#'' \<or> c = CHR ''}'' \<Longrightarrow> \<exists>v. kson_scalar getenv parseFloat p = (v, p)"
  by (auto simp: kson_scalar_def)

lemma array_stuck:
  assumes "p_rest p = c # cs" "c = CHR ''#'' \<or> c = CHR ''}''"
  shows "kson_array getenv parseFloat fuel arr p = None"
proof (induction fuel arbitrary: arr)
  case (Suc fuel)
  obtain v where v: "kson_scalar getenv parseFloat p = (v, p)" using scalar_stuck [OF assms] by blast
  have p: "skipBlanksAndNewlines p = p" "skipInline p = p"
    using assms by (auto simp: skipBlanksAndNewlines_def skipInline_def)
  have "kson_value getenv parseFloat fuel p = Some (Inr (v, p))"
    using assms v by (auto simp: kson_value.simps)
  then show ?case using assms p Suc by (auto simp: kson_array.simps)
qed (simp add: kson_array.simps)

subsection \<open>A parser that returns\<close>

text \<open>Every part of the parser leaves a suffix of its input.\<close>

lemma suffix_skip [simp]:
  "suffix (p_rest (skipBlanks p)) (p_rest p)" "suffix (p_rest (skipInline p)) (p_rest p)" "suffix (p_rest (skipToEOL p)) (p_rest p)"
  "suffix (p_rest (advance p)) (p_rest p)" "suffix (p_rest (snd (expect c p))) (p_rest p)"
  by (auto simp: skipBlanks_def skipInline_def skipToEOL_def advance_def expect_def suffix_dropWhile suffix_Cons suffix_tl split: list.split)

lemma suffix_skip_newlines: "suffix (p_rest (skip_newlines line cs)) cs"
  by (induction line cs rule: skip_newlines.induct) (auto simp: Let_def suffix_Cons)

declare scalar_loop.simps [simp del] quoted_loop.simps [simp del]

lemma suffix_scalar_loop: "suffix (snd (scalar_loop acc n cs)) cs"
proof (induction cs arbitrary: acc n rule: length_induct)
  case (1 cs)
  show ?case
  proof (cases cs)
    case (Cons c ds)
    have "suffix (snd (scalar_loop a m ds)) ds" "suffix (snd (scalar_loop a m (tl ds))) (tl ds)" for a m using 1 Cons by simp_all
    then have IH: "suffix (snd (scalar_loop a m ds)) (x # ds)" "suffix (snd (scalar_loop a m (tl ds))) (x # ds)" for a m x
      using suffix_tl suffix_ConsI suffix_order.trans by metis+
    show ?thesis unfolding Cons scalar_loop.simps(2) by (simp add: IH split: if_split)
  qed (simp add: scalar_loop.simps)
qed

lemma suffix_quoted_loop: "quoted_loop d acc line cs = Inr (s, line', rest) \<Longrightarrow> suffix rest cs"
proof (induction cs arbitrary: acc line rule: length_induct)
  case (1 cs)
  show ?case
  proof (cases cs)
    case (Cons c ds)
    have "suffix rest ys" if "length ys < length cs" "quoted_loop d a m ys = Inr (s, line', rest)" for ys a m
      using 1(1) that by blast
    then have "quoted_loop d a m ds = Inr (s, line', rest) \<Longrightarrow> suffix rest ds"
      "quoted_loop d a m (tl ds) = Inr (s, line', rest) \<Longrightarrow> suffix rest (tl ds)" for a m using Cons by simp_all
    then have IH: "quoted_loop d a m ds = Inr (s, line', rest) \<Longrightarrow> suffix rest (x # ds)"
      "quoted_loop d a m (tl ds) = Inr (s, line', rest) \<Longrightarrow> suffix rest (x # ds)" for a m x
      using suffix_tl suffix_ConsI suffix_order.trans by metis+
    show ?thesis
      using 1(2) IH [of _ _ c] suffix_ConsI [OF suffix_order.refl, of ds c] unfolding Cons quoted_loop.simps(2) by (simp split: if_splits)
  qed (use 1(2) in \<open>simp add: quoted_loop.simps\<close>)
qed

lemma suffix_quoted: "kson_quoted getenv c p = Inr (s, p') \<Longrightarrow> p_rest p = d # cs \<Longrightarrow> suffix (p_rest p') cs"
  by (auto simp: kson_quoted_def split: sum.splits dest!: suffix_quoted_loop)

lemma suffix_bareObjectKey:
  assumes "bareObjectKey p = Inr (k, p')" "p_rest p = d # cs"
  shows "suffix (p_rest p') cs"
proof -
  let ?k = "takeWhile (\<lambda>c. \<not> (c = CHR '':'' \<or> c = CHR '' '' \<or> c = tab)) (p_rest p)"
  have "p_rest p' = drop (length ?k) (d # cs)" "?k \<noteq> []" using assms by (auto simp: bareObjectKey_def Let_def split: if_splits)
  then show ?thesis by (cases "length ?k") (simp_all add: suffix_drop)
qed

definition returns :: "'f parsed \<Rightarrow> string \<Rightarrow> bool" where
  "returns r cs \<longleftrightarrow> (\<exists>x. r = Some x \<and> (\<forall>v p. x = Inr (v, p) \<longrightarrow> suffix (p_rest p) cs))"

lemma returns_mono: "returns r cs \<Longrightarrow> suffix cs ds \<Longrightarrow> returns r ds"
  by (auto simp: returns_def intro: suffix_order.trans)

text \<open>What an object does with one entry: the value is read from a shorter input.\<close>

lemma object_entry:
  assumes cs: "p_rest p = c # cs" "(if c = dquote \<or> c = squote then kson_quoted getenv c p else bareObjectKey p) = Inr (k, p1)"
    "expect CHR '':'' (skipInline p1) = (True, p2)"
  shows "suffix (p_rest (skipInline p2)) cs" "length (p_rest (skipInline p2)) < length cs"
proof -
  have p1: "suffix (p_rest p1) cs"
    using cs(1,2) suffix_quoted [of getenv c p k p1 c cs] suffix_bareObjectKey [of p k p1 c cs] by (simp split: if_splits)
  have in1: "suffix (p_rest (skipInline p1)) (p_rest p1)" and in2: "suffix (p_rest (skipInline p2)) (p_rest p2)" by simp_all
  have p2: "p_rest (skipInline p1) = CHR '':'' # p_rest p2"
    using cs(3) by (cases "p_rest (skipInline p1)") (auto simp: expect_def split: if_splits)
  have "suffix (CHR '':'' # p_rest p2) cs" using in1 p1 unfolding p2 by (rule suffix_order.trans)
  then have "suffix (p_rest p2) cs" "length (p_rest p2) < length cs"
    by (auto dest: suffix_ConsD suffix_length_le)
  then show "suffix (p_rest (skipInline p2)) cs" "length (p_rest (skipInline p2)) < length cs"
    using suffix_length_le [OF in2] suffix_order.trans [OF in2] by simp_all
qed

declare kson_value.simps [simp del] kson_object.simps [simp del] kson_array.simps [simp del]

lemma value_returns:
  fixes getenv :: "string \<Rightarrow> string" and parseFloat :: "string \<Rightarrow> 'f option"
  shows "CHR ''['' \<notin> set (p_rest p) \<Longrightarrow> length (p_rest p) \<le> fuel \<Longrightarrow> returns (kson_value getenv parseFloat fuel p) (p_rest p)"
    and "CHR ''['' \<notin> set (p_rest p) \<Longrightarrow> length (p_rest p) < fuel \<Longrightarrow> returns (kson_object getenv parseFloat fuel obj p) (p_rest p)"
proof (induction fuel arbitrary: p obj)
  case 0
  {
    case 1
    then show ?case by (simp add: kson_value.simps returns_def)
  next
    case 2
    then show ?case by simp
  }
next
  case (Suc fuel)
  have obj: "returns (kson_object getenv parseFloat (Suc fuel) obj p) (p_rest p)"
    if p: "CHR ''['' \<notin> set (p_rest p)" "length (p_rest p) < Suc fuel" for obj p
  proof -
    define q where "q = skipBlanksAndNewlines p"
    have q: "suffix (p_rest q) (p_rest p)" by (simp add: q_def skipBlanksAndNewlines_def suffix_skip_newlines)
    then have q2: "CHR ''['' \<notin> set (p_rest q)" "length (p_rest q) < Suc fuel" using p suffix_length_le [OF q] set_mono_suffix [OF q] by auto
    have "returns (kson_object getenv parseFloat (Suc fuel) obj p) (p_rest q)"
    proof (cases "p_rest q")
      case Nil
      then show ?thesis by (subst kson_object.simps) (simp add: q_def [symmetric] returns_def)
    next
      case (Cons c cs)
      have comma: "returns (kson_object getenv parseFloat fuel obj (q\<lparr>p_rest := cs\<rparr>)) (p_rest q)"
        using Suc.IH(2) [of "q\<lparr>p_rest := cs\<rparr>" obj] q2 Cons by (auto intro: returns_mono simp: suffix_Cons)
      define k where "k = (if c = dquote \<or> c = squote then kson_quoted getenv c q else bareObjectKey q)"
      have entry: "returns (case kson_value getenv parseFloat fuel (skipInline p2) of
            None \<Rightarrow> None
          | Some (Inl e) \<Rightarrow> Some (Inl e)
          | Some (Inr (v, p3)) \<Rightarrow> kson_object getenv parseFloat fuel (AList.update key v obj) (skipInline p3)) (p_rest q)"
        if "k = Inr (key, p1)" "expect CHR '':'' (skipInline p1) = (True, p2)" for key p1 p2
      proof -
        note e = object_entry [OF Cons that(1) [unfolded k_def] that(2)]
        have e1: "suffix (p_rest (skipInline p2)) (p_rest q)" "length (p_rest (skipInline p2)) < fuel"
          using e q2(2) Cons by (auto simp: suffix_ConsI)
        have e2: "CHR ''['' \<notin> set (p_rest (skipInline p2))" using set_mono_suffix [OF e1(1)] q2(1) by blast
        then obtain x where x: "kson_value getenv parseFloat fuel (skipInline p2) = Some x"
            "\<And>v p3. x = Inr (v, p3) \<Longrightarrow> suffix (p_rest p3) (p_rest (skipInline p2))"
          using Suc.IH(1) [of "skipInline p2"] e1(2) by (auto simp: returns_def)
        have "returns (kson_object getenv parseFloat fuel (AList.update key v obj) (skipInline p3)) (p_rest q)" if "x = Inr (v, p3)" for v p3
        proof -
          have "suffix (p_rest (skipInline p3)) (p_rest p3)" by simp
          then have s3: "suffix (p_rest (skipInline p3)) (p_rest (skipInline p2))" by (rule suffix_order.trans [OF _ x(2) [OF that]])
          have "CHR ''['' \<notin> set (p_rest (skipInline p3))" "length (p_rest (skipInline p3)) < fuel"
            using set_mono_suffix [OF s3] e2 suffix_length_le [OF s3] e1(2) by auto
          from Suc.IH(2) [OF this] show ?thesis by (rule returns_mono [OF _ suffix_order.trans [OF s3 e1(1)]])
        qed
        then show ?thesis using x(1) by (cases x) (auto simp: returns_def)
      qed
      show ?thesis
        using comma entry Cons
        by (subst kson_object.simps) (auto simp: q_def [symmetric] k_def [symmetric] Let_def returns_def suffix_Cons split: sum.split prod.split bool.split)
    qed
    then show ?thesis by (rule returns_mono [OF _ q])
  qed
  {
    case 1
    show ?case
    proof (cases "p_rest p")
      case (Cons c cs)
      have o1: "returns (kson_object getenv parseFloat (Suc fuel) [] (p\<lparr>p_rest := cs\<rparr>)) (p_rest p)"
        using obj [of "p\<lparr>p_rest := cs\<rparr>" "[]"] 1 Cons by (auto intro: returns_mono simp: suffix_Cons)
      have sc: "suffix (p_rest (snd (kson_scalar getenv parseFloat p))) (p_rest p)"
        using suffix_scalar_loop [of "[]" 0 "p_rest p"] by (cases "scalar_loop [] 0 (p_rest p)") (simp add: kson_scalar_def)
      have qu: "kson_quoted getenv c p = Inr (s, p1) \<Longrightarrow> suffix (p_rest p1) (p_rest p)" for s p1
        using suffix_quoted [of getenv c p s p1 c cs] Cons by (simp add: suffix_ConsI)
      have "c \<noteq> CHR ''[''" using 1(1) Cons by auto
      then show ?thesis
        using o1 sc qu by (subst kson_value.simps) (auto simp: Cons returns_def split: sum.split)
    qed (simp add: kson_value.simps returns_def)
  next
    case 2
    then show ?case by (rule obj)
  }
qed

text \<open>A document takes at least one byte per round of its loop.\<close>

lemma key_loop_rest: "key_loop acc cs = Inr (k, rest) \<Longrightarrow> \<exists>pre. k = rev acc @ pre \<and> cs = pre @ rest"
proof (induction acc cs rule: key_loop.induct)
  case (2 acc c cs)
  then show ?case by (auto split: if_splits)
qed auto

lemma key_shorter:
  assumes "kson_key p = Inr (k, p1)" "expect CHR ''='' (skipInline p1) = (True, p2)"
  shows "suffix (p_rest (skipInline p2)) (p_rest p)" "length (p_rest (skipInline p2)) < length (p_rest p)"
proof -
  obtain pre where "p_rest p = pre @ p_rest p1" 
    using assms(1) by (auto simp: kson_key_def split: sum.splits if_splits dest!: key_loop_rest)
  then have p1: "suffix (p_rest p1) (p_rest p)" by (simp add: suffix_def)
  have in1: "suffix (p_rest (skipInline p1)) (p_rest p1)" and in2: "suffix (p_rest (skipInline p2)) (p_rest p2)" by simp_all
  have p2: "p_rest (skipInline p1) = CHR ''='' # p_rest p2"
    using assms(2) by (cases "p_rest (skipInline p1)") (auto simp: expect_def split: if_splits)
  have "suffix (CHR ''='' # p_rest p2) (p_rest p)" using in1 p1 unfolding p2 by (rule suffix_order.trans)
  then have "suffix (p_rest p2) (p_rest p)" "length (p_rest p2) < length (p_rest p)"
    by (auto dest: suffix_ConsD suffix_length_le)
  then show "suffix (p_rest (skipInline p2)) (p_rest p)" "length (p_rest (skipInline p2)) < length (p_rest p)"
    using suffix_length_le [OF in2] suffix_order.trans [OF in2] by simp_all
qed

definition line_end :: "parser \<Rightarrow> parser" where
  "line_end p3 =
     (let p4 = skipInline p3;
          p5 = (if p_rest p4 \<noteq> [] \<and> hd (p_rest p4) = CHR ''#'' then skipToEOL p4 else p4)
      in if p_rest p5 \<noteq> [] \<and> (hd (p_rest p5) = newline \<or> hd (p_rest p5) = carriage) then advance p5 else p5)"

lemma suffix_line_end: "suffix (p_rest (line_end p)) (p_rest p)"
proof -
  have "suffix (p_rest (advance (skipToEOL (skipInline p)))) (p_rest p)" "suffix (p_rest (advance (skipInline p))) (p_rest p)"
    "suffix (p_rest (skipToEOL (skipInline p))) (p_rest p)"
    using suffix_skip suffix_order.trans by meson+
  then show ?thesis by (simp add: line_end_def Let_def)
qed

lemma document_entry:
  assumes "p_rest (skipBlanks p) = c # cs" "c \<notin> {CHR ''#'', newline, carriage}"
  shows "kson_document getenv parseFloat (Suc fuel) out p =
     (case kson_key (skipBlanks p) of
        Inl e \<Rightarrow> Some (Inl e)
      | Inr (key, p1) \<Rightarrow>
          (case expect CHR ''='' (skipInline p1) of
             (False, p2) \<Rightarrow> Some (Inl (ExpectedEquals (p_line p2) key))
           | (True, p2) \<Rightarrow>
               (case kson_value getenv parseFloat fuel (skipInline p2) of
                  None \<Rightarrow> None
                | Some (Inl e) \<Rightarrow> Some (Inl e)
                | Some (Inr (v, p3)) \<Rightarrow>
                    (case setNested out key (if getenv (env_key key) \<noteq> [] then inferType parseFloat (getenv (env_key key)) else v) of
                       Inl (head, tail) \<Rightarrow> Some (Inl (KeyConflict (p_line p3) head tail))
                     | Inr out1 \<Rightarrow> kson_document getenv parseFloat fuel out1 (line_end p3)))))"
  using assms unfolding kson_document.simps line_end_def Let_def by simp

declare kson_document.simps(2) [simp del]

lemma document_returns:
  "CHR ''['' \<notin> set (p_rest p) \<Longrightarrow> length (p_rest p) < fuel \<Longrightarrow> kson_document getenv parseFloat fuel out p \<noteq> None"
proof (induction fuel arbitrary: p out)
  case (Suc fuel)
  have rec: "kson_document getenv parseFloat fuel out1 p' \<noteq> None"
    if "suffix (p_rest p') (p_rest p)" "length (p_rest p') < length (p_rest p)" for out1 p'
    using Suc.prems that set_mono_suffix [OF that(1)] by (intro Suc.IH) auto
  have sb: "suffix (p_rest (skipBlanks p)) (p_rest p)" by simp
  show ?case
  proof (cases "p_rest (skipBlanks p)")
    case Nil
    then show ?thesis by (simp add: kson_document.simps(2))
  next
    case (Cons c cs)
    have cs: "suffix cs (p_rest p)" "length cs < length (p_rest p)"
      using sb suffix_length_le [OF sb] unfolding Cons by (auto dest: suffix_ConsD)
    consider (comment) "c = CHR ''#''" | (nl) "c = newline \<or> c = carriage" | (entry) "c \<notin> {CHR ''#'', newline, carriage}" by blast
    then show ?thesis
    proof cases
      case comment
      have "suffix (p_rest (skipToEOL (skipBlanks p))) cs" using Cons comment by (simp add: skipToEOL_def suffix_dropWhile)
      then have "suffix (p_rest (skipToEOL (skipBlanks p))) (p_rest p)" "length (p_rest (skipToEOL (skipBlanks p))) < length (p_rest p)"
        using cs suffix_order.trans suffix_length_le by (blast, fastforce dest: suffix_length_le)
      then show ?thesis using rec Cons comment by (simp add: kson_document.simps(2))
    next
      case nl
      then show ?thesis using rec [of "advance (skipBlanks p)"] Cons cs by (auto simp: kson_document.simps(2) advance_def)
    next
      case entry
      have val: "\<exists>x. kson_value getenv parseFloat fuel (skipInline p2) = Some x \<and>
            (\<forall>v p3. x = Inr (v, p3) \<longrightarrow> (\<forall>out1. kson_document getenv parseFloat fuel out1 (line_end p3) \<noteq> None))"
        if "kson_key (skipBlanks p) = Inr (key, p1)" "expect CHR ''='' (skipInline p1) = (True, p2)" for key p1 p2
      proof -
        have l: "suffix (p_rest (skipInline p2)) (p_rest p)" "length (p_rest (skipInline p2)) < length (p_rest p)"
          using key_shorter [OF that] suffix_order.trans [OF _ sb] suffix_length_le [OF sb] by auto
        have "CHR ''['' \<notin> set (p_rest (skipInline p2))" "length (p_rest (skipInline p2)) \<le> fuel"
          using set_mono_suffix [OF l(1)] l(2) Suc.prems by auto
        from value_returns(1) [OF this, of getenv parseFloat]
        obtain x where x: "kson_value getenv parseFloat fuel (skipInline p2) = Some x"
            "\<And>v p3. x = Inr (v, p3) \<Longrightarrow> suffix (p_rest p3) (p_rest (skipInline p2))" by (auto simp: returns_def)
        have "kson_document getenv parseFloat fuel out1 (line_end p3) \<noteq> None" if "x = Inr (v, p3)" for v p3 out1
        proof (rule rec)
          have s: "suffix (p_rest (line_end p3)) (p_rest (skipInline p2))"
            using suffix_line_end x(2) [OF that] by (rule suffix_order.trans)
          then show "suffix (p_rest (line_end p3)) (p_rest p)" using l(1) by (rule suffix_order.trans)
          show "length (p_rest (line_end p3)) < length (p_rest p)" using suffix_length_le [OF s] l(2) by simp
        qed
        then show ?thesis using x(1) by blast
      qed
      show ?thesis
        unfolding document_entry [OF Cons entry]
        by (auto split: sum.split prod.split bool.split option.split dest: val)
    qed
  qed
qed simp

end
