(* ===== verification/KsonParse.thy ===== *)
theory KsonParse
  imports Kson
begin

text \<open>
  What the parser of \<^verbatim>\<open>pkg/kson/kson.go\<close> does with whole sources: it returns on every source without an array, it does not return on an array with a
  comment where an element is expected, it reads back printed documents, with blank and
  comment lines between the entries and values overridden by the environment, and lookups agree with the keys that were set.
\<close>

subsection \<open>Returning\<close>

text \<open>\<^bold>\<open>C27.\<close> A source without an opening square bracket is parsed or refused: the parser returns, in at most one round per byte.\<close>

theorem kson_parse_returns: "CHR ''['' \<notin> set src \<Longrightarrow> kson_Parse getenv parseFloat (Suc (length src)) src \<noteq> None"
  by (simp add: kson_Parse_def document_returns)

theorem kson_parse_returns_witness:
  "CHR ''['' \<notin> set ''smtp = { host: h, port: 465'' \<and>
   kson_Parse (\<lambda>_. []) (\<lambda>_. None :: int option) (Suc (length ''smtp = { host: h, port: 465'')) ''smtp = { host: h, port: 465'' \<noteq> None"
proof -
  have c: "CHR ''['' \<notin> set ''smtp = { host: h, port: 465''" by simp
  show ?thesis using c kson_parse_returns [OF c] by blast
qed

subsection \<open>Not returning\<close>

lemma keybyte_neq:
  "isKeyByte c \<Longrightarrow> c \<noteq> CHR ''='' \<and> c \<noteq> CHR '' '' \<and> c \<noteq> tab \<and> c \<noteq> newline \<and> c \<noteq> carriage \<and> c \<noteq> CHR ''#'' \<and> c \<noteq> CHR ''$'' \<and>
     c \<noteq> CHR ''{'' \<and> c \<noteq> CHR ''}'' \<and> c \<noteq> CHR ''['' \<and> c \<noteq> CHR '']'' \<and> c \<noteq> CHR '','' \<and> c \<noteq> CHR '':'' \<and> c \<noteq> dquote \<and> c \<noteq> squote"
  by (auto simp: isKeyByte_def between_def code_def)

lemma key_loop_key: "list_all isKeyByte k \<Longrightarrow> c \<in> {CHR ''='', CHR '' '', tab} \<Longrightarrow> key_loop acc (k @ c # cs) = Inr (rev acc @ k, c # cs)"
  by (induction k arbitrary: acc) (auto dest: keybyte_neq)

lemma skip_newlines_blank:
  "list_all (\<lambda>c. c \<in> {CHR '' '', tab, newline, carriage}) ws \<Longrightarrow> c \<notin> {CHR '' '', tab, newline, carriage} \<Longrightarrow>
     p_rest (skip_newlines n (ws @ c # cs)) = c # cs"
  by (induction ws arbitrary: n) (auto simp: Let_def)

lemma skip_newlines_stop: "c \<notin> {CHR '' '', tab, newline, carriage} \<Longrightarrow> skip_newlines n (c # cs) = \<lparr>p_rest = c # cs, p_line = n\<rparr>"
  by auto

lemma skip_stop:
  assumes "p_rest p = c # cs" "c \<notin> {CHR '' '', tab, newline, carriage}"
  shows "skipBlanksAndNewlines p = p" "skipInline p = p" "skipBlanks p = p"
  using assms by (auto simp: skipBlanksAndNewlines_def skipInline_def skipBlanks_def)

lemma array_after_blanks:
  assumes "p_rest (skipBlanksAndNewlines p) = c # cs" "c \<notin> {CHR '' '', tab, newline, carriage}"
  shows "kson_array getenv parseFloat fuel arr p = kson_array getenv parseFloat fuel arr (skipBlanksAndNewlines p)"
  by (cases fuel) (simp_all add: kson_array.simps skip_stop(1) [OF assms])

abbreviation blank :: "char \<Rightarrow> bool" where
  "blank c \<equiv> c = CHR '' '' \<or> c = tab"

lemma skip_blanks:
  assumes "list_all blank b"
  shows "skipInline \<lparr>p_rest = b @ ds, p_line = n\<rparr> = skipInline \<lparr>p_rest = ds, p_line = n\<rparr>"
    "skipBlanks \<lparr>p_rest = b @ ds, p_line = n\<rparr> = skipBlanks \<lparr>p_rest = ds, p_line = n\<rparr>"
  using assms dropWhile_append2 [of b blank ds] by (simp_all add: skipInline_def skipBlanks_def list_all_iff)

lemma document_key:
  assumes "k \<noteq> []" "list_all isKeyByte k" "list_all blank b"
  shows "kson_document getenv parseFloat (Suc fuel) out \<lparr>p_rest = k @ b @ CHR ''='' # cs, p_line = n\<rparr> =
      (case kson_value getenv parseFloat fuel (skipInline \<lparr>p_rest = cs, p_line = n\<rparr>) of
         None \<Rightarrow> None
       | Some (Inl e) \<Rightarrow> Some (Inl e)
       | Some (Inr (v, p3)) \<Rightarrow>
           (case setNested out k (if getenv (env_key k) \<noteq> [] then inferType parseFloat (getenv (env_key k)) else v) of
              Inl (head, tail) \<Rightarrow> Some (Inl (KeyConflict (p_line p3) head tail))
            | Inr out1 \<Rightarrow> kson_document getenv parseFloat fuel out1 (line_end p3)))"
proof -
  obtain c k' where k: "k = c # k'" "isKeyByte c" using assms by (cases k) auto
  define ds where "ds = b @ CHR ''='' # cs"
  let ?p = "\<lparr>p_rest = k @ ds, p_line = n\<rparr>"
  have sb: "skipBlanks ?p = ?p" using keybyte_neq [OF k(2)] k(1) by (intro skip_stop(3) [of _ c "k' @ ds"]) auto
  obtain x xs where "ds = x # xs" "x \<in> {CHR ''='', CHR '' '', tab}" using assms(3) by (cases b) (auto simp: ds_def)
  then have key: "kson_key ?p = Inr (k, \<lparr>p_rest = ds, p_line = n\<rparr>)"
    using assms(1) key_loop_key [OF assms(2), of x "[]" xs] by (simp add: kson_key_def)
  have ex: "expect CHR ''='' (skipInline \<lparr>p_rest = ds, p_line = n\<rparr>) = (True, \<lparr>p_rest = cs, p_line = n\<rparr>)"
    unfolding ds_def skip_blanks(1) [OF assms(3)] by (simp add: expect_def skipInline_def)
  have "p_rest (skipBlanks ?p) = c # (k' @ ds)" "c \<notin> {CHR ''#'', newline, carriage}" using sb k keybyte_neq [OF k(2)] by auto
  from document_entry [OF this, of getenv parseFloat fuel out] show ?thesis
    by (simp only: sb key ex sum.case prod.case bool.case ds_def [symmetric])
qed

text \<open>\<^bold>\<open>C22.\<close> A comment where an array expects an element is not skipped: the parser appends an empty string for ever. No number of rounds is
  enough for a source that starts with an array whose first line, or whose opening bracket, is followed by a comment.\<close>

theorem kson_comment_in_array_diverges:
  assumes key: "k \<noteq> []" "list_all isKeyByte k" and ws: "list_all (\<lambda>c. c \<in> {CHR '' '', tab, newline, carriage}) ws"
  shows "kson_Parse getenv parseFloat fuel (k @ '' = ['' @ ws @ ''#'' @ rest) = None"
proof (cases fuel)
  case (Suc n)
  let ?p = "\<lparr>p_rest = ws @ CHR ''#'' # rest, p_line = 1\<rparr>"
  have "p_rest (skipBlanksAndNewlines ?p) = CHR ''#'' # rest"
    by (simp add: skipBlanksAndNewlines_def skip_newlines_blank [OF ws])
  then have "kson_array getenv parseFloat n [] ?p = None" by (simp add: array_after_blanks array_stuck)
  then have "kson_value getenv parseFloat n (skipInline \<lparr>p_rest = '' ['' @ ws @ ''#'' @ rest, p_line = 1\<rparr>) = None"
    by (simp add: skipInline_def kson_value.simps)
  then show ?thesis
    using document_key [OF key, of "'' ''" getenv parseFloat n "[]" "'' ['' @ ws @ ''#'' @ rest" 1] Suc by (simp add: kson_Parse_def)
qed (simp add: kson_Parse_def)

theorem kson_comment_in_array_diverges_witness:
  "list_all isKeyByte ''tags'' \<and> list_all (\<lambda>c. c \<in> {CHR '' '', tab, newline, carriage}) [newline, CHR '' ''] \<and>
   kson_Parse (\<lambda>_. []) (\<lambda>_. None :: int option) 1000 (''tags'' @ '' = ['' @ [newline, CHR '' ''] @ ''#'' @ '' first'') = None"
proof -
  have k: "list_all isKeyByte ''tags''" by code_simp
  have w: "list_all (\<lambda>c. c \<in> {CHR '' '', tab, newline, carriage}) [newline, CHR '' '']" by simp
  show ?thesis using k w kson_comment_in_array_diverges [OF _ k w] by blast
qed

subsection \<open>Reading back what is written\<close>

text \<open>A printer for values: strings and the keys of objects in double quotes, a comma after every element. The values it is meant for hold no
  float, integers of 64 bits, no dollar sign (which starts a variable, also inside quotes), and objects with distinct keys.\<close>

fun dec :: "nat \<Rightarrow> string" where
  "dec n = (if n < 10 then [char_of (48 + n)] else dec (n div 10) @ [char_of (48 + n mod 10)])"

definition print_int :: "int \<Rightarrow> string" where
  "print_int i = (if i < 0 then CHR ''-'' # dec (nat (- i)) else dec (nat i))"

definition escape :: "char \<Rightarrow> string" where
  "escape c = (if c = dquote \<or> c = backslash then [backslash, c] else [c])"

definition print_quoted :: "string \<Rightarrow> string" where
  "print_quoted s = [dquote] @ concat (map escape s) @ [dquote]"

fun print_value :: "'f kval \<Rightarrow> string" where
  "print_value KNil = ''null''"
| "print_value (KBool b) = (if b then ''true'' else ''false'')"
| "print_value (KInt i) = print_int i"
| "print_value (KFloat f) = []"
| "print_value (KString s) = print_quoted s"
| "print_value (KMap kvs) = ''{'' @ concat (map (\<lambda>(k, v). print_quoted k @ '':'' @ print_value v @ '','') kvs) @ ''}''"
| "print_value (KList vs) = ''['' @ concat (map (\<lambda>v. print_value v @ '','') vs) @ '']''"

fun printable :: "'f kval \<Rightarrow> bool" where
  "printable (KInt i) = in_int64 i"
| "printable (KFloat f) = False"
| "printable (KString s) = (CHR ''$'' \<notin> set s)"
| "printable (KMap kvs) = (distinct (map fst kvs) \<and> list_all (\<lambda>(k, v). CHR ''$'' \<notin> set k \<and> printable v) kvs)"
| "printable (KList vs) = list_all printable vs"
| "printable _ = True"

text \<open>A document is a list of lines: blank ones, comments, and entries with any indentation and any blanks around the equals sign.\<close>

datatype 'f doc_line = BlankLine string | CommentLine string string | EntryLine string string string string "'f kval"

fun print_line :: "'f doc_line \<Rightarrow> string" where
  "print_line (BlankLine b) = b @ [newline]"
| "print_line (CommentLine b s) = b @ ''#'' @ s @ [newline]"
| "print_line (EntryLine b k b1 b2 v) = b @ k @ b1 @ ''='' @ b2 @ print_value v @ [newline]"

fun line_entries :: "'f doc_line \<Rightarrow> (string \<times> 'f kval) list" where
  "line_entries (EntryLine b k b1 b2 v) = [(k, v)]"
| "line_entries _ = []"

fun printable_line :: "'f doc_line \<Rightarrow> bool" where
  "printable_line (BlankLine b) = list_all blank b"
| "printable_line (CommentLine b s) = (list_all blank b \<and> newline \<notin> set s)"
| "printable_line (EntryLine b k b1 b2 v) =
     (list_all blank b \<and> list_all blank b1 \<and> list_all blank b2 \<and>
      k \<noteq> [] \<and> list_all isKeyByte k \<and> CHR ''.'' \<notin> set k \<and> printable v)"

definition print_document :: "'f doc_line list \<Rightarrow> string" where
  "print_document ls = concat (map print_line ls)"

definition doc_entries :: "'f doc_line list \<Rightarrow> (string \<times> 'f kval) list" where
  "doc_entries ls = concat (map line_entries ls)"

definition printable_document :: "'f doc_line list \<Rightarrow> bool" where
  "printable_document ls \<longleftrightarrow> list_all printable_line ls \<and> distinct (map fst (doc_entries ls))"

text \<open>What the environment makes of an entry: a variable \<^verbatim>\<open>KSON_<KEY>\<close> that is set and not empty replaces the value.\<close>

definition overridden :: "(string \<Rightarrow> string) \<Rightarrow> (string \<Rightarrow> 'f option) \<Rightarrow> string \<times> 'f kval \<Rightarrow> string \<times> 'f kval" where
  "overridden getenv parseFloat kv =
     (fst kv, if getenv (env_key (fst kv)) \<noteq> [] then inferType parseFloat (getenv (env_key (fst kv))) else snd kv)"

declare dec.simps [simp del]

text \<open>Strings.\<close>

lemma quoted_loop_print:
  "\<exists>line'. quoted_loop dquote acc line (concat (map escape s) @ dquote # rest) = Inr (rev acc @ s, line', rest)"
proof (induction s arbitrary: acc line)
  case (Cons c s)
  show ?case
    using Cons.IH [of "c # acc" line] Cons.IH [of "c # acc" "line + 1"]
    by (auto simp: escape_def quoted_loop.simps unescape_def)
qed (simp add: quoted_loop.simps)

lemma Expand_id: "CHR ''$'' \<notin> set s \<Longrightarrow> Expand f s = s"
  by (induction s) auto

lemma quoted_print:
  assumes "CHR ''$'' \<notin> set s"
  shows "\<exists>line'. kson_quoted getenv dquote \<lparr>p_rest = print_quoted s @ rest, p_line = line\<rparr> = Inr (s, \<lparr>p_rest = rest, p_line = line'\<rparr>)"
  using quoted_loop_print [of "[]" line s rest] Expand_id [OF assms]
  by (auto simp: kson_quoted_def print_quoted_def expandEnv_def)

text \<open>Numbers and words.\<close>

lemma code_digit: "(n::nat) < 10 \<Longrightarrow> code (char_of (48 + n)) = 48 + n"
  by (simp add: code_def)

lemma digits_val_snoc: "digits_val (ds @ [d]) = 10 * digits_val ds + int (code d - code CHR ''0'')"
  by (simp add: digits_val_def)

lemma isDigit_char: "(n::nat) < 10 \<Longrightarrow> isDigit (char_of (48 + n))"
  by (simp add: isDigit_def between_def code_digit) (simp add: code_def)

lemma dec_digits: "dec n \<noteq> [] \<and> list_all isDigit (dec n) \<and> digits_val (dec n) = int n"
proof (induction n rule: dec.induct)
  case (1 n)
  have z: "code CHR ''0'' = 48" by (simp add: code_def)
  show ?case
  proof (cases "n < 10")
    case True
    then show ?thesis using digits_val_snoc [of "[]" "char_of (48 + n)"]
      by (subst (1 2 3) dec.simps) (simp add: isDigit_char code_digit z digits_val_def)
  next
    case False
    have "n = 10 * (n div 10) + n mod 10" by simp
    then have "int n = 10 * int (n div 10) + int (n mod 10)" by linarith
    then show ?thesis using 1 [OF False] False
      by (subst (1 2 3) dec.simps) (simp add: isDigit_char code_digit z digits_val_snoc)
  qed
qed

lemma ToLower_number: "isDigit c \<or> c = CHR ''-'' \<Longrightarrow> \<exists>t. ToLower (c # s) = c # t"
proof -
  assume c: "isDigit c \<or> c = CHR ''-''"
  then have "lower c = c" "c \<noteq> CHR 0xC4" "c \<noteq> CHR 0xE2" by (auto simp: lower_def isDigit_def between_def code_def)
  then show ?thesis by (cases "c # s" rule: ToLower.cases) auto
qed

lemma print_int_shape:
  obtains c s where "print_int i = c # s" "isDigit c \<or> c = CHR ''-''" "list_all isKeyByte (print_int i)"
proof -
  have d: "isDigit c \<Longrightarrow> isKeyByte c" for c by (simp add: isDigit_def isKeyByte_def)
  have k: "list_all isKeyByte (dec n)" for n using dec_digits [of n] by (auto simp: list_all_iff d)
  have m: "isKeyByte CHR ''-''" by (simp add: isKeyByte_def)
  show ?thesis
  proof (cases "dec (nat i)")
    case Nil
    then show ?thesis using dec_digits [of "nat i"] by simp
  next
    case (Cons c s)
    then have "isDigit c" using dec_digits [of "nat i"] by simp
    then show ?thesis using that k [of "nat i"] k m Cons by (cases "i < 0") (simp_all add: print_int_def)
  qed
qed

lemma ParseInt_print: "in_int64 i \<Longrightarrow> ParseInt (print_int i) = Some i"
proof -
  assume i: "in_int64 i"
  have nd: "\<not> isDigit CHR ''-''" "\<not> isDigit CHR ''+''" by (simp_all add: isDigit_def between_def code_def)
  show ?thesis
  proof (cases "i < 0")
    case True
    then show ?thesis using i dec_digits [of "nat (- i)"] by (simp add: ParseInt_def print_int_def)
  next
    case False
    have "dec (nat i) \<noteq> []" "isDigit (hd (dec (nat i)))" using dec_digits [of "nat i"] by (auto simp: list_all_iff)
    then have "hd (dec (nat i)) \<noteq> CHR ''-''" "hd (dec (nat i)) \<noteq> CHR ''+''" using nd by auto
    then show ?thesis using i False dec_digits [of "nat i"] by (simp add: ParseInt_def print_int_def Let_def)
  qed
qed

lemma inferType_print: "in_int64 i \<Longrightarrow> inferType parseFloat (print_int i) = KInt i"
proof -
  assume i: "in_int64 i"
  obtain c s where c: "print_int i = c # s" "isDigit c \<or> c = CHR ''-''" by (rule print_int_shape)
  obtain t where t: "ToLower (print_int i) = c # t" using ToLower_number [OF c(2)] c(1) by auto
  have "c \<notin> {CHR ''t'', CHR ''y'', CHR ''o'', CHR ''f'', CHR ''n'', CHR ''~''}"
    using c(2) by (auto simp: isDigit_def between_def code_def)
  then show ?thesis using i by (auto simp: inferType_def t ParseInt_print Let_def)
qed

lemma scalar_loop_word:
  "list_all isKeyByte w \<Longrightarrow> c = CHR '','' \<or> c = newline \<Longrightarrow> scalar_loop acc 0 (w @ c # cs) = (rev acc @ w, c # cs)"
proof (induction w arbitrary: acc)
  case (Cons d w)
  then show ?case using keybyte_neq [of d] by (simp add: scalar_loop.simps)
qed (auto simp: scalar_loop.simps)

lemma TrimRight_word: "list_all isKeyByte w \<Longrightarrow> TrimRight w = w"
proof (cases w rule: rev_cases)
  case (snoc v c)
  assume "list_all isKeyByte w"
  then have c: "isKeyByte c" using snoc by simp
  then have "\<not> ascii_space c" "c \<noteq> CHR 0x85" "c \<noteq> CHR 0xA0" "\<And>a b. \<not> wide_space a b c"
    by (auto simp: ascii_space_def isKeyByte_def between_def code_def wide_space_def)
  then show ?thesis using snoc by (auto simp: TrimRight_def split: list.split)
qed (simp add: TrimRight_def)

lemma value_word:
  assumes "w \<noteq> []" "list_all isKeyByte w" "c = CHR '','' \<or> c = newline"
  shows "kson_value getenv parseFloat fuel \<lparr>p_rest = w @ c # cs, p_line = n\<rparr> = Some (Inr (inferType parseFloat w, \<lparr>p_rest = c # cs, p_line = n\<rparr>))"
proof -
  obtain d v where w: "w = d # v" "isKeyByte d" using assms by (cases w) auto
  have "CHR ''$'' \<notin> set w" using assms(2) keybyte_neq by (auto simp: list_all_iff)
  then have "kson_scalar getenv parseFloat \<lparr>p_rest = w @ c # cs, p_line = n\<rparr> = (inferType parseFloat w, \<lparr>p_rest = c # cs, p_line = n\<rparr>)"
    using assms by (simp add: kson_scalar_def scalar_loop_word TrimRight_word expandEnv_def Expand_id)
  then show ?thesis using keybyte_neq [OF w(2)] by (simp add: w kson_value.simps)
qed

lemma words:
  "list_all isKeyByte ''null''" "list_all isKeyByte ''true''" "list_all isKeyByte ''false''"
  "inferType parseFloat ''null'' = KNil" "inferType parseFloat ''true'' = KBool True" "inferType parseFloat ''false'' = KBool False"
  by (simp_all add: isKeyByte_def between_def code_def inferType_def lower_def Let_def)

text \<open>Objects, arrays and values; the length of the text is fuel enough.\<close>

definition reads :: "'f kval \<Rightarrow> bool" where
  "reads v \<longleftrightarrow> (\<forall>getenv parseFloat fuel c cs n. length (print_value v) \<le> fuel \<longrightarrow> c = CHR '','' \<or> c = newline \<longrightarrow>
     (\<exists>n'. kson_value getenv parseFloat fuel \<lparr>p_rest = print_value v @ c # cs, p_line = n\<rparr> = Some (Inr (v, \<lparr>p_rest = c # cs, p_line = n'\<rparr>))))"

lemma readsD:
  assumes "reads v" "length (print_value v) \<le> fuel" "c = CHR '','' \<or> c = newline"
  shows "\<exists>n'. kson_value getenv parseFloat fuel \<lparr>p_rest = print_value v @ c # cs, p_line = n\<rparr> = Some (Inr (v, \<lparr>p_rest = c # cs, p_line = n'\<rparr>))"
  using assms unfolding reads_def by blast

lemma reads_word:
  assumes "print_value v \<noteq> []" "list_all isKeyByte (print_value v)" "\<And>parseFloat. inferType parseFloat (print_value v) = v"
  shows "reads v"
  unfolding reads_def value_word [OF assms(1,2)] assms(3) by (metis (no_types) value_word [OF assms(1,2)] assms(3))

lemma print_value_hd:
  assumes "printable v"
  obtains c s where "print_value v = c # s" "c \<notin> {CHR '' '', tab, newline, carriage, CHR '']'', CHR '',''}"
proof (cases v)
  case (KInt i)
  obtain c s where c: "print_int i = c # s" "isDigit c \<or> c = CHR ''-''" by (rule print_int_shape)
  then have "c \<notin> {CHR '' '', tab, newline, carriage, CHR '']'', CHR '',''}" by (auto simp: isDigit_def between_def code_def)
  then show ?thesis using that c(1) KInt by simp
next
  case (KBool b)
  then show ?thesis using that by (cases b) simp_all
qed (use assms that in \<open>auto simp: print_quoted_def\<close>)

lemma update_new: "k \<notin> fst ` set obj \<Longrightarrow> AList.update k v obj = obj @ [(k, v)]"
  by (induction obj) auto

lemma object_reads:
  assumes "\<And>k v. (k, v) \<in> set kvs \<Longrightarrow> CHR ''$'' \<notin> set k \<and> printable v \<and> reads v" "distinct (map fst (obj @ kvs))"
    "length (concat (map (\<lambda>(k, v). print_quoted k @ '':'' @ print_value v @ '','') kvs)) < fuel"
  shows "\<exists>n'. kson_object getenv parseFloat fuel obj
       \<lparr>p_rest = concat (map (\<lambda>(k, v). print_quoted k @ '':'' @ print_value v @ '','') kvs) @ CHR ''}'' # cs, p_line = n\<rparr> =
     Some (Inr (KMap (obj @ kvs), \<lparr>p_rest = cs, p_line = n'\<rparr>))"
  using assms
proof (induction kvs arbitrary: fuel obj n)
  case Nil
  then obtain f where "fuel = Suc f" by (cases fuel) auto
  then show ?case by (simp add: kson_object.simps skipBlanksAndNewlines_def)
next
  case (Cons kv kvs)
  obtain k v where kv: "kv = (k, v)" by (cases kv)
  let ?rest = "concat (map (\<lambda>(k, v). print_quoted k @ '':'' @ print_value v @ '','') kvs) @ CHR ''}'' # cs"
  have v: "CHR ''$'' \<notin> set k" "printable v" "reads v" using Cons.prems(1) kv by auto
  define f where "f = fuel - 2"
  have fuel: "fuel = Suc (Suc f)" "length (print_value v) \<le> Suc f"
      "length (concat (map (\<lambda>(k, v). print_quoted k @ '':'' @ print_value v @ '','') kvs)) < f"
    using Cons.prems(3) unfolding kv f_def by (auto simp: print_quoted_def)
  obtain n1 where q: "kson_quoted getenv dquote \<lparr>p_rest = print_quoted k @ CHR '':'' # print_value v @ CHR '','' # ?rest, p_line = n\<rparr> =
      Inr (k, \<lparr>p_rest = CHR '':'' # print_value v @ CHR '','' # ?rest, p_line = n1\<rparr>)"
    using quoted_print [OF v(1)] by blast
  obtain n2 where val: "kson_value getenv parseFloat (Suc f) \<lparr>p_rest = print_value v @ CHR '','' # ?rest, p_line = n1\<rparr> =
      Some (Inr (v, \<lparr>p_rest = CHR '','' # ?rest, p_line = n2\<rparr>))"
    using readsD [OF v(3) fuel(2), of "CHR '',''"] by blast
  obtain c s where c: "print_value v = c # s" "c \<notin> {CHR '' '', tab, newline, carriage, CHR '']'', CHR '',''}"
    using v(2) by (rule print_value_hd)
  have skip: "skipInline \<lparr>p_rest = print_value v @ ds, p_line = m\<rparr> = \<lparr>p_rest = print_value v @ ds, p_line = m\<rparr>"
      "skipInline \<lparr>p_rest = CHR '':'' # ds, p_line = m\<rparr> = \<lparr>p_rest = CHR '':'' # ds, p_line = m\<rparr>"
      "skipInline \<lparr>p_rest = CHR '','' # ds, p_line = m\<rparr> = \<lparr>p_rest = CHR '','' # ds, p_line = m\<rparr>"
      "skipBlanksAndNewlines \<lparr>p_rest = CHR '','' # ds, p_line = m\<rparr> = \<lparr>p_rest = CHR '','' # ds, p_line = m\<rparr>"
      "skipBlanksAndNewlines \<lparr>p_rest = print_quoted k @ ds, p_line = m\<rparr> = \<lparr>p_rest = print_quoted k @ ds, p_line = m\<rparr>" for ds m
    using c by (auto simp: skipInline_def skipBlanksAndNewlines_def print_quoted_def)
  have pq: "print_quoted k = dquote # concat (map escape k) @ [dquote]" by (simp add: print_quoted_def)
  have new: "AList.update k v obj = obj @ [(k, v)]" using Cons.prems(2) kv by (intro update_new) auto
  have "kson_object getenv parseFloat fuel obj \<lparr>p_rest = print_quoted k @ CHR '':'' # print_value v @ CHR '','' # ?rest, p_line = n\<rparr> =
      kson_object getenv parseFloat (Suc f) (obj @ [(k, v)]) \<lparr>p_rest = CHR '','' # ?rest, p_line = n2\<rparr>"
    unfolding fuel(1) kson_object.simps(2) [of _ _ "Suc f"] skip(5) Let_def
    using q val by (simp add: pq expect_def skip new)
  also have "\<dots> = kson_object getenv parseFloat f (obj @ [(k, v)]) \<lparr>p_rest = ?rest, p_line = n2\<rparr>"
    by (simp add: kson_object.simps(2) skip)
  finally have step: "kson_object getenv parseFloat fuel obj \<lparr>p_rest = print_quoted k @ CHR '':'' # print_value v @ CHR '','' # ?rest, p_line = n\<rparr> =
      kson_object getenv parseFloat f (obj @ [(k, v)]) \<lparr>p_rest = ?rest, p_line = n2\<rparr>" .
  have "\<exists>n'. kson_object getenv parseFloat f (obj @ [(k, v)]) \<lparr>p_rest = ?rest, p_line = n2\<rparr> =
      Some (Inr (KMap ((obj @ [(k, v)]) @ kvs), \<lparr>p_rest = cs, p_line = n'\<rparr>))"
    using Cons.prems(1,2) fuel(3) unfolding kv by (intro Cons.IH) auto
  then show ?case using step kv by simp
qed

lemma array_reads:
  assumes "\<And>v. v \<in> set vs \<Longrightarrow> printable v \<and> reads v" "length (concat (map (\<lambda>v. print_value v @ '','') vs)) < fuel"
  shows "\<exists>n'. kson_array getenv parseFloat fuel arr \<lparr>p_rest = concat (map (\<lambda>v. print_value v @ '','') vs) @ CHR '']'' # cs, p_line = n\<rparr> =
     Some (Inr (KList (arr @ vs), \<lparr>p_rest = cs, p_line = n'\<rparr>))"
  using assms
proof (induction vs arbitrary: fuel arr n)
  case Nil
  then obtain f where "fuel = Suc f" by (cases fuel) auto
  then show ?case by (simp add: kson_array.simps skipBlanksAndNewlines_def)
next
  case (Cons v vs)
  let ?rest = "concat (map (\<lambda>v. print_value v @ '','') vs) @ CHR '']'' # cs"
  have v: "printable v" "reads v" using Cons.prems(1) by auto
  obtain c s where c: "print_value v = c # s" "c \<notin> {CHR '' '', tab, newline, carriage, CHR '']'', CHR '',''}"
    using v(1) by (rule print_value_hd)
  define f where "f = fuel - 2"
  have fuel: "fuel = Suc (Suc f)" "length (print_value v) \<le> Suc f" "length (concat (map (\<lambda>v. print_value v @ '','') vs)) < f"
    using Cons.prems(2) c(1) unfolding f_def by auto
  obtain n2 where val: "kson_value getenv parseFloat (Suc f) \<lparr>p_rest = print_value v @ CHR '','' # ?rest, p_line = n\<rparr> =
      Some (Inr (v, \<lparr>p_rest = CHR '','' # ?rest, p_line = n2\<rparr>))"
    using readsD [OF v(2) fuel(2), of "CHR '',''"] by blast
  have skip: "skipInline \<lparr>p_rest = CHR '','' # ds, p_line = m\<rparr> = \<lparr>p_rest = CHR '','' # ds, p_line = m\<rparr>"
      "skipBlanksAndNewlines \<lparr>p_rest = CHR '','' # ds, p_line = m\<rparr> = \<lparr>p_rest = CHR '','' # ds, p_line = m\<rparr>"
      "skipBlanksAndNewlines \<lparr>p_rest = print_value v @ ds, p_line = m\<rparr> = \<lparr>p_rest = print_value v @ ds, p_line = m\<rparr>" for ds m
    using c by (auto simp: skipInline_def skipBlanksAndNewlines_def)
  have "kson_array getenv parseFloat fuel arr \<lparr>p_rest = print_value v @ CHR '','' # ?rest, p_line = n\<rparr> =
      kson_array getenv parseFloat (Suc f) (arr @ [v]) \<lparr>p_rest = CHR '','' # ?rest, p_line = n2\<rparr>"
    unfolding fuel(1) kson_array.simps(2) [of _ _ "Suc f"] skip(3) Let_def val
    using c by (simp add: skip)
  also have "\<dots> = kson_array getenv parseFloat f (arr @ [v]) \<lparr>p_rest = ?rest, p_line = n2\<rparr>"
    by (simp add: kson_array.simps(2) skip)
  finally have step: "kson_array getenv parseFloat fuel arr \<lparr>p_rest = print_value v @ CHR '','' # ?rest, p_line = n\<rparr> =
      kson_array getenv parseFloat f (arr @ [v]) \<lparr>p_rest = ?rest, p_line = n2\<rparr>" .
  have "\<exists>n'. kson_array getenv parseFloat f (arr @ [v]) \<lparr>p_rest = ?rest, p_line = n2\<rparr> =
      Some (Inr (KList ((arr @ [v]) @ vs), \<lparr>p_rest = cs, p_line = n'\<rparr>))"
    using Cons.prems(1) fuel(3) by (intro Cons.IH) auto
  then show ?case using step by simp
qed

lemma printable_reads:
  fixes v :: "'f kval"
  shows "printable v \<Longrightarrow> reads v"
proof (induction v)
  case KNil
  show ?case by (rule reads_word) (simp_all only: print_value.simps words, simp)
next
  case (KBool b)
  show ?case by (rule reads_word; cases b) (simp_all only: print_value.simps words if_True if_False, simp_all)
next
  case (KInt i)
  obtain c s where c: "print_int i = c # s" "list_all isKeyByte (print_int i)" by (rule print_int_shape)
  have "inferType parseFloat (print_int i) = KInt i" for parseFloat :: "string \<Rightarrow> 'f option" using KInt by (simp add: inferType_print)
  then show ?case using c by (intro reads_word) simp_all
next
  case (KFloat f)
  then show ?case by simp
next
  case (KString s)
  have "\<exists>n'. kson_value getenv parseFloat fuel \<lparr>p_rest = print_quoted s @ cs, p_line = n\<rparr> = Some (Inr (KString s, \<lparr>p_rest = cs, p_line = n'\<rparr>))"
    for getenv and parseFloat :: "string \<Rightarrow> 'f option" and fuel cs n
    using quoted_print [of s getenv cs n] KString by (auto simp: kson_value.simps print_quoted_def)
  then show ?case unfolding reads_def print_value.simps by blast
next
  case (KMap kvs)
  have kvs: "CHR ''$'' \<notin> set k \<and> printable v \<and> reads v" if "(k, v) \<in> set kvs" for k v
    using KMap that by (fastforce simp: list_all_iff)
  have d: "distinct (map fst ([] @ kvs))" using KMap.prems by simp
  show ?case using object_reads [OF kvs d] unfolding reads_def by (simp add: kson_value.simps)
next
  case (KList vs)
  have vs: "printable v \<and> reads v" if "v \<in> set vs" for v
    using KList that by (simp add: list_all_iff)
  show ?case using array_reads [of vs _ _ _ "[]", OF vs] unfolding reads_def by (simp add: kson_value.simps)
qed

text \<open>Documents.\<close>

lemma setNested_plain: "CHR ''.'' \<notin> set k \<Longrightarrow> setNested m k v = Inr (AList.update k v m)"
  by (subst setNested.simps) (simp add: split_dot_def)

lemma document_blank:
  "list_all blank b \<Longrightarrow> kson_document getenv parseFloat (Suc fuel) out \<lparr>p_rest = b @ ds, p_line = n\<rparr> =
     kson_document getenv parseFloat (Suc fuel) out \<lparr>p_rest = ds, p_line = n\<rparr>"
  by (simp add: kson_document.simps(2) skip_blanks(2))

lemma document_newline:
  "kson_document getenv parseFloat (Suc fuel) out \<lparr>p_rest = newline # ds, p_line = n\<rparr> =
     kson_document getenv parseFloat fuel out \<lparr>p_rest = ds, p_line = n + 1\<rparr>"
  by (simp add: kson_document.simps(2) skipBlanks_def advance_def)

lemma document_comment:
  "newline \<notin> set s \<Longrightarrow> kson_document getenv parseFloat (Suc fuel) out \<lparr>p_rest = CHR ''#'' # s @ newline # ds, p_line = n\<rparr> =
     kson_document getenv parseFloat fuel out \<lparr>p_rest = newline # ds, p_line = n\<rparr>"
  using dropWhile_append2 [of s "\<lambda>c. c \<noteq> newline" "newline # ds"]
  by (fastforce simp: kson_document.simps(2) skipBlanks_def skipToEOL_def)

lemma document_entry_reads:
  assumes "printable_line (EntryLine b k b1 b2 v)" "k \<notin> fst ` set out" "length (print_value v) \<le> fuel"
  shows "\<exists>n'. kson_document getenv parseFloat (Suc fuel) out \<lparr>p_rest = print_line (EntryLine b k b1 b2 v) @ ds, p_line = n\<rparr> =
     kson_document getenv parseFloat fuel (out @ [overridden getenv parseFloat (k, v)]) \<lparr>p_rest = ds, p_line = n'\<rparr>"
proof -
  have e: "list_all blank b" "list_all blank b1" "list_all blank b2" "k \<noteq> []" "list_all isKeyByte k" "CHR ''.'' \<notin> set k" "printable v"
    using assms(1) by simp_all
  obtain n2 where val: "kson_value getenv parseFloat fuel \<lparr>p_rest = print_value v @ newline # ds, p_line = n\<rparr> =
      Some (Inr (v, \<lparr>p_rest = newline # ds, p_line = n2\<rparr>))"
    using readsD [OF printable_reads [OF e(7)] assms(3), of newline] by blast
  obtain c s where c: "print_value v = c # s" "c \<notin> {CHR '' '', tab, newline, carriage, CHR '']'', CHR '',''}"
    using e(7) by (rule print_value_hd)
  have skip: "skipInline \<lparr>p_rest = b2 @ print_value v @ newline # ds, p_line = n\<rparr> = \<lparr>p_rest = print_value v @ newline # ds, p_line = n\<rparr>"
    unfolding skip_blanks(1) [OF e(3)] using c by (simp add: skipInline_def)
  have le: "line_end \<lparr>p_rest = newline # ds, p_line = n2\<rparr> = \<lparr>p_rest = ds, p_line = n2 + 1\<rparr>"
    by (simp add: line_end_def Let_def skipInline_def advance_def)
  have "kson_document getenv parseFloat (Suc fuel) out \<lparr>p_rest = b @ k @ b1 @ CHR ''='' # b2 @ print_value v @ newline # ds, p_line = n\<rparr> =
      kson_document getenv parseFloat fuel (out @ [overridden getenv parseFloat (k, v)]) \<lparr>p_rest = ds, p_line = n2 + 1\<rparr>"
    unfolding document_blank [OF e(1)] document_key [OF e(4,5,2)] skip val
    by (simp add: setNested_plain [OF e(6)] update_new [OF assms(2)] overridden_def le)
  then show ?thesis by auto
qed

lemma document_reads:
  assumes "list_all printable_line ls" "distinct (map fst (out @ doc_entries ls))" "length (print_document ls) < fuel"
  shows "kson_document getenv parseFloat fuel out \<lparr>p_rest = print_document ls, p_line = n\<rparr> =
     Some (Inr (out @ map (overridden getenv parseFloat) (doc_entries ls)))"
  using assms
proof (induction ls arbitrary: fuel out n)
  case Nil
  then obtain f where "fuel = Suc f" by (cases fuel) auto
  then show ?case by (simp add: print_document_def doc_entries_def kson_document.simps(2) skipBlanks_def)
next
  case (Cons l ls)
  have doc: "print_document (l # ls) = print_line l @ print_document ls" "doc_entries (l # ls) = line_entries l @ doc_entries ls" for l
    by (simp_all add: print_document_def doc_entries_def)
  obtain f where f: "fuel = Suc f" using Cons.prems(3) by (cases fuel) auto
  show ?case
  proof (cases l)
    case (BlankLine b)
    then have "length (print_document ls) < f" using Cons.prems(3) by (simp add: doc f)
    from Cons.IH [OF _ _ this] show ?thesis
      using Cons.prems BlankLine by (simp add: doc f document_blank document_newline)
  next
    case (CommentLine b s)
    obtain g where g: "f = Suc g" "length (print_document ls) < g"
      using Cons.prems(3) CommentLine by (cases f) (simp_all add: doc f)
    from Cons.IH [OF _ _ g(2)] show ?thesis
      using Cons.prems CommentLine by (simp add: doc f g(1) document_blank document_newline document_comment)
  next
    case (EntryLine b k b1 b2 v)
    have fuel: "length (print_value v) \<le> f" "length (print_document ls) < f" using Cons.prems(3) EntryLine by (simp_all add: doc f)
    have k: "k \<notin> fst ` set out" using Cons.prems(2) EntryLine by (auto simp: doc)
    obtain n' where "kson_document getenv parseFloat fuel out \<lparr>p_rest = print_document (l # ls), p_line = n\<rparr> =
        kson_document getenv parseFloat f (out @ [overridden getenv parseFloat (k, v)]) \<lparr>p_rest = print_document ls, p_line = n'\<rparr>"
      using document_entry_reads [OF _ k fuel(1), of b b1 b2 getenv parseFloat "print_document ls" n] Cons.prems(1) EntryLine
      by (auto simp: doc f)
    moreover have "distinct (map fst ((out @ [overridden getenv parseFloat (k, v)]) @ doc_entries ls))"
      using Cons.prems(2) EntryLine by (auto simp: doc overridden_def)
    ultimately show ?thesis
      using Cons.IH [OF _ _ fuel(2)] Cons.prems(1) EntryLine by (simp add: doc)
  qed
qed

text \<open>\<^bold>\<open>C12.\<close> What is written is read back. A document consists of blank lines, comment lines and entries, with any blanks before a key and
  around the equals sign; the keys are distinct and without dots, and the values nested objects, arrays, strings, 64-bit integers,
  booleans and null, without a dollar sign in a string or in a key of an object, and written in the printer's form. It parses, with one round of
  the loops per byte and one more, to exactly these entries in order, except that a non-empty environment variable \<^verbatim>\<open>KSON_<KEY>\<close> replaces
  the value of its key by the scalar it spells.\<close>

theorem kson_roundtrip:
  assumes "printable_document ls" "length (print_document ls) < fuel"
  shows "kson_Parse getenv parseFloat fuel (print_document ls) = Some (Inr (map (overridden getenv parseFloat) (doc_entries ls)))"
  using assms document_reads [of ls "[]" fuel getenv parseFloat 1] by (simp add: kson_Parse_def printable_document_def)

definition demo_document :: "int doc_line list" where
  "demo_document =
     [CommentLine '''' '' mail [settings'', EntryLine '''' ''smtp'' '' '' ''  ''
        (KMap [(''host'', KString ''a#b, \"c\"''), (''port'', KInt 465), (''ssl'', KBool True)]),
      BlankLine ''  '', EntryLine '' '' ''tags'' '''' '''' (KList [KString ''auth'', KInt (-7), KNil]), EntryLine '''' ''limit'' '' '' '' '' (KInt 5)]"

theorem kson_roundtrip_witness:
  "\<exists>getenv. getenv ''KSON_LIMIT'' = ''80'' \<and> printable_document demo_document \<and>
   kson_Parse getenv (\<lambda>_. None :: int option) 200 (print_document demo_document) =
     Some (Inr [(''smtp'', KMap [(''host'', KString ''a#b, \"c\"''), (''port'', KInt 465), (''ssl'', KBool True)]),
       (''tags'', KList [KString ''auth'', KInt (-7), KNil]), (''limit'', KInt 80)])"
proof -
  define getenv :: "string \<Rightarrow> string" where "getenv = (\<lambda>s. if s = ''KSON_LIMIT'' then ''80'' else [])"
  have ok: "printable_document demo_document" "length (print_document demo_document) < 200" by code_simp+
  have "map (overridden getenv (\<lambda>_. None :: int option)) (doc_entries demo_document) =
      [(''smtp'', KMap [(''host'', KString ''a#b, \"c\"''), (''port'', KInt 465), (''ssl'', KBool True)]),
       (''tags'', KList [KString ''auth'', KInt (-7), KNil]), (''limit'', KInt 80)]"
    unfolding getenv_def by code_simp
  then show ?thesis
    using kson_roundtrip [OF ok, of getenv "\<lambda>_. None"] ok(1) by (intro exI [of _ getenv]) (simp add: getenv_def)
qed

text \<open>\<^bold>\<open>C36.\<close> A dotted key that was set is what a lookup of that key finds, and a lookup of a key that is neither above nor below it finds what it
  found before.\<close>

theorem kson_get_set:
  assumes "setNested m k v = Inr m'"
  shows "kson_Get m' k = v \<and> (\<forall>k'. \<not> related k k' \<longrightarrow> kson_Get m' k' = kson_Get m k')"
  using Get_setNested [OF assms] Get_setNested_other [OF assms] by blast

theorem kson_get_set_witness:
  "setNested [(''db'', KMap [(''host'', KString ''h'')])] ''db.pool.max'' (KInt 8) =
     Inr [(''db'', KMap [(''host'', KString ''h''), (''pool'', KMap [(''max'', KInt 8 :: int kval)])])] \<and>
   \<not> related ''db.pool.max'' ''db.host'' \<and>
   kson_Get [(''db'', KMap [(''host'', KString ''h''), (''pool'', KMap [(''max'', KInt 8 :: int kval)])])] ''db.host'' =
     kson_Get [(''db'', KMap [(''host'', KString ''h'')])] ''db.host''"
proof -
  have s: "setNested [(''db'', KMap [(''host'', KString ''h'')])] ''db.pool.max'' (KInt 8) =
     Inr [(''db'', KMap [(''host'', KString ''h''), (''pool'', KMap [(''max'', KInt 8 :: int kval)])])]" by code_simp
  have r: "\<not> related ''db.pool.max'' ''db.host''" by code_simp
  show ?thesis using s r kson_get_set [OF s] by blast
qed

end
