(* ===== verification/Risk.thy ===== *)
theory Risk
  imports Complex_Main Matching
begin

text \<open>
  The risk engine of the trading packages (\<^verbatim>\<open>pkg/hft/risk/engine.go\<close>): limits, positions, the pre-trade checks, the position keeping
  after fills, the ring of violations, the metrics and the kill switch. An operation holds the lock of the position it changes,
  and the model runs the operations one after the other. The map of positions is an association list from symbols to positions; its order, which Go leaves open, shows
  only in \<open>GetAllPositions\<close> (the exposure is a sum modulo \<open>2\<^sup>6\<^sup>4\<close>). Clock readings and the time a check took are arguments.

  The arithmetic of \<^verbatim>\<open>float64\<close>, used for the price deviation and the rejection rate, is an argument too, a record of the operations the
  code uses: every result holds for all of them.
\<close>

subsection \<open>Limits, positions and violations\<close>

record 'f float64 =
  fl_of_int :: "int \<Rightarrow> 'f"
  fl_ratio :: "int \<Rightarrow> int \<Rightarrow> 'f"
  fl_sub :: "'f \<Rightarrow> 'f \<Rightarrow> 'f"
  fl_mul :: "'f \<Rightarrow> 'f \<Rightarrow> 'f"
  fl_div :: "'f \<Rightarrow> 'f \<Rightarrow> 'f"
  fl_neg :: "'f \<Rightarrow> 'f"
  fl_less :: "'f \<Rightarrow> 'f \<Rightarrow> bool"

record 'f RiskLimits =
  rl_MaxPositionPerSymbol :: int
  rl_MaxNotionalPerOrder :: int
  rl_MaxOrderSize :: int
  rl_MaxOrdersPerSecond :: int
  rl_MaxOrdersPerMinute :: int
  rl_MaxPriceDeviation :: 'f
  rl_MaxNotionalExposure :: int
  rl_MaxSymbolConcentration :: 'f

definition DefaultRiskLimits :: "'f float64 \<Rightarrow> 'f RiskLimits" where
  "DefaultRiskLimits fl =
     \<lparr>rl_MaxPositionPerSymbol = 100000, rl_MaxNotionalPerOrder = 10000000, rl_MaxOrderSize = 10000, rl_MaxOrdersPerSecond = 100,
      rl_MaxOrdersPerMinute = 1000, rl_MaxPriceDeviation = fl_ratio fl 5 100, rl_MaxNotionalExposure = 100000000,
      rl_MaxSymbolConcentration = fl_ratio fl 20 100\<rparr>"

record Position =
  po_Symbol :: string
  po_Quantity :: int
  po_AvgPrice :: int
  po_RealizedPnL :: int
  po_TotalBought :: int
  po_TotalSold :: int

definition zero_Position :: "string \<Rightarrow> Position" where
  "zero_Position symbol =
     \<lparr>po_Symbol = symbol, po_Quantity = 0, po_AvgPrice = 0, po_RealizedPnL = 0, po_TotalBought = 0, po_TotalSold = 0\<rparr>"

datatype ViolationType =
    ViolationPositionLimit
  | ViolationNotionalLimit
  | ViolationOrderSizeLimit
  | ViolationRateLimit
  | ViolationPriceDeviation
  | ViolationCreditLimit
  | ViolationConcentration

record RiskViolation =
  rv_Timestamp :: int
  rv_OrderID :: "64 word"
  rv_Symbol :: string
  rv_Type :: ViolationType
  rv_Message :: string

subsection \<open>The ring of violations\<close>

record ViolationRing =
  vr_violations :: "RiskViolation option list"
  vr_index :: "64 word"

definition zero_ViolationRing :: ViolationRing where
  "zero_ViolationRing = \<lparr>vr_violations = replicate 1000 None, vr_index = 0\<rparr>"

definition ViolationRing_Add :: "RiskViolation \<Rightarrow> ViolationRing \<Rightarrow> ViolationRing" where
  "ViolationRing_Add v vr =
     (let index = vr_index vr + 1;
          idx = unat index mod 1000
      in \<lparr>vr_violations = (vr_violations vr)[idx := Some v], vr_index = index\<rparr>)"

text \<open>\<open>None\<close> is the panic of \<^verbatim>\<open>make\<close> on a negative capacity.\<close>

definition GetRecent :: "int \<Rightarrow> ViolationRing \<Rightarrow> RiskViolation list option" where
  "GetRecent n vr =
     (let n = (if n > 1000 then 1000 else n) in
      if n < 0 then None
      else Some (List.map_filter (\<lambda>i. vr_violations vr ! (unat (vr_index vr - of_nat i) mod 1000)) [0..<nat n]))"

subsection \<open>The engine\<close>

record 'f RiskEngine =
  re_limits :: "'f RiskLimits"
  re_positions :: "(string \<times> Position) list"
  re_violations :: ViolationRing
  re_checksTotal :: "64 word"
  re_checksRejected :: "64 word"
  re_checksLatencySum :: "64 word"

definition NewRiskEngine :: "'f float64 \<Rightarrow> 'f RiskLimits option \<Rightarrow> 'f RiskEngine" where
  "NewRiskEngine fl limits =
     \<lparr>re_limits = (case limits of None \<Rightarrow> DefaultRiskLimits fl | Some l \<Rightarrow> l), re_positions = [], re_violations = zero_ViolationRing,
      re_checksTotal = 0, re_checksRejected = 0, re_checksLatencySum = 0\<rparr>"

definition float_abs :: "'f float64 \<Rightarrow> 'f \<Rightarrow> 'f" where
  "float_abs fl f = (if fl_less fl f (fl_of_int fl 0) then fl_neg fl f else f)"

definition abs64 :: "int \<Rightarrow> int" where
  "abs64 i = (if i < 0 then int64 (- i) else i)"

definition minInt64 :: "int \<Rightarrow> int \<Rightarrow> int" where
  "minInt64 a b = (if a < b then a else b)"

definition getOrCreatePosition :: "string \<Rightarrow> 'f RiskEngine \<Rightarrow> 'f RiskEngine \<times> Position" where
  "getOrCreatePosition symbol re =
     (case map_of (re_positions re) symbol of
        Some pos \<Rightarrow> (re, pos)
      | None \<Rightarrow> (re\<lparr>re_positions := re_positions re @ [(symbol, zero_Position symbol)]\<rparr>, zero_Position symbol))"

definition recordViolation :: "int \<Rightarrow> Order \<Rightarrow> ViolationType \<Rightarrow> string \<Rightarrow> 'f RiskEngine \<Rightarrow> 'f RiskEngine" where
  "recordViolation now order violationType message re =
     re\<lparr>re_violations := ViolationRing_Add
         \<lparr>rv_Timestamp = now, rv_OrderID = or_ID order, rv_Symbol = or_Symbol order, rv_Type = violationType, rv_Message = message\<rparr>
         (re_violations re)\<rparr>"

subsection \<open>Checks before a trade\<close>

datatype risk_error =
    OrderSizeExceedsLimit
  | NotionalExceedsLimit
  | PositionLimitExceeded
  | PriceDeviationTooLarge
  | ExposureLimitExceeded

definition checkPositionLimit :: "Order \<Rightarrow> 'f RiskEngine \<Rightarrow> 'f RiskEngine \<times> risk_error option" where
  "checkPositionLimit order re =
     (case getOrCreatePosition (or_Symbol order) re of
        (re1, pos) \<Rightarrow>
          (let currentQty = po_Quantity pos;
               newQty = (if or_Side order = SideBuy then int64 (currentQty + or_Quantity order) else int64 (currentQty - or_Quantity order))
           in (re1, if abs64 newQty > rl_MaxPositionPerSymbol (re_limits re1) then Some PositionLimitExceeded else None)))"

definition checkNotionalExposure :: "Order \<Rightarrow> 'f RiskEngine \<Rightarrow> risk_error option" where
  "checkNotionalExposure order re =
     (let totalExposure = foldl (\<lambda>total (symbol, pos).
            int64 (total + abs64 (go_div (int64 (po_Quantity pos * po_AvgPrice pos)) 100000000))) 0 (re_positions re);
          orderExposure = go_div (int64 (or_Quantity order * or_Price order)) 100000000;
          totalExposure = int64 (totalExposure + orderExposure)
      in if totalExposure > rl_MaxNotionalExposure (re_limits re) then Some ExposureLimitExceeded else None)"

definition price_deviates :: "'f float64 \<Rightarrow> Order \<Rightarrow> int \<Rightarrow> 'f RiskLimits \<Rightarrow> bool" where
  "price_deviates fl order marketPrice limits \<longleftrightarrow>
     or_Type order = OrderTypeLimit \<and> marketPrice > 0 \<and>
     (let priceFloat = fl_div fl (fl_of_int fl (or_Price order)) (fl_of_int fl 100000000);
          marketFloat = fl_div fl (fl_of_int fl marketPrice) (fl_of_int fl 100000000);
          deviation = fl_div fl (float_abs fl (fl_sub fl priceFloat marketFloat)) marketFloat
      in fl_less fl (rl_MaxPriceDeviation limits) deviation)"

definition reject :: "int \<Rightarrow> Order \<Rightarrow> ViolationType \<Rightarrow> string \<Rightarrow> 'f RiskEngine \<Rightarrow> 'f RiskEngine" where
  "reject now order violationType message re =
     recordViolation now order violationType message (re\<lparr>re_checksRejected := re_checksRejected re + 1\<rparr>)"

definition CheckOrder :: "'f float64 \<Rightarrow> int \<Rightarrow> int \<Rightarrow> Order \<Rightarrow> int \<Rightarrow> 'f RiskEngine \<Rightarrow> 'f RiskEngine \<times> risk_error option" where
  "CheckOrder fl now elapsed order marketPrice re =
     (let limits = re_limits re;
          (re1, err) =
            (if or_Quantity order > rl_MaxOrderSize limits then
               (reject now order ViolationOrderSizeLimit ''Order size exceeds limit'' re, Some OrderSizeExceedsLimit)
             else if go_div (int64 (or_Quantity order * or_Price order)) 100000000 > rl_MaxNotionalPerOrder limits then
               (reject now order ViolationNotionalLimit ''Notional exceeds limit'' re, Some NotionalExceedsLimit)
             else
               (case checkPositionLimit order re of
                  (re1, Some err) \<Rightarrow> (reject now order ViolationPositionLimit ''position limit exceeded'' re1, Some err)
                | (re1, None) \<Rightarrow>
                    if price_deviates fl order marketPrice limits then
                      (reject now order ViolationPriceDeviation ''Price deviation too large'' re1, Some PriceDeviationTooLarge)
                    else
                      (case checkNotionalExposure order re1 of
                         Some err \<Rightarrow> (reject now order ViolationCreditLimit ''notional exposure limit exceeded'' re1, Some err)
                       | None \<Rightarrow> (re1, None))))
      in (re1\<lparr>re_checksTotal := re_checksTotal re1 + 1, re_checksLatencySum := re_checksLatencySum re1 + of_int elapsed\<rparr>, err))"

subsection \<open>Positions after a fill\<close>

text \<open>What \<^verbatim>\<open>UpdatePosition\<close> does to the position it locks.\<close>

definition buy_fill :: "int \<Rightarrow> int \<Rightarrow> Position \<Rightarrow> Position" where
  "buy_fill qty price pos =
     (let (pos, qty) =
            (if po_Quantity pos < 0 then
               (let reduceQty = minInt64 qty (int64 (- po_Quantity pos));
                    realized = go_div (int64 (int64 (price - po_AvgPrice pos) * reduceQty)) 100000000
                in (pos\<lparr>po_RealizedPnL := int64 (po_RealizedPnL pos - realized), po_Quantity := int64 (po_Quantity pos + reduceQty)\<rparr>,
                    int64 (qty - reduceQty)))
             else (pos, qty));
          pos =
            (if qty > 0 then
               (let totalCost = int64 (po_Quantity pos * po_AvgPrice pos + qty * price);
                    pos = pos\<lparr>po_Quantity := int64 (po_Quantity pos + qty)\<rparr>
                in if po_Quantity pos \<noteq> 0 then pos\<lparr>po_AvgPrice := int64 (go_div totalCost (po_Quantity pos))\<rparr> else pos)
             else pos)
      in pos\<lparr>po_TotalBought := int64 (po_TotalBought pos + qty)\<rparr>)"

definition sell_fill :: "int \<Rightarrow> int \<Rightarrow> Position \<Rightarrow> Position" where
  "sell_fill qty price pos =
     (let (pos, qty) =
            (if po_Quantity pos > 0 then
               (let reduceQty = minInt64 qty (po_Quantity pos);
                    realized = go_div (int64 (int64 (price - po_AvgPrice pos) * reduceQty)) 100000000
                in (pos\<lparr>po_RealizedPnL := int64 (po_RealizedPnL pos + realized), po_Quantity := int64 (po_Quantity pos - reduceQty)\<rparr>,
                    int64 (qty - reduceQty)))
             else (pos, qty));
          pos =
            (if qty > 0 then
               (let totalCost = int64 (po_Quantity pos * po_AvgPrice pos - qty * price);
                    pos = pos\<lparr>po_Quantity := int64 (po_Quantity pos - qty)\<rparr>
                in if po_Quantity pos \<noteq> 0 then pos\<lparr>po_AvgPrice := int64 (go_div totalCost (po_Quantity pos))\<rparr> else pos)
             else pos)
      in pos\<lparr>po_TotalSold := int64 (po_TotalSold pos + qty)\<rparr>)"

definition UpdatePosition :: "string \<Rightarrow> byte \<Rightarrow> int \<Rightarrow> int \<Rightarrow> 'f RiskEngine \<Rightarrow> 'f RiskEngine" where
  "UpdatePosition symbol side qty price re =
     (case getOrCreatePosition symbol re of
        (re1, pos) \<Rightarrow>
          re1\<lparr>re_positions := AList.update symbol
              (if side = SideBuy then buy_fill qty price pos else sell_fill qty price pos) (re_positions re1)\<rparr>)"

definition GetPosition :: "string \<Rightarrow> 'f RiskEngine \<Rightarrow> Position" where
  "GetPosition symbol re = (case map_of (re_positions re) symbol of None \<Rightarrow> zero_Position symbol | Some pos \<Rightarrow> pos)"

definition GetAllPositions :: "'f RiskEngine \<Rightarrow> Position list" where
  "GetAllPositions re = map snd (re_positions re)"

subsection \<open>Metrics and kill switch\<close>

record 'f RiskMetrics =
  rm_ChecksTotal :: "64 word"
  rm_ChecksRejected :: "64 word"
  rm_RejectRate :: 'f
  rm_AvgLatencyNs :: "64 word"
  rm_RecentViolations :: "RiskViolation list"

definition RiskEngine_Metrics :: "'f float64 \<Rightarrow> 'f RiskEngine \<Rightarrow> 'f RiskMetrics option" where
  "RiskEngine_Metrics fl re =
     map_option (\<lambda>recent.
       \<lparr>rm_ChecksTotal = re_checksTotal re, rm_ChecksRejected = re_checksRejected re,
        rm_RejectRate = fl_mul fl (fl_div fl (fl_of_int fl (uint (re_checksRejected re))) (fl_of_int fl (uint (re_checksTotal re)))) (fl_of_int fl 100),
        rm_AvgLatencyNs = (if re_checksTotal re > 0 then re_checksLatencySum re div re_checksTotal re else 0),
        rm_RecentViolations = recent\<rparr>)
     (GetRecent 10 (re_violations re))"

record KillSwitch =
  ks_enabled :: bool
  ks_reason :: string
  ks_triggeredAt :: int

definition NewKillSwitch :: KillSwitch where
  "NewKillSwitch = \<lparr>ks_enabled = False, ks_reason = [], ks_triggeredAt = 0\<rparr>"

definition KillSwitch_Trigger :: "int \<Rightarrow> string \<Rightarrow> KillSwitch \<Rightarrow> KillSwitch" where
  "KillSwitch_Trigger now reason ks = ks\<lparr>ks_enabled := True, ks_reason := reason, ks_triggeredAt := now\<rparr>"

definition KillSwitch_IsEnabled :: "KillSwitch \<Rightarrow> bool" where
  "KillSwitch_IsEnabled ks = ks_enabled ks"

definition KillSwitch_GetReason :: "KillSwitch \<Rightarrow> string \<times> int" where
  "KillSwitch_GetReason ks = (ks_reason ks, ks_triggeredAt ks)"

definition KillSwitch_Reset :: "KillSwitch \<Rightarrow> KillSwitch" where
  "KillSwitch_Reset ks = ks\<lparr>ks_enabled := False, ks_reason := [], ks_triggeredAt := 0\<rparr>"

end
