(* ===== verification/RiskCheck.thy ===== *)
theory RiskCheck
  imports Risk
begin

text \<open>
  What the risk engine of \<^verbatim>\<open>pkg/hft/risk/engine.go\<close> guarantees: positions follow the fills, the checks decide what the limits say, checked
  orders keep every position within its limit, and the ring of violations returns the latest ones. Lemmas show where it does not: orders that are
  being worked are not counted, a notional that overflows passes, and a large request for recent violations repeats entries.
\<close>

subsection \<open>Position keeping\<close>

lemma in_int64I: "- (2 ^ 63) \<le> x \<Longrightarrow> x < 2 ^ 63 \<Longrightarrow> in_int64 x"
  by (simp add: in_int64_def)



text \<open>A fill, in the two parts of the code: what it takes off the opposite side, and what it adds.\<close>

lemma buy_fill_opposite:
  assumes "po_Quantity pos < 0" "- (2 ^ 63) < po_Quantity pos" "0 \<le> qty" "qty < 2 ^ 63"
  shows "po_Quantity (buy_fill qty price pos) = po_Quantity pos + qty"
    "po_AvgPrice (buy_fill qty price pos) = (if qty \<le> - po_Quantity pos then po_AvgPrice pos
      else int64 (go_div (int64 ((qty + po_Quantity pos) * price)) (qty + po_Quantity pos)))"
proof -
  have i: "int64 (- po_Quantity pos) = - po_Quantity pos" "int64 (qty + po_Quantity pos) = qty + po_Quantity pos"
      "int64 (po_Quantity pos + qty) = po_Quantity pos + qty" "int64 0 = 0"
    using assms by (simp_all add: in_int64_def)
  show "po_Quantity (buy_fill qty price pos) = po_Quantity pos + qty"
    "po_AvgPrice (buy_fill qty price pos) = (if qty \<le> - po_Quantity pos then po_AvgPrice pos
      else int64 (go_div (int64 ((qty + po_Quantity pos) * price)) (qty + po_Quantity pos)))"
    using assms i by (auto simp: buy_fill_def minInt64_def Let_def)
qed

lemma buy_fill_same:
  assumes "0 \<le> po_Quantity pos" "0 \<le> qty" "po_Quantity pos + qty < 2 ^ 63"
  shows "po_Quantity (buy_fill qty price pos) = po_Quantity pos + qty"
    "po_AvgPrice (buy_fill qty price pos) = (if qty = 0 then po_AvgPrice pos
      else int64 (go_div (int64 (po_Quantity pos * po_AvgPrice pos + qty * price)) (po_Quantity pos + qty)))"
proof -
  have i: "int64 (po_Quantity pos + qty) = po_Quantity pos + qty" using assms by (simp add: in_int64_def)
  show "po_Quantity (buy_fill qty price pos) = po_Quantity pos + qty"
    "po_AvgPrice (buy_fill qty price pos) = (if qty = 0 then po_AvgPrice pos
      else int64 (go_div (int64 (po_Quantity pos * po_AvgPrice pos + qty * price)) (po_Quantity pos + qty)))"
    using assms i by (auto simp: buy_fill_def Let_def)
qed

lemma sell_fill_opposite:
  assumes "po_Quantity pos > 0" "po_Quantity pos < 2 ^ 63" "0 \<le> qty" "qty < 2 ^ 63"
  shows "po_Quantity (sell_fill qty price pos) = po_Quantity pos - qty"
    "po_AvgPrice (sell_fill qty price pos) = (if qty \<le> po_Quantity pos then po_AvgPrice pos
      else int64 (go_div (int64 (- ((qty - po_Quantity pos) * price))) (- (qty - po_Quantity pos))))"
proof -
  have i: "int64 (qty - po_Quantity pos) = qty - po_Quantity pos"
      "int64 (po_Quantity pos - qty) = po_Quantity pos - qty" "int64 0 = 0"
    using assms by (simp_all add: in_int64_def)
  show "po_Quantity (sell_fill qty price pos) = po_Quantity pos - qty"
    "po_AvgPrice (sell_fill qty price pos) = (if qty \<le> po_Quantity pos then po_AvgPrice pos
      else int64 (go_div (int64 (- ((qty - po_Quantity pos) * price))) (- (qty - po_Quantity pos))))"
    using assms i by (auto simp: sell_fill_def minInt64_def Let_def)
qed

lemma sell_fill_same:
  assumes "po_Quantity pos \<le> 0" "0 \<le> qty" "- (2 ^ 63) \<le> po_Quantity pos - qty"
  shows "po_Quantity (sell_fill qty price pos) = po_Quantity pos - qty"
    "po_AvgPrice (sell_fill qty price pos) = (if qty = 0 then po_AvgPrice pos
      else int64 (go_div (int64 (- (- po_Quantity pos * po_AvgPrice pos + qty * price))) (- (- po_Quantity pos + qty))))"
proof -
  have i: "int64 (po_Quantity pos - qty) = po_Quantity pos - qty" using assms by (simp add: in_int64_def)
  show "po_Quantity (sell_fill qty price pos) = po_Quantity pos - qty"
    "po_AvgPrice (sell_fill qty price pos) = (if qty = 0 then po_AvgPrice pos
      else int64 (go_div (int64 (- (- po_Quantity pos * po_AvgPrice pos + qty * price))) (- (- po_Quantity pos + qty))))"
    using assms i by (auto simp: sell_fill_def Let_def)
qed

definition fill :: "byte \<Rightarrow> int \<Rightarrow> int \<Rightarrow> Position \<Rightarrow> Position" where
  "fill side qty price pos = (if side = SideBuy then buy_fill qty price pos else sell_fill qty price pos)"

definition signed :: "byte \<Rightarrow> int \<Rightarrow> int" where
  "signed side qty = (if side = SideBuy then qty else - qty)"

lemma fill_quantity:
  assumes "\<bar>po_Quantity pos\<bar> + qty < 2 ^ 63" "0 \<le> qty"
  shows "po_Quantity (fill side qty price pos) = po_Quantity pos + signed side qty"
proof (cases "side = SideBuy")
  case True
  then show ?thesis using assms
    by (cases "po_Quantity pos < 0") (simp_all add: fill_def signed_def buy_fill_opposite buy_fill_same)
next
  case False
  then show ?thesis using assms
    by (cases "po_Quantity pos > 0") (simp_all add: fill_def signed_def sell_fill_opposite sell_fill_same)
qed




subsection \<open>The engine after a sequence of fills\<close>

fun apply_fills :: "(string \<times> byte \<times> int \<times> int) list \<Rightarrow> 'f RiskEngine \<Rightarrow> 'f RiskEngine" where
  "apply_fills [] re = re"
| "apply_fills ((symbol, side, qty, price) # fs) re = apply_fills fs (UpdatePosition symbol side qty price re)"

definition net :: "string \<Rightarrow> (string \<times> byte \<times> int \<times> int) list \<Rightarrow> int" where
  "net symbol fs = sum_list (map (\<lambda>(s, side, qty, price). if s = symbol then signed side qty else 0) fs)"

definition volume :: "string \<Rightarrow> (string \<times> byte \<times> int \<times> int) list \<Rightarrow> int" where
  "volume symbol fs = sum_list (map (\<lambda>(s, side, qty, price). if s = symbol then qty else 0) fs)"

lemma GetPosition_create [simp]:
  "GetPosition s (fst (getOrCreatePosition s' re)) = GetPosition s re" "snd (getOrCreatePosition s' re) = GetPosition s' re"
  "re_limits (fst (getOrCreatePosition s' re)) = re_limits re"
  by (auto simp: getOrCreatePosition_def GetPosition_def map_add_def split: option.split)

lemma GetPosition_update:
  "GetPosition s (UpdatePosition s' side qty price re) = (if s = s' then fill side qty price (GetPosition s re) else GetPosition s re)"
proof -
  obtain re1 pos where c: "getOrCreatePosition s' re = (re1, pos)" by fastforce
  then have "GetPosition s re1 = GetPosition s re" "pos = GetPosition s' re"
    using GetPosition_create(1) [of s s' re] GetPosition_create(2) [of s' re] by simp_all
  then show ?thesis by (auto simp: UpdatePosition_def c GetPosition_def update_conv' fill_def)
qed

lemma limits_update [simp]: "re_limits (UpdatePosition s side qty price re) = re_limits re"
  using GetPosition_create(3) [of s re] by (cases "getOrCreatePosition s re") (simp add: UpdatePosition_def)

lemma limits_fills [simp]: "re_limits (apply_fills fs re) = re_limits re"
  by (induction fs re rule: apply_fills.induct) simp_all

lemma fills_tracked:
  assumes "list_all (\<lambda>(s, side, qty, price). s = symbol \<longrightarrow> 0 \<le> qty) fs" "\<bar>po_Quantity (GetPosition symbol re)\<bar> + volume symbol fs < 2 ^ 63"
  shows "po_Quantity (GetPosition symbol (apply_fills fs re)) = po_Quantity (GetPosition symbol re) + net symbol fs \<and> \<bar>net symbol fs\<bar> \<le> volume symbol fs"
  using assms
proof (induction fs re rule: apply_fills.induct)
  case (1 re)
  then show ?case by (simp add: net_def volume_def)
next
  case (2 s side qty price fs re)
  let ?re = "UpdatePosition s side qty price re"
  have vol: "0 \<le> volume symbol fs"
    unfolding volume_def using 2(2) by (intro sum_list_nonneg) (auto simp: list_all_iff)
  show ?case
  proof (cases "s = symbol")
    case True
    have q: "0 \<le> qty" "volume symbol ((s, side, qty, price) # fs) = qty + volume symbol fs"
        "net symbol ((s, side, qty, price) # fs) = signed side qty + net symbol fs"
      using 2(2) True by (simp_all add: volume_def net_def)
    have u: "po_Quantity (GetPosition symbol ?re) = po_Quantity (GetPosition symbol re) + signed side qty"
      using True 2(3) q vol by (simp add: GetPosition_update fill_quantity)
    have "\<bar>signed side qty\<bar> = qty" using q(1) by (simp add: signed_def)
    moreover have "\<bar>po_Quantity (GetPosition symbol ?re)\<bar> + volume symbol fs < 2 ^ 63" using u 2(3) q calculation by linarith
    ultimately show ?thesis using 2(1) 2(2) u q by auto
  next
    case False
    then show ?thesis using 2 by (simp add: GetPosition_update volume_def net_def)
  qed
qed




definition exact_float :: "rat float64" where
  "exact_float = \<lparr>fl_of_int = of_int, fl_ratio = (\<lambda>n d. of_int n / of_int d), fl_sub = (-), fl_mul = (*), fl_div = (/), fl_neg = uminus, fl_less = (<)\<rparr>"


subsection \<open>What the checks decide\<close>

definition new_quantity :: "Order \<Rightarrow> 'f RiskEngine \<Rightarrow> int" where
  "new_quantity order re = po_Quantity (GetPosition (or_Symbol order) re) + signed (or_Side order) (or_Quantity order)"

definition exposure :: "Position \<Rightarrow> int" where
  "exposure pos = \<bar>po_Quantity pos * po_AvgPrice pos\<bar> div 100000000"

definition total_exposure :: "'f RiskEngine \<Rightarrow> int" where
  "total_exposure re = sum_list (map (exposure \<circ> snd) (re_positions re))"

lemma checkPositionLimit_eq:
  "fst (checkPositionLimit order re) = fst (getOrCreatePosition (or_Symbol order) re)"
  "snd (checkPositionLimit order re) =
     (if abs64 (int64 (new_quantity order re)) > rl_MaxPositionPerSymbol (re_limits re) then Some PositionLimitExceeded else None)"
proof -
  obtain re1 pos where c: "getOrCreatePosition (or_Symbol order) re = (re1, pos)" by fastforce
  then have "pos = GetPosition (or_Symbol order) re" "re_limits re1 = re_limits re"
    using GetPosition_create(2,3) [of "or_Symbol order" re] by simp_all
  then show "fst (checkPositionLimit order re) = fst (getOrCreatePosition (or_Symbol order) re)"
    "snd (checkPositionLimit order re) =
       (if abs64 (int64 (new_quantity order re)) > rl_MaxPositionPerSymbol (re_limits re) then Some PositionLimitExceeded else None)"
    by (simp_all add: checkPositionLimit_def new_quantity_def signed_def Let_def c)
qed

lemma reject_simps [simp]:
  "re_limits (reject now order ty msg re) = re_limits re" "re_positions (reject now order ty msg re) = re_positions re"
  "re_checksTotal (reject now order ty msg re) = re_checksTotal re" "re_checksRejected (reject now order ty msg re) = re_checksRejected re + 1"
  "re_violations (reject now order ty msg re) = ViolationRing_Add
     \<lparr>rv_Timestamp = now, rv_OrderID = or_ID order, rv_Symbol = or_Symbol order, rv_Type = ty, rv_Message = msg\<rparr> (re_violations re)"
  by (simp_all add: reject_def recordViolation_def)

lemma create_simps [simp]:
  "re_checksTotal (fst (getOrCreatePosition s re)) = re_checksTotal re" "re_checksRejected (fst (getOrCreatePosition s re)) = re_checksRejected re"
  "re_violations (fst (getOrCreatePosition s re)) = re_violations re"
  by (auto simp: getOrCreatePosition_def split: option.split)

lemma GetPosition_cong: "re_positions re = re_positions re' \<Longrightarrow> GetPosition s re = GetPosition s re'"
  by (simp add: GetPosition_def)

text \<open>\<open>CheckOrder\<close> with the result of the checks separated from the counters.\<close>

definition verdict :: "'f float64 \<Rightarrow> Order \<Rightarrow> int \<Rightarrow> 'f RiskEngine \<Rightarrow> (risk_error \<times> ViolationType \<times> string \<times> bool) option" where
  "verdict fl order marketPrice re =
     (if or_Quantity order > rl_MaxOrderSize (re_limits re) then Some (OrderSizeExceedsLimit, ViolationOrderSizeLimit, ''Order size exceeds limit'', False)
      else if go_div (int64 (or_Quantity order * or_Price order)) 100000000 > rl_MaxNotionalPerOrder (re_limits re) then
        Some (NotionalExceedsLimit, ViolationNotionalLimit, ''Notional exceeds limit'', False)
      else if abs64 (int64 (new_quantity order re)) > rl_MaxPositionPerSymbol (re_limits re) then
        Some (PositionLimitExceeded, ViolationPositionLimit, ''position limit exceeded'', True)
      else if price_deviates fl order marketPrice (re_limits re) then
        Some (PriceDeviationTooLarge, ViolationPriceDeviation, ''Price deviation too large'', True)
      else if checkNotionalExposure order (fst (getOrCreatePosition (or_Symbol order) re)) \<noteq> None then
        Some (ExposureLimitExceeded, ViolationCreditLimit, ''notional exposure limit exceeded'', True)
      else None)"

lemma CheckOrder_verdict:
  "CheckOrder fl now elapsed order marketPrice re =
     (let re1 = (case verdict fl order marketPrice re of
            None \<Rightarrow> fst (getOrCreatePosition (or_Symbol order) re)
          | Some (err, ty, msg, created) \<Rightarrow> reject now order ty msg (if created then fst (getOrCreatePosition (or_Symbol order) re) else re))
      in (re1\<lparr>re_checksTotal := re_checksTotal re1 + 1, re_checksLatencySum := re_checksLatencySum re1 + of_int elapsed\<rparr>,
          map_option fst (verdict fl order marketPrice re)))"
proof -
  have e: "checkNotionalExposure order r = None \<or> checkNotionalExposure order r = Some ExposureLimitExceeded" for r :: "'f RiskEngine"
    by (simp add: checkNotionalExposure_def Let_def)
  show ?thesis
    using checkPositionLimit_eq [of order re] e [of "fst (getOrCreatePosition (or_Symbol order) re)"]
    by (cases "checkPositionLimit order re") (auto simp: CheckOrder_def verdict_def Let_def split: if_splits)
qed

lemma check_effect:
  assumes "CheckOrder fl now elapsed order marketPrice re = (re', err)"
  shows "re_limits re' = re_limits re" "GetPosition s re' = GetPosition s re" "re_checksTotal re' = re_checksTotal re + 1"
    "re_checksRejected re' = re_checksRejected re + of_bool (err \<noteq> None)"
    "err = None \<Longrightarrow> re_violations re' = re_violations re"
    "err \<noteq> None \<Longrightarrow> \<exists>ty msg. re_violations re' = ViolationRing_Add
        \<lparr>rv_Timestamp = now, rv_OrderID = or_ID order, rv_Symbol = or_Symbol order, rv_Type = ty, rv_Message = msg\<rparr> (re_violations re)"
    "err = map_option fst (verdict fl order marketPrice re)"
proof -
  have g: "GetPosition s (r\<lparr>re_checksTotal := a, re_checksLatencySum := b\<rparr>) = GetPosition s r" for r :: "'f RiskEngine" and a b
    by (simp add: GetPosition_def)
  have j: "GetPosition s (reject now order ty msg r) = GetPosition s r" for r :: "'f RiskEngine" and ty msg by (rule GetPosition_cong) simp
  note d = assms [symmetric, unfolded CheckOrder_verdict Let_def]
  show "re_limits re' = re_limits re" "GetPosition s re' = GetPosition s re" "re_checksTotal re' = re_checksTotal re + 1"
    "re_checksRejected re' = re_checksRejected re + of_bool (err \<noteq> None)"
    "err = None \<Longrightarrow> re_violations re' = re_violations re"
    "err = map_option fst (verdict fl order marketPrice re)"
    using d by (auto simp: g j split: option.split)
  show "err \<noteq> None \<Longrightarrow> \<exists>ty msg. re_violations re' = ViolationRing_Add
        \<lparr>rv_Timestamp = now, rv_OrderID = or_ID order, rv_Symbol = or_Symbol order, rv_Type = ty, rv_Message = msg\<rparr> (re_violations re)"
    using d by (cases "verdict fl order marketPrice re") (auto split: prod.split if_split)
qed

lemma abs64_eq: "- (2 ^ 63) < x \<Longrightarrow> x < 2 ^ 63 \<Longrightarrow> abs64 x = \<bar>x\<bar>"
  by (simp add: abs64_def in_int64_def)

lemma notional_bound: "in_int64 x \<Longrightarrow> 0 \<le> \<bar>x\<bar> div 100000000 \<and> \<bar>x\<bar> div 100000000 < 2 ^ 62"
proof -
  assume "in_int64 x"
  then have "\<bar>x\<bar> \<le> 2 ^ 63" by (auto simp: in_int64_def abs_le_iff)
  then show ?thesis using zdiv_mono1 [of "\<bar>x\<bar>" "2 ^ 63" 100000000] by simp
qed

lemma exposure_code:
  assumes "in_int64 (po_Quantity pos * po_AvgPrice pos)"
  shows "abs64 (go_div (int64 (po_Quantity pos * po_AvgPrice pos)) 100000000) = exposure pos"
proof -
  let ?x = "po_Quantity pos * po_AvgPrice pos"
  have g: "go_div ?x 100000000 = sgn ?x * (\<bar>?x\<bar> div 100000000)" by (simp add: go_div_def signed_divide_int_def)
  have d: "0 \<le> \<bar>?x\<bar> div 100000000" "\<bar>?x\<bar> div 100000000 < 2 ^ 62" using notional_bound [OF assms] by simp_all
  have "abs64 (go_div ?x 100000000) = \<bar>go_div ?x 100000000\<bar>" unfolding g using d
    by (intro abs64_eq) (auto simp: sgn_if)
  also have "\<dots> = exposure pos" unfolding g exposure_def using d(1) by (auto simp: abs_mult sgn_if)
  finally show ?thesis using assms by simp
qed

lemma exposure_nonneg [simp]: "0 \<le> exposure pos"
  by (simp add: exposure_def)

lemma exposure_sum:
  assumes "list_all (\<lambda>(s, pos). in_int64 (po_Quantity pos * po_AvgPrice pos)) ps" "0 \<le> t" "t + sum_list (map (exposure \<circ> snd) ps) < 2 ^ 63"
  shows "foldl (\<lambda>total (symbol, pos). int64 (total + abs64 (go_div (int64 (po_Quantity pos * po_AvgPrice pos)) 100000000))) t ps =
    t + sum_list (map (exposure \<circ> snd) ps)"
  using assms
proof (induction ps arbitrary: t)
  case (Cons sp ps)
  obtain s pos where sp: "sp = (s, pos)" by (cases sp)
  have e: "0 \<le> sum_list (map (exposure \<circ> snd) ps)" by (intro sum_list_nonneg) auto
  have x: "abs64 (go_div (int64 (po_Quantity pos * po_AvgPrice pos)) 100000000) = exposure pos"
    using Cons.prems(1) sp by (intro exposure_code) simp
  have "t + (exposure pos + sum_list (map (exposure \<circ> snd) ps)) < 2 ^ 63" using Cons.prems(3) sp by (simp add: comp_def)
  then have "in_int64 (t + exposure pos)"
    using Cons.prems(2) e exposure_nonneg [of pos] by (intro in_int64I) linarith+
  then have "int64 (t + exposure pos) = t + exposure pos" by simp
  then have "foldl (\<lambda>total (symbol, pos). int64 (total + abs64 (go_div (int64 (po_Quantity pos * po_AvgPrice pos)) 100000000))) t (sp # ps) =
      foldl (\<lambda>total (symbol, pos). int64 (total + abs64 (go_div (int64 (po_Quantity pos * po_AvgPrice pos)) 100000000))) (t + exposure pos) ps"
    using x sp by simp
  also have "\<dots> = t + exposure pos + sum_list (map (exposure \<circ> snd) ps)"
    using Cons.prems sp exposure_nonneg [of pos] by (intro Cons.IH) auto
  finally show ?case using sp by (simp add: comp_def)
qed simp

definition in_range :: "Order \<Rightarrow> 'f RiskEngine \<Rightarrow> bool" where
  "in_range order re \<longleftrightarrow>
     in_int64 (or_Quantity order * or_Price order) \<and> \<bar>new_quantity order re\<bar> < 2 ^ 63 \<and>
     list_all (\<lambda>(s, pos). in_int64 (po_Quantity pos * po_AvgPrice pos)) (re_positions re) \<and>
     total_exposure re < 2 ^ 62"

lemma exposure_check:
  assumes "in_range order re"
  shows "checkNotionalExposure order (fst (getOrCreatePosition (or_Symbol order) re)) = None \<longleftrightarrow>
    total_exposure re + go_div (or_Quantity order * or_Price order) 100000000 \<le> rl_MaxNotionalExposure (re_limits re)"
proof -
  let ?re = "fst (getOrCreatePosition (or_Symbol order) re)" and ?x = "or_Quantity order * or_Price order"
  have r: "in_int64 ?x" "total_exposure re < 2 ^ 62"
      "list_all (\<lambda>(s, pos). in_int64 (po_Quantity pos * po_AvgPrice pos)) (re_positions re)"
    using assms by (simp_all add: in_range_def)
  have t: "total_exposure ?re = total_exposure re"
    by (auto simp: total_exposure_def getOrCreatePosition_def zero_Position_def exposure_def split: option.split)
  have l: "list_all (\<lambda>(s, pos). in_int64 (po_Quantity pos * po_AvgPrice pos)) (re_positions ?re)"
    using r(3) by (auto simp: getOrCreatePosition_def zero_Position_def in_int64_def split: option.split)
  have p: "0 \<le> total_exposure re" unfolding total_exposure_def by (intro sum_list_nonneg) auto
  have s: "0 + sum_list (map (exposure \<circ> snd) (re_positions ?re)) < 2 ^ 63" using t r(2) by (simp add: total_exposure_def)
  have f: "foldl (\<lambda>total (symbol, pos). int64 (total + abs64 (go_div (int64 (po_Quantity pos * po_AvgPrice pos)) 100000000))) 0 (re_positions ?re) =
      total_exposure re"
    using exposure_sum [OF l order.refl s] t by (simp add: total_exposure_def)
  have g: "go_div ?x 100000000 = sgn ?x * (\<bar>?x\<bar> div 100000000)" by (simp add: go_div_def signed_divide_int_def)
  have "0 \<le> \<bar>?x\<bar> div 100000000" "\<bar>?x\<bar> div 100000000 < 2 ^ 62" using notional_bound [OF r(1)] by simp_all
  then have "\<bar>go_div ?x 100000000\<bar> < 2 ^ 62" unfolding g by (auto simp: abs_mult sgn_if)
  then have "int64 (total_exposure re + go_div ?x 100000000) = total_exposure re + go_div ?x 100000000"
    using p r(2) by (intro int64_id) (auto simp: in_int64_def abs_less_iff)
  then show ?thesis using r(1) by (simp add: checkNotionalExposure_def f Let_def)
qed

text \<open>\<^bold>\<open>C29.\<close> The checks before a trade decide what the limits say. Where nothing overflows, \<^verbatim>\<open>CheckOrder\<close> lets an order pass exactly when its
  size, its notional, the position it would lead to, its distance from the market price and the total exposure are within their limits;
  it counts the check, counts and records a rejection exactly when it rejects, and leaves the limits and every position alone.\<close>

theorem check_decides:
  assumes "in_range order re" and c: "CheckOrder fl now elapsed order marketPrice re = (re', err)"
  shows "(err = None \<longleftrightarrow>
        or_Quantity order \<le> rl_MaxOrderSize (re_limits re) \<and>
        go_div (or_Quantity order * or_Price order) 100000000 \<le> rl_MaxNotionalPerOrder (re_limits re) \<and>
        \<bar>new_quantity order re\<bar> \<le> rl_MaxPositionPerSymbol (re_limits re) \<and>
        \<not> price_deviates fl order marketPrice (re_limits re) \<and>
        total_exposure re + go_div (or_Quantity order * or_Price order) 100000000 \<le> rl_MaxNotionalExposure (re_limits re)) \<and>
     re_checksTotal re' = re_checksTotal re + 1 \<and> re_checksRejected re' = re_checksRejected re + of_bool (err \<noteq> None) \<and>
     (if err = None then re_violations re' = re_violations re
      else \<exists>ty msg. re_violations re' = ViolationRing_Add
        \<lparr>rv_Timestamp = now, rv_OrderID = or_ID order, rv_Symbol = or_Symbol order, rv_Type = ty, rv_Message = msg\<rparr> (re_violations re)) \<and>
     re_limits re' = re_limits re \<and> (\<forall>s. GetPosition s re' = GetPosition s re)"
proof -
  note eff = check_effect [OF c]
  have x: "int64 (or_Quantity order * or_Price order) = or_Quantity order * or_Price order" using assms(1) by (simp add: in_range_def)
  have q: "abs64 (int64 (new_quantity order re)) = \<bar>new_quantity order re\<bar>"
    using assms(1) by (subst int64_id) (auto simp: in_range_def in_int64_def abs64_eq)
  have "err = None \<longleftrightarrow>
        or_Quantity order \<le> rl_MaxOrderSize (re_limits re) \<and>
        go_div (or_Quantity order * or_Price order) 100000000 \<le> rl_MaxNotionalPerOrder (re_limits re) \<and>
        \<bar>new_quantity order re\<bar> \<le> rl_MaxPositionPerSymbol (re_limits re) \<and>
        \<not> price_deviates fl order marketPrice (re_limits re) \<and>
        total_exposure re + go_div (or_Quantity order * or_Price order) 100000000 \<le> rl_MaxNotionalExposure (re_limits re)"
    unfolding eff(7) verdict_def x q using exposure_check [OF assms(1)] by (simp add: not_less)
  then show ?thesis using eff(1-6) by simp
qed

definition demo_order :: "byte \<Rightarrow> int \<Rightarrow> int \<Rightarrow> Order" where
  "demo_order side qty price = zero_Order\<lparr>or_ID := 7, or_Symbol := ''ABC'', or_Side := side, or_Type := OrderTypeLimit, or_Quantity := qty, or_Price := price\<rparr>"

theorem check_decides_witness:
  "in_range (demo_order SideBuy 100 5000000000) (NewRiskEngine exact_float None) \<and>
   snd (CheckOrder exact_float 1 2 (demo_order SideBuy 100 5000000000) 5100000000 (NewRiskEngine exact_float None)) = None \<and>
   re_checksTotal (fst (CheckOrder exact_float 1 2 (demo_order SideBuy 100 5000000000) 5100000000 (NewRiskEngine exact_float None))) = 1"
proof -
  let ?re = "NewRiskEngine exact_float None" and ?o = "demo_order SideBuy 100 5000000000"
  have r: "in_range ?o ?re" by code_simp
  obtain re' err where c: "CheckOrder exact_float 1 2 ?o 5100000000 ?re = (re', err)" by fastforce
  have e: "snd (CheckOrder exact_float 1 2 ?o 5100000000 ?re) = None" by code_simp
  have z: "re_checksTotal ?re = 0" by (simp add: NewRiskEngine_def)
  show ?thesis using check_decides [OF r c] r e z c by simp
qed

subsection \<open>Positions within their limit\<close>

text \<open>Orders one after the other: an order that passes the checks is filled, in parts and at any prices, up to its quantity; an order that
  does not is dropped.\<close>

inductive risk_step :: "'f float64 \<Rightarrow> 'f RiskEngine \<Rightarrow> 'f RiskEngine \<Rightarrow> bool" for fl where
  risk_filled: "CheckOrder fl now elapsed order marketPrice re = (re', None) \<Longrightarrow>
     list_all (\<lambda>(qty, price). 0 \<le> qty) fs \<Longrightarrow> sum_list (map fst fs) \<le> or_Quantity order \<Longrightarrow>
     risk_step fl re (apply_fills (map (\<lambda>(qty, price). (or_Symbol order, or_Side order, qty, price)) fs) re')"
| risk_refused: "CheckOrder fl now elapsed order marketPrice re = (re', Some err) \<Longrightarrow> risk_step fl re re'"

definition within_limits :: "'f RiskLimits \<Rightarrow> 'f RiskEngine \<Rightarrow> bool" where
  "within_limits limits re \<longleftrightarrow> re_limits re = limits \<and> (\<forall>s. \<bar>po_Quantity (GetPosition s re)\<bar> \<le> rl_MaxPositionPerSymbol limits)"

definition sane_limits :: "'f RiskLimits \<Rightarrow> bool" where
  "sane_limits limits \<longleftrightarrow> 0 \<le> rl_MaxPositionPerSymbol limits \<and> rl_MaxPositionPerSymbol limits + rl_MaxOrderSize limits < 2 ^ 63"

lemma fills_of_order:
  assumes "list_all (\<lambda>(qty, price). 0 \<le> qty) fs"
  shows "net s (map (\<lambda>(qty, price). (s', side, qty, price)) fs) = (if s = s' then signed side (sum_list (map fst fs)) else 0)"
    "volume s (map (\<lambda>(qty, price). (s', side, qty, price)) fs) = (if s = s' then sum_list (map fst fs) else 0)"
    "0 \<le> sum_list (map fst fs)"
  using assms by (induction fs) (auto simp: net_def volume_def signed_def)

lemma passed_quantity:
  assumes "within_limits limits re" "sane_limits limits" "CheckOrder fl now elapsed order marketPrice re = (re', None)" "0 \<le> or_Quantity order"
  shows "or_Quantity order \<le> rl_MaxOrderSize limits" "\<bar>new_quantity order re\<bar> \<le> rl_MaxPositionPerSymbol limits"
proof -
  have l: "re_limits re = limits" and Q: "\<bar>po_Quantity (GetPosition (or_Symbol order) re)\<bar> \<le> rl_MaxPositionPerSymbol limits"
    using assms(1) by (simp_all add: within_limits_def)
  have v: "verdict fl order marketPrice re = None" using check_effect(7) [OF assms(3)] by simp
  show q: "or_Quantity order \<le> rl_MaxOrderSize limits" using v l by (simp add: verdict_def not_less split: if_splits)
  have n: "\<bar>new_quantity order re\<bar> \<le> rl_MaxPositionPerSymbol limits + rl_MaxOrderSize limits"
    using Q q assms(4) by (auto simp: new_quantity_def signed_def abs_le_iff)
  have "abs64 (int64 (new_quantity order re)) = \<bar>new_quantity order re\<bar>"
    using n assms(2) by (subst int64_id) (auto simp: sane_limits_def in_int64_def abs64_eq abs_le_iff)
  then show "\<bar>new_quantity order re\<bar> \<le> rl_MaxPositionPerSymbol limits"
    using v l by (simp add: verdict_def not_less split: if_splits)
qed

lemma within_limits_step:
  assumes "sane_limits limits" "within_limits limits re" "risk_step fl re re'"
  shows "within_limits limits re'"
  using assms(3)
proof cases
  case (risk_filled now elapsed order marketPrice re1 fs)
  let ?fs = "map (\<lambda>(qty, price). (or_Symbol order, or_Side order, qty, price)) fs" and ?sum = "sum_list (map fst fs)"
  note of_order = fills_of_order(1,2) [OF risk_filled(3), of _ "or_Symbol order" "or_Side order"] fills_of_order(3) [OF risk_filled(3)]
  have q: "0 \<le> or_Quantity order" using of_order(3) risk_filled(4) by simp
  note pq = passed_quantity [OF assms(2,1) risk_filled(2) q]
  have l: "re_limits re1 = limits" using assms(2) check_effect(1) [OF risk_filled(2)] by (simp add: within_limits_def)
  have "\<bar>po_Quantity (GetPosition s re')\<bar> \<le> rl_MaxPositionPerSymbol limits" for s
  proof -
    have g: "GetPosition s re1 = GetPosition s re" using check_effect(2) [OF risk_filled(2)] .
    have Q: "\<bar>po_Quantity (GetPosition s re)\<bar> \<le> rl_MaxPositionPerSymbol limits" using assms(2) by (simp add: within_limits_def)
    have "list_all (\<lambda>(s', side, qty, price). s' = s \<longrightarrow> 0 \<le> qty) ?fs" using risk_filled(3) by (auto simp: list_all_iff)
    moreover have "\<bar>po_Quantity (GetPosition s re1)\<bar> + volume s ?fs < 2 ^ 63"
      using Q g of_order(2,3) risk_filled(4) pq(1) assms(1) q by (auto simp: sane_limits_def)
    ultimately have t: "po_Quantity (GetPosition s re') = po_Quantity (GetPosition s re) + net s ?fs"
      using fills_tracked [of s ?fs re1] g risk_filled(1) by simp
    show ?thesis
    proof (cases "s = or_Symbol order")
      case True
      have "\<bar>po_Quantity (GetPosition s re) + signed (or_Side order) (or_Quantity order)\<bar> \<le> rl_MaxPositionPerSymbol limits"
        using pq(2) True by (simp add: new_quantity_def)
      then show ?thesis
        using t Q True of_order risk_filled(4) by (auto simp: signed_def abs_le_iff split: if_splits)
    next
      case False
      then show ?thesis using t Q of_order(1) [of s] by simp
    qed
  qed
  then show ?thesis using l risk_filled(1) by (simp add: within_limits_def)
next
  case (risk_refused now elapsed order marketPrice err)
  then show ?thesis using assms(2) check_effect(1,2) [OF risk_refused] by (simp add: within_limits_def)
qed

interpretation risk: inductive_invariant "\<lambda>re. sane_limits limits \<and> re = NewRiskEngine fl (Some limits)" "risk_step fl"
    "\<lambda>re. sane_limits limits \<and> within_limits limits re" for fl limits
proof unfold_locales
  fix re
  assume "sane_limits limits \<and> re = NewRiskEngine fl (Some limits)"
  then show "sane_limits limits \<and> within_limits limits re"
    by (simp add: within_limits_def sane_limits_def NewRiskEngine_def GetPosition_def zero_Position_def)
next
  fix re re'
  assume "sane_limits limits \<and> within_limits limits re" "risk_step fl re re'"
  then show "sane_limits limits \<and> within_limits limits re'" using within_limits_step by blast
qed

text \<open>\<^bold>\<open>C6.\<close> When every order is checked against the positions that the fills before it left, no position ever exceeds its limit: in every state
  that a new engine reaches by checking orders and filling those that pass, in parts and up to their quantity, the position of every symbol,
  long or short, is at most the configured maximum.\<close>

theorem position_limit_kept:
  assumes "sane_limits limits"
    and "reach (\<lambda>re. sane_limits limits \<and> re = NewRiskEngine fl (Some limits)) (risk_step fl) re"
  shows "\<bar>po_Quantity (GetPosition s re)\<bar> \<le> rl_MaxPositionPerSymbol limits"
  using risk.reach_inv [OF assms(2)] by (simp add: within_limits_def)

definition demo_limits :: "rat RiskLimits" where
  "demo_limits = (DefaultRiskLimits exact_float)\<lparr>rl_MaxPositionPerSymbol := 120\<rparr>"

definition demo_traded :: "rat RiskEngine" where
  "demo_traded = apply_fills [(''ABC'', SideBuy, 60, 5000000000), (''ABC'', SideBuy, 30, 5010000000)]
     (fst (CheckOrder exact_float 1 2 (demo_order SideBuy 100 5000000000) 5100000000 (NewRiskEngine exact_float (Some demo_limits))))"

theorem position_limit_kept_witness:
  "sane_limits demo_limits \<and>
   reach (\<lambda>re. sane_limits demo_limits \<and> re = NewRiskEngine exact_float (Some demo_limits)) (risk_step exact_float) demo_traded \<and>
   po_Quantity (GetPosition ''ABC'' demo_traded) = 90 \<and> \<bar>po_Quantity (GetPosition ''ABC'' demo_traded)\<bar> \<le> 120"
proof -
  let ?re = "NewRiskEngine exact_float (Some demo_limits)" and ?o = "demo_order SideBuy 100 5000000000"
  let ?fs = "[(60, 5000000000), (30, 5010000000)] :: (int \<times> int) list"
  have s: "sane_limits demo_limits" by code_simp
  have "snd (CheckOrder exact_float 1 2 ?o 5100000000 ?re) = None" by code_simp
  then have c: "CheckOrder exact_float 1 2 ?o 5100000000 ?re = (fst (CheckOrder exact_float 1 2 ?o 5100000000 ?re), None)"
    by (metis prod.collapse)
  have "risk_step exact_float ?re
      (apply_fills (map (\<lambda>(qty, price). (or_Symbol ?o, or_Side ?o, qty, price)) ?fs) (fst (CheckOrder exact_float 1 2 ?o 5100000000 ?re)))"
    using c by (rule risk_filled) (simp_all add: demo_order_def)
  then have st: "risk_step exact_float ?re demo_traded" by (simp add: demo_traded_def demo_order_def)
  have "reach (\<lambda>re. sane_limits demo_limits \<and> re = ?re) (risk_step exact_float) ?re" by (rule reach_init) (simp add: s)
  then have r: "reach (\<lambda>re. sane_limits demo_limits \<and> re = ?re) (risk_step exact_float) demo_traded" using st by (rule reach_step)
  have q: "po_Quantity (GetPosition ''ABC'' demo_traded) = 90" by code_simp
  have m: "rl_MaxPositionPerSymbol demo_limits = 120" by (simp add: demo_limits_def)
  show ?thesis using s r q position_limit_kept [OF s r, of "''ABC''"] m by simp
qed

text \<open>The checks look at filled positions only: two orders that are each within the limit can both pass before either is filled, and together
  exceed it. And the notional is computed in 64 bits: an order worth a thousand times the limit passes when the product overflows.\<close>

lemma check_ignores_working_orders:
  "case CheckOrder exact_float 1 2 (demo_order SideBuy 100 5000000000) 5100000000 (NewRiskEngine exact_float (Some demo_limits)) of
     (re1, err1) \<Rightarrow>
       (case CheckOrder exact_float 3 2 (demo_order SideBuy 100 5000000000) 5100000000 re1 of
          (re2, err2) \<Rightarrow> err1 = None \<and> err2 = None \<and>
            po_Quantity (GetPosition ''ABC''
              (UpdatePosition ''ABC'' SideBuy 100 5000000000 (UpdatePosition ''ABC'' SideBuy 100 5000000000 re2))) = 200)"
  by code_simp

lemma check_notional_overflow:
  "snd (CheckOrder exact_float 1 2 (demo_order SideBuy 10000 1000000000000000) 0 (NewRiskEngine exact_float None)) = None \<and>
   10000 * 1000000000000000 div 100000000 > rl_MaxNotionalPerOrder (DefaultRiskLimits exact_float)"
  by code_simp

lemma total_bought_undercounts:
  "po_TotalBought (GetPosition ''ABC''
     (apply_fills [(''ABC'', SideSell, 5, 100), (''ABC'', SideBuy, 5, 100)] (NewRiskEngine exact_float None))) = 0"
  by code_simp

subsection \<open>Recent violations\<close>

definition ring_of :: "RiskViolation list \<Rightarrow> ViolationRing" where
  "ring_of vs = foldl (\<lambda>vr v. ViolationRing_Add v vr) zero_ViolationRing vs"

lemma ring_of_snoc: "ring_of (vs @ [v]) = ViolationRing_Add v (ring_of vs)"
  by (simp add: ring_of_def)

lemma unat_small: "n < 2 ^ 64 \<Longrightarrow> unat (of_nat n :: 64 word) = n"
  by (simp add: unat_of_nat)

lemma unat_below_zero: "0 < d \<Longrightarrow> d \<le> 2 ^ 64 \<Longrightarrow> unat (- (of_nat d :: 64 word)) = 2 ^ 64 - d"
proof -
  assume d: "0 < d" "d \<le> 2 ^ 64"
  have "(of_nat (2 ^ 64) :: 64 word) = 0" by simp
  then have eq: "- (of_nat d :: 64 word) = of_nat (2 ^ 64 - d)" using d(2) by (simp only: of_nat_diff diff_0)
  show ?thesis unfolding eq using d by (intro unat_small) simp
qed

lemma mod_slots_differ: "(m::nat) < k \<Longrightarrow> k < m + 1000 \<Longrightarrow> k mod 1000 \<noteq> m mod 1000"
proof
  assume a: "m < k" "k < m + 1000" and eq: "k mod 1000 = m mod 1000"
  have "1000 dvd k - m" using eq a by (simp add: mod_eq_dvd_iff_nat)
  then show False using a by (auto dest: dvd_imp_le)
qed

lemma ring_slots:
  assumes "length vs < 2 ^ 64"
  shows "length (vr_violations (ring_of vs)) = 1000 \<and> vr_index (ring_of vs) = of_nat (length vs) \<and>
    (\<forall>m. 0 < m \<longrightarrow> m \<le> length vs \<longrightarrow> length vs < m + 1000 \<longrightarrow> vr_violations (ring_of vs) ! (m mod 1000) = Some (vs ! (m - 1))) \<and>
    (\<forall>j<1000. length vs < j \<or> j = 0 \<and> length vs < 1000 \<longrightarrow> vr_violations (ring_of vs) ! j = None)"
  using assms
proof (induction vs rule: rev_induct)
  case Nil
  then show ?case by (simp add: ring_of_def zero_ViolationRing_def)
next
  case (snoc v vs)
  let ?k = "Suc (length vs)"
  have IH: "length (vr_violations (ring_of vs)) = 1000" "vr_index (ring_of vs) = of_nat (length vs)"
      "\<And>m. 0 < m \<Longrightarrow> m \<le> length vs \<Longrightarrow> length vs < m + 1000 \<Longrightarrow> vr_violations (ring_of vs) ! (m mod 1000) = Some (vs ! (m - 1))"
      "\<And>j. j < 1000 \<Longrightarrow> length vs < j \<or> j = 0 \<and> length vs < 1000 \<Longrightarrow> vr_violations (ring_of vs) ! j = None"
    using snoc by auto
  have i: "(of_nat (length vs) :: 64 word) + 1 = of_nat ?k" by simp
  have u: "unat (of_nat ?k :: 64 word) = ?k" using snoc(2) by (intro unat_small) simp
  have viol: "vr_violations (ring_of (vs @ [v])) = (vr_violations (ring_of vs))[?k mod 1000 := Some v]"
      "vr_index (ring_of (vs @ [v])) = of_nat ?k"
    unfolding ring_of_snoc ViolationRing_Add_def Let_def IH(2) i u by simp_all
  have "vr_violations (ring_of (vs @ [v])) ! (m mod 1000) = Some ((vs @ [v]) ! (m - 1))" if m: "0 < m" "m \<le> ?k" "?k < m + 1000" for m
  proof (cases "m = ?k")
    case True
    then show ?thesis using IH(1) by (simp add: viol)
  next
    case False
    then have "?k mod 1000 \<noteq> m mod 1000" using m by (intro mod_slots_differ) simp_all
    then show ?thesis using IH(1) IH(3) [of m] m False by (simp add: viol nth_append)
  qed
  moreover have "vr_violations (ring_of (vs @ [v])) ! j = None" if j: "j < 1000" "?k < j \<or> j = 0 \<and> ?k < 1000" for j
    using j IH(1) IH(4) [of j] by (auto simp: viol nth_list_update)
  ultimately show ?case using IH(1) viol by simp
qed

lemma ring_index: "length vs < 2 ^ 64 \<Longrightarrow> vr_index (ring_of vs) = of_nat (length vs)"
  by (rule ring_slots [THEN conjunct2, THEN conjunct1])

lemma ring_full: "length vs < 2 ^ 64 \<Longrightarrow> 0 < m \<Longrightarrow> m \<le> length vs \<Longrightarrow> length vs < m + 1000 \<Longrightarrow>
    vr_violations (ring_of vs) ! (m mod 1000) = Some (vs ! (m - 1))"
  by (rule ring_slots [THEN conjunct2, THEN conjunct2, THEN conjunct1, rule_format])

lemma ring_empty: "length vs < 2 ^ 64 \<Longrightarrow> j < 1000 \<Longrightarrow> length vs < j \<or> j = 0 \<and> length vs < 1000 \<Longrightarrow> vr_violations (ring_of vs) ! j = None"
  by (rule ring_slots [THEN conjunct2, THEN conjunct2, THEN conjunct2, rule_format])

lemma index_below_zero:
  assumes "length vs < 2 ^ 64" "i = length vs + d" "0 < d" "d < 616"
  shows "unat (vr_index (ring_of vs) - of_nat i) mod 1000 = 616 - d"
proof -
  have "vr_index (ring_of vs) - of_nat i = - (of_nat d :: 64 word)" using assms by (simp add: ring_index)
  moreover have "unat (- (of_nat d :: 64 word)) = 2 ^ 64 - d" using assms by (intro unat_below_zero) simp_all
  moreover have "2 ^ 64 - d = 18446744073709551 * 1000 + (616 - d)" using assms by simp
  moreover have "(18446744073709551 * 1000 + (616 - d)) mod 1000 = 616 - d" by (subst mod_mult_self3) simp
  ultimately show ?thesis by (simp only:)
qed

lemma ring_read:
  assumes "length vs < 2 ^ 64" "i < 1000" "i < length vs \<or> i < 616"
  shows "vr_violations (ring_of vs) ! (unat (vr_index (ring_of vs) - of_nat i) mod 1000) = (if i < length vs then Some (rev vs ! i) else None)"
proof -
  let ?k = "length vs"
  consider (some) "i < ?k" | (zero) "i = ?k" | (below) "i > ?k" by linarith
  then show ?thesis
  proof cases
    case some
    have "vr_index (ring_of vs) - of_nat i = of_nat (?k - i)" using some assms(1) by (simp add: ring_index of_nat_diff)
    then have u: "unat (vr_index (ring_of vs) - of_nat i) = ?k - i" using assms(1) by (simp add: unat_small)
    have "vr_violations (ring_of vs) ! ((?k - i) mod 1000) = Some (vs ! (?k - i - 1))"
      using some assms(1,2) by (intro ring_full) simp_all
    then show ?thesis using u some by (simp add: rev_nth)
  next
    case zero
    have "vr_violations (ring_of vs) ! 0 = None" using zero assms(1,2) by (intro ring_empty) simp_all
    then show ?thesis using zero assms(1) by (simp add: ring_index)
  next
    case below
    define d where "d = i - ?k"
    have d: "i = ?k + d" "0 < d" "d < 616" using below assms(3) by (auto simp: d_def)
    have "vr_violations (ring_of vs) ! (616 - d) = None" using below d assms(1,3) by (intro ring_empty) linarith+
    then show ?thesis using index_below_zero [OF assms(1) d] below by simp
  qed
qed

lemma GetRecent_eq:
  "0 \<le> n \<Longrightarrow> n \<le> 1000 \<Longrightarrow> GetRecent n vr = Some (List.map_filter (\<lambda>i. vr_violations vr ! (unat (vr_index vr - of_nat i) mod 1000)) [0..<nat n])"
  by (simp add: GetRecent_def)

lemma map_filter_take: "List.map_filter (\<lambda>i. if i < length xs then Some (xs ! i) else None) [0..<n] = take n xs"
proof (induction n)
  case (Suc n)
  then show ?case by (simp add: map_filter_def take_Suc_conv_app_nth)
qed (simp add: map_filter_def)

text \<open>\<^bold>\<open>C37.\<close> The ring of violations keeps the latest ones: \<^verbatim>\<open>GetRecent(n)\<close> returns the last \<open>n\<close> recorded violations, the latest first, or all of
  them when there are fewer, for every \<open>n\<close> up to 616, and up to 1000 when at least \<open>n\<close> were recorded.\<close>

theorem recent_violations:
  assumes "length vs < 2 ^ 64" "0 \<le> n" "n \<le> 616 \<or> n \<le> 1000 \<and> n \<le> int (length vs)"
  shows "GetRecent n (ring_of vs) = Some (take (nat n) (rev vs))"
proof -
  have "vr_violations (ring_of vs) ! (unat (vr_index (ring_of vs) - of_nat i) mod 1000) = (if i < length (rev vs) then Some (rev vs ! i) else None)"
    if "i \<in> set [0..<nat n]" for i
    using ring_read [OF assms(1), of i] that assms(2,3) by auto
  then have "List.map_filter (\<lambda>i. vr_violations (ring_of vs) ! (unat (vr_index (ring_of vs) - of_nat i) mod 1000)) [0..<nat n] =
      List.map_filter (\<lambda>i. if i < length (rev vs) then Some (rev vs ! i) else None) [0..<nat n]"
    unfolding map_filter_def by (intro arg_cong2 [where f = map] filter_cong map_cong) auto
  moreover have "GetRecent n (ring_of vs) =
      Some (List.map_filter (\<lambda>i. vr_violations (ring_of vs) ! (unat (vr_index (ring_of vs) - of_nat i) mod 1000)) [0..<nat n])"
    using assms(2,3) by (intro GetRecent_eq) auto
  ultimately show ?thesis by (simp only: map_filter_take)
qed

definition demo_violations :: "RiskViolation list" where
  "demo_violations = map (\<lambda>i. \<lparr>rv_Timestamp = i, rv_OrderID = 1, rv_Symbol = ''ABC'', rv_Type = ViolationRateLimit, rv_Message = []\<rparr>) [1, 2, 3]"

theorem recent_violations_witness:
  "length demo_violations = 3 \<and> GetRecent 2 (ring_of demo_violations) = Some (take 2 (rev demo_violations)) \<and>
   map rv_Timestamp (take 2 (rev demo_violations)) = [3, 2]"
  using recent_violations [of demo_violations 2] by (simp add: demo_violations_def)

text \<open>Beyond that it repeats entries: with 700 violations recorded, \<^verbatim>\<open>GetRecent(1000)\<close> returns 999, since below zero the index wraps around
  at \<open>2\<^sup>6\<^sup>4\<close>, which is not a multiple of 1000.\<close>

lemma recent_violations_repeated:
  assumes "length vs = 700"
  shows "\<exists>out. GetRecent 1000 (ring_of vs) = Some out \<and> length out = 999"
proof -
  have k: "length vs < 2 ^ 64" using assms by simp
  let ?f = "\<lambda>i. vr_violations (ring_of vs) ! (unat (vr_index (ring_of vs) - of_nat i) mod 1000)"
  have f: "?f i \<noteq> None \<longleftrightarrow> i \<noteq> 700" if i: "i < 1000" for i
  proof -
    consider (some) "i < 700" | (zero) "i = 700" | (below) "i > 700" by linarith
    then show ?thesis
    proof cases
      case some
      then show ?thesis using ring_read [OF k i] assms by simp
    next
      case zero
      have "vr_violations (ring_of vs) ! 0 = None" by (rule ring_empty) (simp_all add: assms)
      then show ?thesis using zero assms by (simp add: ring_index)
    next
      case below
      define d where "d = i - 700"
      have d: "i = length vs + d" "0 < d" "d < 616" "d < 300" using below i assms by (auto simp: d_def)
      have "vr_violations (ring_of vs) ! ((616 - d) mod 1000) = Some (vs ! (616 - d - 1))"
        by (rule ring_full [OF k]) (use d assms in linarith)+
      moreover have "(616 - d) mod 1000 = 616 - d" using d by simp
      ultimately have "?f i = Some (vs ! (616 - d - 1))" using index_below_zero [OF k d(1-3)] by (simp only:)
      then show ?thesis using below by simp
    qed
  qed
  define N :: nat where "N = nat 1000"
  have "GetRecent 1000 (ring_of vs) = Some (List.map_filter ?f [0..<N])" unfolding N_def by (rule GetRecent_eq) simp_all
  moreover have "filter (\<lambda>x. ?f x \<noteq> None) [0..<N] = filter (\<lambda>i. i \<noteq> 700) [0..<N]"
    using f by (intro filter_cong) (simp_all add: N_def)
  moreover have "length (filter (\<lambda>i. i \<noteq> (700::nat)) [0..<N]) = 999"
  proof -
    have "filter (\<lambda>i. i \<noteq> (700::nat)) [0..<N] = remove1 700 [0..<N]"
      by (subst distinct_remove1_removeAll) (auto simp: removeAll_filter_not_eq intro: filter_cong)
    moreover have "700 < N" "N - 1 = 999" by (simp_all add: N_def)
    ultimately show ?thesis by (simp add: length_remove1)
  qed
  ultimately show ?thesis by (simp add: map_filter_def)
qed

end
