(* ===== verification/Spec2Isabelle.thy ===== *)
theory Spec2Isabelle
  imports Dispatcher WorkerPool Admission Breaker Limiter Bulkhead Quota MatchingBook KsonParse RiskCheck
begin

text \<open>
  Verification of the Fluxor runtime (\<^verbatim>\<open>src/\<close>, Go).

  \<^bold>\<open>The program.\<close> Fluxor is a runtime for event-driven services. At its core, events are dispatched by key to a group of event loops; each loop
  has a lock-free ring buffer with many producers and one consumer goroutine. Around it are mailboxes, executors and worker pools on Go
  channels, admission control (backpressure, rate limiter, bulkhead, circuit breaker, quotas), and packages on top: a trading stack with a
  binary protocol, an order book and a risk engine, and a configuration language. The rest of the repository (web servers, connectors,
  storage, workflows, applications) uses these parts and talks to the outside.

  \<^bold>\<open>Theories and sources.\<close>
  \<^item> \<^verbatim>\<open>Prelude\<close>: 64-bit and 32-bit integers of Go, truncating division, errors of contexts, bounded histories; the interfaces
    \<open>inductive_invariant\<close> (reachable states of a step relation keep an invariant) and \<open>op_refinement\<close> (operations implement those of a
    specification). \<^verbatim>\<open>Chan\<close>: buffered channels with \<^verbatim>\<open>select\<close>; the interface \<open>fifo_queue\<close>, which the ring and the mailbox implement.
  \<^item> \<^verbatim>\<open>RingBuffer\<close> (\<^verbatim>\<open>pkg/core/eventloop/ringbuffer.go\<close>, \<^verbatim>\<open>nextPow2\<close> of \<^verbatim>\<open>loop.go\<close>): every method as its atomic actions. A ring used by one
    goroutine is a bounded queue; the size computed from the configuration is a power of two.
  \<^item> \<^verbatim>\<open>EventLoop\<close> (\<^verbatim>\<open>config.go\<close>, \<^verbatim>\<open>loop.go\<close>): producers, consumer and \<^verbatim>\<open>Close\<close> as program counters, interleaved by the relation \<open>loop_step\<close>. Stored
    events are handled exactly once and in order, the queue is bounded (and so are the statistics, whose reads are separate actions), an accepted event was stored under the dropping policy, and a loop that
    nobody disturbs handles everything it stored.
  \<^item> \<^verbatim>\<open>Routing\<close> (\<^verbatim>\<open>key.go\<close>) and \<^verbatim>\<open>Dispatcher\<close> (\<^verbatim>\<open>dispatcher.go\<close>, \<^verbatim>\<open>group.go\<close>): keys, their hash, the choice of a loop, and the group as a list of
    loop systems. Events with one key reach one loop, events without a key are spread evenly, envelopes are routed as the events they carry (with the key their extractor finds first), and
    in a group a \<^verbatim>\<open>Dispatch\<close> that returns \<^verbatim>\<open>nil\<close> has stored its event.
  \<^item> \<^verbatim>\<open>Mailbox\<close>, \<^verbatim>\<open>Executor\<close>, \<^verbatim>\<open>WorkerPool\<close> (\<^verbatim>\<open>pkg/core/concurrency\<close>): calls as program counters over a shared channel, in every interleaving for the
    first two. Messages leave in order and none is lost or duplicated; each accepted task is accounted for and executed at most once; \<^verbatim>\<open>Submit\<close> never meets a closed channel.
    Lemmas show the interleavings that do go wrong: \<^verbatim>\<open>Send\<close> against \<^verbatim>\<open>Close\<close>, \<^verbatim>\<open>SubmitBatch\<close> against \<^verbatim>\<open>Shutdown\<close>, a pool that is started again.
  \<^item> \<^verbatim>\<open>Admission\<close> (\<^verbatim>\<open>concurrency/backpressure.go\<close>, \<^verbatim>\<open>web/backpressure.go\<close>), \<^verbatim>\<open>Breaker\<close>, \<^verbatim>\<open>Limiter\<close>, \<^verbatim>\<open>Bulkhead\<close> (\<^verbatim>\<open>pkg/core/resilience\<close>), \<^verbatim>\<open>Quota\<close>
    (\<^verbatim>\<open>pkg/core/runtime/quota\<close>): the managers with their counters, callbacks as logs. The calls of \<^verbatim>\<open>Admission\<close> interleave action by action: the
    load exceeds the capacity by less than the number of goroutines in \<^verbatim>\<open>TryAcquire\<close>, and a lemma shows that it can. \<^verbatim>\<open>Limiter\<close> and \<^verbatim>\<open>Quota\<close> are
    for calls that do not interleave, and bound the rate and, where 64-bit sums do not overflow, the usage. The breaker implements a
    three-state specification, opens at the first run of failures that reaches the threshold, recovers when enough probes are allowed and
    otherwise cannot; its half-open race is a lemma.
  \<^item> \<^verbatim>\<open>Wire\<close> (\<^verbatim>\<open>pkg/hft/protocol/binary.go\<close>): encoding and decoding at byte level with CRC-32. Round trips, also of batches, and detection of every
    corrupted byte.
  \<^item> \<^verbatim>\<open>Matching\<close>, \<^verbatim>\<open>MatchingLevels\<close>, \<^verbatim>\<open>MatchingBook\<close> (\<^verbatim>\<open>pkg/hft/matching\<close>): the order book over an explicit heap of linked orders; its relation to
    queues per side and price; every reachable book is well formed and its operations do what the queues say, for orders with positive quantities and
    limit prices; an order that uses up the best level, the cancellation of a filled order and negative prices are defects, which are proved.
  \<^item> \<^verbatim>\<open>Risk\<close>, \<^verbatim>\<open>RiskCheck\<close> (\<^verbatim>\<open>pkg/hft/risk/engine.go\<close>): positions follow the fills with a fair average price, the checks decide what the limits
    say, orders that are checked one after the other keep every position within its limit, and the ring of violations returns the latest.
  \<^item> \<^verbatim>\<open>Kson\<close>, \<^verbatim>\<open>KsonParse\<close> (\<^verbatim>\<open>pkg/kson/kson.go\<close>): the parser byte by byte and the accessors. It returns on sources without arrays, does not return
    on a comment where an array expects an element, reads back what a printer writes, with any blank and comment lines and with the values
    the environment overrides, and lookups agree with assignments.

  \<^bold>\<open>How code becomes definitions.\<close> A struct is a record, an enumeration or program counter a datatype, an error an option or a sum, a panic an
  outcome. A concurrent component is a state with one program counter per goroutine and an inductive step relation whose steps are the
  atomic actions of the code; the properties hold in all reachable states. A component whose calls are serialised by a lock, or whose
  theory says that calls do not interleave, is a function per method. Clock readings, results of user functions, choices of \<^verbatim>\<open>select\<close> and
  contents of pooled memory are arguments. \<^verbatim>\<open>float64\<close> arithmetic, the environment and handlers are parameters, and results hold for all of them.

  \<^bold>\<open>Bounds and fuel.\<close> Integers wrap where a property depends on it (\<open>int64\<close>, \<open>int32\<close>, machine words); sequence numbers of the ring and counters of
  statistics are unbounded or wrap without influence. The parser takes one unit of fuel per round of its loops; one more than the length of
  the source is enough (\<^verbatim>\<open>KsonParse\<close>), and where no amount is enough that is a theorem. The waiting loop of the limiter takes its rounds from a list,
  and logarithmically many suffice. Loops over linked orders are partial functions that are proved to return on well-formed books.

  \<^bold>\<open>Not modelled.\<close> Everything whose substance is outside the repository: HTTP, TCP, UDP, WebSocket and VPN servers, connectors, cloud services,
  databases, queues and caches behind drivers, observability exporters, cryptography, the applications and commands. Of the core: the event bus
  with deployment and supervision, futures, the compute pool, operating-system threads and pollers, the retry, backoff, fallback, hedge, timeout
  and rate policies, and the other runtime managers, which are registries of user callbacks under timers. Of the trading stack: market making in
  \<^verbatim>\<open>float64\<close>, market data feeds, latency histograms, hardware tuning, and the disruptor, whose algorithm is that of the ring of the event loop. Of
  the binary protocol: conversions that reinterpret memory. Go's memory model is taken as sequentially consistent for the atomic operations the
  code uses, and goroutine scheduling as any interleaving; a liveness property says which goroutine goes on running.
\<close>

end
